(* ===== verification/Prelude.thy ===== *)
theory Prelude
  imports Main "HOL-Library.Word" "HOL-Library.While_Combinator"
begin

text \<open>
  What every component of the kernel model shares: the machine integer types, results
  with the ways a C function may fail to return, busy-wait loops, monadic folds, C
  strings and byte-addressed memory with little-endian loads and stores.
\<close>

unbundle bit_operations_syntax

named_theorems mem_simps \<open>loads after stores\<close>
named_theorems res_simps \<open>results and folds over results\<close>

subsection \<open>Machine integers\<close>

type_synonym u8 = "8 word"
type_synonym u16 = "16 word"
type_synonym u32 = "32 word"
type_synonym u64 = "64 word"

lemma unat_u64_lt [simp]: "unat (x :: u64) < 18446744073709551616"
  using unsigned_less [of x, where ?'a = nat] by simp

lemma unat_diff_eq_iff:
  fixes x a :: u64
  assumes "k < 2 ^ 64"
  shows "unat (x - a) = k \<longleftrightarrow> x = a + of_nat k"
proof
  assume "unat (x - a) = k"
  then have "of_nat k = x - a" by auto
  then show "x = a + of_nat k" by simp
next
  assume "x = a + of_nat k"
  with assms show "unat (x - a) = k" by (simp add: unat_of_nat)
qed

lemma sint_ucast_small:
  fixes x :: u64
  assumes "unat x < 2 ^ 31"
  shows "sint (ucast x :: u32) = int (unat x)"
proof -
  have "int (unat x) < int (2 ^ 31)" using assms by (simp only: of_nat_less_iff)
  then have "uint x < 2 ^ 31" by simp
  then have "uint (ucast x :: u32) = uint x"
    by (simp add: unsigned_ucast_eq take_bit_int_eq_self)
  moreover have "signed_take_bit 31 (uint x) = uint x"
    using \<open>uint x < 2 ^ 31\<close> by (intro signed_take_bit_int_eq_self) (auto intro: order_trans [of _ 0])
  ultimately show ?thesis by (simp add: sint_uint)
qed

subsection \<open>Results\<close>

text \<open>
  A C function of the kernel returns, spins forever (\<open>Hang\<close>), does something the C
  standard leaves undefined (\<open>Fault\<close>), or stops the machine in the endless loop of
  \<open>kernel_panic\<close>, in a final state (\<open>Halted\<close>).
\<close>

datatype fault = Out_of_bounds | Bad_va_arg | Signed_overflow | Divide_by_zero | Page_fault | General_protection

datatype 's stop = Hang | Fault fault | Halted 's

type_synonym ('s, 'a) result = "'s stop + 'a"

definition res_bind :: "'e + 'a \<Rightarrow> ('a \<Rightarrow> 'e + 'b) \<Rightarrow> 'e + 'b" where
  "res_bind r f = (case r of Inl e \<Rightarrow> Inl e | Inr x \<Rightarrow> f x)"

definition returning :: "'a option \<Rightarrow> 's stop + 'a" where
  "returning r = (case r of None \<Rightarrow> Inl Hang | Some x \<Rightarrow> Inr x)"

definition checked :: "fault + 'a \<Rightarrow> 's stop + 'a" where
  "checked r = (case r of Inl f \<Rightarrow> Inl (Fault f) | Inr x \<Rightarrow> Inr x)"

fun fold_res :: "('a \<Rightarrow> 's \<Rightarrow> 'e + 's) \<Rightarrow> 'a list \<Rightarrow> 's \<Rightarrow> 'e + 's" where
  "fold_res f [] s = Inr s"
| "fold_res f (x # xs) s = res_bind (f x s) (fold_res f xs)"

lemma res_bind_simps [simp, res_simps]:
  "res_bind (Inl e) f = Inl e"
  "res_bind (Inr x) f = f x"
  by (simp_all add: res_bind_def)

lemma res_bind_Inr_iff:
  "res_bind r f = Inr y \<longleftrightarrow> (\<exists>x. r = Inr x \<and> f x = Inr y)"
  by (cases r) simp_all

lemma res_bind_assoc [res_simps]:
  "res_bind (res_bind r f) g = res_bind r (\<lambda>x. res_bind (f x) g)"
  by (cases r) simp_all

lemma res_bind_Inr_right [simp]: "res_bind r Inr = r"
  by (cases r) simp_all

lemma returning_simps [simp, res_simps]:
  "returning None = Inl Hang" "returning (Some x) = Inr x"
  by (simp_all add: returning_def)

lemma returning_Inr_iff [simp]: "returning r = Inr x \<longleftrightarrow> r = Some x"
  by (cases r) simp_all

lemma checked_simps [simp, res_simps]:
  "checked (Inl f) = Inl (Fault f)" "checked (Inr x) = Inr x"
  by (simp_all add: checked_def)

lemma fold_res_Nil_fun [simp]: "fold_res f [] = Inr"
  by (rule ext) simp

lemma fold_res_append [res_simps]:
  "fold_res f (xs @ ys) s = res_bind (fold_res f xs s) (fold_res f ys)"
proof (induction xs arbitrary: s)
  case (Cons x xs)
  have "fold_res f (xs @ ys) = (\<lambda>t. res_bind (fold_res f xs t) (fold_res f ys))"
    by (rule ext) (rule Cons.IH)
  then show ?case by (simp add: res_bind_assoc)
qed simp

lemma fold_res_Inr [res_simps]:
  "fold_res (\<lambda>x s. Inr (f x s)) xs s = Inr (fold f xs s)"
  by (induction xs arbitrary: s) simp_all

lemma fold_res_map:
  "fold_res f (map g xs) s = fold_res (\<lambda>x. f (g x)) xs s"
proof (induction xs arbitrary: s)
  case (Cons x xs)
  have "fold_res f (map g xs) = fold_res (\<lambda>x. f (g x)) xs"
    by (rule ext) (rule Cons.IH)
  then show ?case by simp
qed simp

subsection \<open>Statements that return\<close>

text \<open>\<open>returns r Q\<close>: the statement returns, with a result that satisfies \<open>Q\<close>.\<close>

definition returns :: "'e + 'a \<Rightarrow> ('a \<Rightarrow> bool) \<Rightarrow> bool" where
  "returns r Q \<longleftrightarrow> (\<exists>x. r = Inr x \<and> Q x)"

lemma returns_Inr [simp]: "returns (Inr x) Q \<longleftrightarrow> Q x"
  by (simp add: returns_def)

lemma returns_bind:
  assumes "returns r P" and "\<And>x. P x \<Longrightarrow> returns (f x) Q"
  shows "returns (res_bind r f) Q"
  using assms by (auto simp: returns_def)

lemma returns_mono: "returns r P \<Longrightarrow> (\<And>x. P x \<Longrightarrow> Q x) \<Longrightarrow> returns r Q"
  by (auto simp: returns_def)

text \<open>Steps that keep an invariant, one after the other.\<close>

locale invariant_steps =
  fixes step :: "'a \<Rightarrow> 's \<Rightarrow> 'e + 's" and ok :: "'a \<Rightarrow> bool" and inv :: "'s \<Rightarrow> bool"
  assumes step_keeps: "ok x \<Longrightarrow> inv s \<Longrightarrow> returns (step x s) inv"
begin

lemma fold_keeps: "list_all ok xs \<Longrightarrow> inv s \<Longrightarrow> returns (fold_res step xs s) inv"
  by (induction xs arbitrary: s) (auto intro: returns_bind [OF step_keeps])

end

subsection \<open>Busy-wait loops\<close>

text \<open>
  \<open>spin poll\<close> is the C loop \<^verbatim>\<open>while (poll()) ;\<close>: \<open>poll\<close> returns whether the
  loop goes round again and the state after the test. \<open>None\<close> is a loop that never ends.
\<close>

definition spin :: "('s \<Rightarrow> bool \<times> 's) \<Rightarrow> 's \<Rightarrow> 's option" where
  "spin poll s = map_option snd (while_option fst (\<lambda>(_, t). poll t) (poll s))"

primrec polled :: "('s \<Rightarrow> bool \<times> 's) \<Rightarrow> nat \<Rightarrow> 's \<Rightarrow> 's" where
  "polled poll 0 s = s"
| "polled poll (Suc n) s = polled poll n (snd (poll s))"

lemma polled_step: "snd (poll (polled poll n s)) = polled poll (Suc n) s"
  by (induction n arbitrary: s) simp_all

lemma spin_unfold:
  "spin poll s = (if fst (poll s) then spin poll (snd (poll s)) else Some (snd (poll s)))"
  by (cases "poll s") (simp add: spin_def while_option_unfold [of fst])

lemma spin_done: "\<not> fst (poll s) \<Longrightarrow> spin poll s = Some (snd (poll s))"
  by (simp add: spin_unfold [of poll s])

lemma spin_busy: "fst (poll s) \<Longrightarrow> spin poll s = spin poll (snd (poll s))"
  by (simp add: spin_unfold [of poll s])

text \<open>The loop ends as soon as some poll is not busy, in the state after that poll.\<close>

lemma spin_first:
  assumes "\<And>k. k < n \<Longrightarrow> fst (poll (polled poll k s))"
    and "\<not> fst (poll (polled poll n s))"
  shows "spin poll s = Some (snd (poll (polled poll n s)))"
  using assms
proof (induction n arbitrary: s)
  case 0
  then show ?case by (simp add: spin_done)
next
  case (Suc n)
  have busy: "fst (poll s)" using Suc.prems(1) [of 0] by simp
  have "spin poll (snd (poll s)) = Some (snd (poll (polled poll n (snd (poll s)))))"
  proof (rule Suc.IH)
    fix k assume "k < n"
    then show "fst (poll (polled poll k (snd (poll s))))"
      using Suc.prems(1) [of "Suc k"] by simp
  next
    show "\<not> fst (poll (polled poll n (snd (poll s))))"
      using Suc.prems(2) by simp
  qed
  with busy show ?case by (simp add: spin_busy)
qed

lemma spin_terminates:
  assumes "\<not> fst (poll (polled poll n s))"
  shows "\<exists>m\<le>n. spin poll s = Some (snd (poll (polled poll m s)))"
proof -
  define m where "m = (LEAST k. \<not> fst (poll (polled poll k s)))"
  have "\<not> fst (poll (polled poll m s))"
    unfolding m_def by (rule LeastI) (rule assms)
  moreover have "m \<le> n" unfolding m_def by (rule Least_le) (rule assms)
  moreover have "fst (poll (polled poll k s))" if "k < m" for k
    using not_less_Least [of k "\<lambda>k. \<not> fst (poll (polled poll k s))"] that
    unfolding m_def by blast
  ultimately show ?thesis using spin_first [of m poll s] by blast
qed

lemma while_option_None_invariant:
  assumes "P s" and "\<And>s. P s \<Longrightarrow> b s \<and> P (c s)"
  shows "while_option b c s = None"
proof (rule ccontr)
  assume "while_option b c s \<noteq> None"
  then obtain t where t: "while_option b c s = Some t" by auto
  then have "P t" by (rule while_option_rule [rotated]) (use assms in auto)
  moreover have "\<not> b t" using t by (rule while_option_stop)
  ultimately show False using assms(2) by blast
qed

lemma spin_forever:
  assumes "\<And>n. fst (poll (polled poll n s))"
  shows "spin poll s = None"
proof -
  have "while_option fst (\<lambda>(_, t). poll t) (poll s) = None"
  proof (rule while_option_None_invariant [where P = "\<lambda>x. \<exists>n. x = poll (polled poll n s)"])
    show "\<exists>n. poll s = poll (polled poll n s)" by (rule exI [of _ 0]) simp
  next
    fix x assume "\<exists>n. x = poll (polled poll n s)"
    then obtain n where n: "x = poll (polled poll n s)" ..
    have "(case x of (_, t) \<Rightarrow> poll t) = poll (polled poll (Suc n) s)"
      by (simp add: n case_prod_beta polled_step del: polled.simps)
    with n assms show "fst x \<and> (\<exists>n. (case x of (_, t) \<Rightarrow> poll t) = poll (polled poll n s))"
      by blast
  qed
  then show ?thesis by (simp add: spin_def)
qed

theorem spin_returns_iff:
  "(\<exists>t. spin poll s = Some t) \<longleftrightarrow> (\<exists>n. \<not> fst (poll (polled poll n s)))"
  using spin_forever [of poll s] spin_terminates [of poll _ s] by fastforce

subsection \<open>C strings\<close>

text \<open>
  A C string is a list of \<open>char\<close> (a byte); a literal's list leaves its terminator
  implicit, a buffer holds it. \<open>cstr\<close> is the text up to the first NUL, \<open>strlen\<close> its
  length, and \<open>char_at\<close> reads index \<open>i\<close> of a literal with its terminator.
\<close>

abbreviation NUL :: char where "NUL \<equiv> CHR 0x00"

definition cstr :: "string \<Rightarrow> string" where
  "cstr s = takeWhile (\<lambda>c. c \<noteq> NUL) s"

definition strlen :: "string \<Rightarrow> nat" where
  "strlen s = length (cstr s)"

definition char_at :: "string \<Rightarrow> nat \<Rightarrow> char" where
  "char_at s i = (if i < length s then s ! i else NUL)"

lemma cstr_append_NUL [simp]: "NUL \<notin> set xs \<Longrightarrow> cstr (xs @ NUL # ys) = xs"
  by (auto simp: cstr_def takeWhile_append)

lemma cstr_id [simp]: "NUL \<notin> set xs \<Longrightarrow> cstr xs = xs"
  by (auto simp: cstr_def takeWhile_eq_all_conv)

lemma NUL_notin_cstr [simp]: "NUL \<notin> set (cstr xs)"
  by (auto simp: cstr_def dest: set_takeWhileD)

lemma cstr_cstr [simp]: "cstr (cstr xs) = cstr xs"
  by simp

lemma nth_cstr: "i < strlen xs \<Longrightarrow> cstr xs ! i = xs ! i"
  by (simp add: cstr_def strlen_def takeWhile_nth)

lemma strlen_le_length: "strlen xs \<le> length xs"
  by (simp add: strlen_def cstr_def length_takeWhile_le)

lemma strlen_id [simp]: "NUL \<notin> set xs \<Longrightarrow> strlen xs = length xs"
  by (simp add: strlen_def)

text \<open>A loop over the indices below \<open>strlen\<close> visits the characters of \<open>cstr\<close> in order.\<close>

lemma map_nth_cstr: "map (\<lambda>i. xs ! i) [0..<strlen xs] = cstr xs"
proof (rule nth_equalityI)
  show "length (map (\<lambda>i. xs ! i) [0..<strlen xs]) = length (cstr xs)"
    by (simp add: strlen_def)
next
  fix i assume "i < length (map (\<lambda>i. xs ! i) [0..<strlen xs])"
  then show "map (\<lambda>i. xs ! i) [0..<strlen xs] ! i = cstr xs ! i"
    by (simp add: nth_cstr)
qed

lemma fold_res_cstr:
  "fold_res (\<lambda>i. f (xs ! i)) [0..<strlen xs] s = fold_res f (cstr xs) s"
  by (subst map_nth_cstr [symmetric]) (simp add: fold_res_map)

lemma fold_cstr:
  "fold (\<lambda>i. f (xs ! i)) [0..<strlen xs] s = fold f (cstr xs) s"
  by (subst map_nth_cstr [symmetric]) (simp add: fold_map comp_def)

subsection \<open>Byte-addressed memory\<close>

text \<open>
  Memory is a function from 64-bit addresses to bytes; multi-byte values are stored
  little-endian, and an address that runs past the top wraps around.
\<close>

type_synonym bytes = "u64 \<Rightarrow> u8"

definition load32 :: "bytes \<Rightarrow> u64 \<Rightarrow> u32" where
  "load32 m a = (ucast (m a) :: u32) OR push_bit 8 (ucast (m (a + 1)))
     OR push_bit 16 (ucast (m (a + 2))) OR push_bit 24 (ucast (m (a + 3)))"

definition load64 :: "bytes \<Rightarrow> u64 \<Rightarrow> u64" where
  "load64 m a = (ucast (load32 m a) :: u64) OR push_bit 32 (ucast (load32 m (a + 4)))"

definition store32 :: "bytes \<Rightarrow> u64 \<Rightarrow> u32 \<Rightarrow> bytes" where
  "store32 m a v = m(a := ucast v, a + 1 := ucast (drop_bit 8 v),
     a + 2 := ucast (drop_bit 16 v), a + 3 := ucast (drop_bit 24 v))"

definition store64 :: "bytes \<Rightarrow> u64 \<Rightarrow> u64 \<Rightarrow> bytes" where
  "store64 m a v = store32 (store32 m a (ucast v)) (a + 4) (ucast (drop_bit 32 v))"

text \<open>
  \<open>within x a n\<close>: the byte at \<open>x\<close> is one of the \<open>n\<close> bytes from \<open>a\<close> on.
\<close>

definition within :: "u64 \<Rightarrow> u64 \<Rightarrow> nat \<Rightarrow> bool" where
  "within x a n \<longleftrightarrow> unat (x - a) < n"

lemma within_offset [simp]:
  "i < n \<Longrightarrow> n \<le> 2 ^ 64 \<Longrightarrow> within (a + of_nat i) a n"
  by (simp add: within_def unat_of_nat)

lemma within_add:
  assumes "k + n \<le> 2 ^ 64"
  shows "within x (a + of_nat k) n \<longleftrightarrow> k \<le> unat (x - a) \<and> unat (x - a) < k + n"
proof (cases "k < 2 ^ 64")
  case True
  then have "unat (x - (a + of_nat k)) =
      (if k \<le> unat (x - a) then unat (x - a) - k else unat (x - a) + 2 ^ 64 - k)"
    using unat_sub_if_size [of "x - a" "of_nat k"]
    by (simp add: word_size unat_of_nat diff_diff_eq)
  moreover have "unat (x - a) < 2 ^ 64" by simp
  ultimately show ?thesis using True assms by (auto simp: within_def)
next
  case False
  with assms have "k = 2 ^ 64" "n = 0" by simp_all
  then show ?thesis by (simp add: within_def not_le)
qed

lemma load32_store32_same [mem_simps, simp]: "load32 (store32 m a v) a = v"
proof (rule bit_eqI)
  fix n assume "possible_bit TYPE(u32) n"
  then consider "n < 8" | "8 \<le> n" "n < 16" | "16 \<le> n" "n < 24" | "24 \<le> n" "n < 32"
    by fastforce
  then show "bit (load32 (store32 m a v) a) n = bit v n"
    by cases (auto simp: load32_def store32_def bit_simps)
qed

lemma store32_frame [mem_simps]: "\<not> within x a 4 \<Longrightarrow> store32 m a v x = m x"
  by (auto simp: store32_def within_def)

lemma load32_cong:
  "(\<And>x. within x a 4 \<Longrightarrow> m x = m' x) \<Longrightarrow> load32 m a = load32 m' a"
  by (simp add: load32_def within_def)

lemma load64_cong:
  assumes "\<And>x. within x a 8 \<Longrightarrow> m x = m' x"
  shows "load64 m a = load64 m' a"
proof -
  have "load32 m a = load32 m' a"
    by (rule load32_cong) (use assms in \<open>auto simp: within_def\<close>)
  moreover have "load32 m (a + 4) = load32 m' (a + 4)"
    unfolding load32_def using assms
    by (simp add: within_def add.assoc add_diff_eq)
  ultimately show ?thesis by (simp add: load64_def)
qed

lemma store64_frame [mem_simps]: "\<not> within x a 8 \<Longrightarrow> store64 m a v x = m x"
  by (auto simp: store64_def store32_def within_def add.assoc)

lemma load64_store64_same [mem_simps, simp]: "load64 (store64 m a v) a = v"
proof -
  let ?lo = "store32 m a (ucast v)" and ?hi = "ucast (drop_bit 32 v) :: u32"
  have "load32 (store32 ?lo (a + 4) ?hi) a = load32 ?lo a"
    by (simp add: load32_def store32_def)
  then have "load64 (store64 m a v) a = ucast (ucast v :: u32) OR push_bit 32 (ucast ?hi)"
    by (simp add: load64_def store64_def)
  also have "\<dots> = v"
    by (rule bit_eqI) (auto simp: bit_simps)
  finally show ?thesis .
qed

lemma apart_8:
  assumes "8 \<le> unat (a - b)" and "8 \<le> unat (b - a)" and x: "within x b 8"
  shows "\<not> within x a 8"
proof
  assume "within x a 8"
  with x have i: "unat (x - a) < 8" and j: "unat (x - b) < 8"
    by (simp_all add: within_def)
  have e: "a - b = (x - b) - (x - a)" and e': "b - a = (x - a) - (x - b)" by simp_all
  show False
  proof (cases "x - a \<le> x - b")
    case True
    then have "unat (a - b) = unat (x - b) - unat (x - a)"
      unfolding e by (rule unat_sub)
    with assms(1) j show False by simp
  next
    case False
    then have "unat (b - a) = unat (x - a) - unat (x - b)"
      unfolding e' by (intro unat_sub) simp
    with assms(2) i show False by simp
  qed
qed

lemma load64_store64_apart [mem_simps]:
  assumes "8 \<le> unat (a - b)" and "8 \<le> unat (b - a)"
  shows "load64 (store64 m a v) b = load64 m b"
  by (rule load64_cong) (rule store64_frame [OF apart_8 [OF assms]])

text \<open>The words in memory determine its bytes.\<close>

lemma load32_bytes:
  assumes "load32 m a = load32 m' a" and "within x a 4"
  shows "m x = m' x"
proof -
  have b: "ucast (load32 k a) = k a" "ucast (drop_bit 8 (load32 k a)) = k (a + 1)"
    "ucast (drop_bit 16 (load32 k a)) = k (a + 2)" "ucast (drop_bit 24 (load32 k a)) = k (a + 3)" for k :: bytes
    by (rule bit_eqI; auto simp: load32_def bit_simps dest: bit_imp_le_length)+
  have "x \<in> {a, a + 1, a + 2, a + 3}"
  proof -
    have "unat (x - a) \<in> {0, 1, 2, 3}" using assms(2) by (auto simp: within_def)
    then have "x - a \<in> {0, 1, 2, 3}" by (auto simp: word_unat_eq_iff)
    then show ?thesis by (auto simp: diff_eq_eq add.commute)
  qed
  then show ?thesis using b [of m] b [of m'] assms(1) by auto
qed

lemma load64_bytes:
  assumes "load64 m a = load64 m' a" and "within x a 8"
  shows "m x = m' x"
proof -
  have b: "ucast (load64 k a) = load32 k a" "ucast (drop_bit 32 (load64 k a)) = load32 k (a + 4)" for k :: bytes
    by (rule bit_eqI; auto simp: load64_def bit_simps dest: bit_imp_le_length)+
  have eq: "load32 m a = load32 m' a" "load32 m (a + 4) = load32 m' (a + 4)"
    using b [of m] b [of m'] assms(1) by metis+
  show ?thesis
  proof (cases "within x a 4")
    case False
    then have "within x (a + of_nat 4) 4"
      by (subst within_add) (use assms(2) in \<open>auto simp: within_def\<close>)
    then show ?thesis using load32_bytes [OF eq(2)] by simp
  qed (rule load32_bytes [OF eq(1)])
qed

text \<open>\<open>below x a n\<close>: the byte at \<open>x\<close> is one of the \<open>n\<close> bytes below \<open>a\<close>.\<close>

definition below :: "u64 \<Rightarrow> u64 \<Rightarrow> nat \<Rightarrow> bool" where
  "below x a n \<longleftrightarrow> within x (a - of_nat n) n"

lemma below_mono: 
  assumes b: "below x a n" and nk: "n \<le> k" "k \<le> 2 ^ 64"
  shows "below x a k"
proof -
  have "within x (a - of_nat k + of_nat (k - n)) n"
    using b nk(1) by (simp add: below_def of_nat_diff algebra_simps)
  then show ?thesis
    by (subst (asm) within_add) (use nk in \<open>auto simp: below_def within_def\<close>)
qed

lemma below_minus:
  assumes "below x (a - of_nat k) n" and "k + n \<le> 2 ^ 64"
  shows "below x a (k + n)"
proof -
  have "within x (a - of_nat (k + n)) n" using assms(1) by (simp add: below_def algebra_simps)
  then show ?thesis by (simp add: below_def within_def)
qed

lemma below_apart:
  assumes "below x (a - of_nat k) n" and "k + n \<le> 2 ^ 64"
  shows "\<not> below x a k"
proof
  assume w: "below x a k"
  have "within x (a - of_nat k - of_nat n) n" using assms(1) by (simp add: below_def)
  moreover have "within x (a - of_nat k - of_nat n + of_nat n) k" using w by (simp add: below_def)
  then have "n \<le> unat (x - (a - of_nat k - of_nat n))"
    by (subst (asm) within_add) (use assms(2) in auto)
  ultimately show False by (simp add: within_def)
qed

end
