(* ===== verification/Ports.thy ===== *)
theory Ports
  imports Prelude
begin

text \<open>
  Port input and output (\<open>src/src/core/ports.c\<close>). The hardware behind the ports is not
  code of the kernel: it is a parameter \<open>hw\<close> of every operation that touches a port, a
  record of the four bus operations over a device state of any type.
\<close>

record 'd port_hw =
  hw_inb :: "'d \<Rightarrow> u16 \<Rightarrow> u8 \<times> 'd"
  hw_outb :: "'d \<Rightarrow> u16 \<Rightarrow> u8 \<Rightarrow> 'd"
  hw_inw :: "'d \<Rightarrow> u16 \<Rightarrow> u16 \<times> 'd"
  hw_outw :: "'d \<Rightarrow> u16 \<Rightarrow> u16 \<Rightarrow> 'd"

text \<open>
  The machine every component runs on: the devices and the memory the kernel sees.
  The globals of the C files extend this record, file by file.
\<close>

record 'd machine =
  dev :: 'd
  mem :: bytes

subsection \<open>The instructions\<close>

definition port_byte_in ::
  "'d port_hw \<Rightarrow> u16 \<Rightarrow> ('d, 'z) machine_scheme \<Rightarrow> u8 \<times> ('d, 'z) machine_scheme" where
  "port_byte_in hw port s = (let (v, d) = hw_inb hw (dev s) port in (v, s\<lparr>dev := d\<rparr>))"

definition port_byte_out ::
  "'d port_hw \<Rightarrow> u16 \<Rightarrow> u8 \<Rightarrow> ('d, 'z) machine_scheme \<Rightarrow> ('d, 'z) machine_scheme" where
  "port_byte_out hw port data s = s\<lparr>dev := hw_outb hw (dev s) port data\<rparr>"

definition port_word_in ::
  "'d port_hw \<Rightarrow> u16 \<Rightarrow> ('d, 'z) machine_scheme \<Rightarrow> u16 \<times> ('d, 'z) machine_scheme" where
  "port_word_in hw port s = (let (v, d) = hw_inw hw (dev s) port in (v, s\<lparr>dev := d\<rparr>))"

definition port_word_out ::
  "'d port_hw \<Rightarrow> u16 \<Rightarrow> u16 \<Rightarrow> ('d, 'z) machine_scheme \<Rightarrow> ('d, 'z) machine_scheme" where
  "port_word_out hw port data s = s\<lparr>dev := hw_outw hw (dev s) port data\<rparr>"

subsection \<open>Sequences of port writes\<close>

text \<open>\<open>outs hw pvs\<close> is the device state after a sequence of byte writes.\<close>

definition outs :: "'d port_hw \<Rightarrow> (u16 \<times> u8) list \<Rightarrow> 'd \<Rightarrow> 'd" where
  "outs hw pvs d = fold (\<lambda>(p, v) d. hw_outb hw d p v) pvs d"

text \<open>
  A device that remembers the bytes written to it and answers every read from a fixed
  table: the concrete hardware the witnesses use.
\<close>

definition log_hw :: "(u16 \<Rightarrow> u8) \<Rightarrow> (u16 \<times> u8) list port_hw" where
  "log_hw inp = \<lparr>hw_inb = \<lambda>d p. (inp p, d), hw_outb = \<lambda>d p v. d @ [(p, v)],
     hw_inw = \<lambda>d p. (ucast (inp p), d), hw_outw = \<lambda>d p v. d @ [(p, ucast v)]\<rparr>"

lemma log_hw_simps [simp]:
  "hw_inb (log_hw inp) d p = (inp p, d)"
  "hw_outb (log_hw inp) d p v = d @ [(p, v)]"
  by (simp_all add: log_hw_def)

lemma outs_simps [simp]:
  "outs hw [] d = d"
  "outs hw ((p, v) # pvs) d = outs hw pvs (hw_outb hw d p v)"
  by (simp_all add: outs_def)

lemma outs_append [simp]: "outs hw (xs @ ys) d = outs hw ys (outs hw xs d)"
  by (simp add: outs_def)

lemma outs_log_hw [simp]: "outs (log_hw inp) pvs d = d @ pvs"
  by (induction pvs arbitrary: d) auto

lemma port_byte_out_fields [simp]:
  "dev (port_byte_out hw p v s) = hw_outb hw (dev s) p v"
  "mem (port_byte_out hw p v s) = mem s"
  "machine.more (port_byte_out hw p v s) = machine.more s"
  by (simp_all add: port_byte_out_def)

lemma port_byte_in_fields [simp]:
  "fst (port_byte_in hw p s) = fst (hw_inb hw (dev s) p)"
  "dev (snd (port_byte_in hw p s)) = snd (hw_inb hw (dev s) p)"
  "mem (snd (port_byte_in hw p s)) = mem s"
  "machine.more (snd (port_byte_in hw p s)) = machine.more s"
  by (simp_all add: port_byte_in_def case_prod_beta)

subsection \<open>Polling a device\<close>

text \<open>
  What the busy-wait loops of the drivers have in common: a poll looks only at the device,
  changes only the device, and says whether to go round again. The serial transmitter, the
  serial receiver and the update flag of the clock are polled in this way.
\<close>

locale device_poll =
  fixes poll :: "('d, 'z) machine_scheme \<Rightarrow> bool \<times> ('d, 'z) machine_scheme"
    and busy :: "'d \<Rightarrow> bool"
    and advance :: "'d \<Rightarrow> 'd"
  assumes poll_eq: "poll s = (busy (dev s), s\<lparr>dev := advance (dev s)\<rparr>)"
begin

lemma polled_device: "polled poll n s = s\<lparr>dev := (advance ^^ n) (dev s)\<rparr>"
  by (induction n arbitrary: s) (simp_all add: poll_eq funpow_swap1)

lemma spin_device:
  "spin poll s =
    (if \<exists>n. \<not> busy ((advance ^^ n) (dev s))
     then Some (s\<lparr>dev := (advance ^^ Suc (LEAST n. \<not> busy ((advance ^^ n) (dev s)))) (dev s)\<rparr>)
     else None)"
proof (cases "\<exists>n. \<not> busy ((advance ^^ n) (dev s))")
  case True
  let ?n = "LEAST n. \<not> busy ((advance ^^ n) (dev s))"
  have "\<not> busy ((advance ^^ ?n) (dev s))" using True by (rule LeastI_ex)
  moreover have "busy ((advance ^^ k) (dev s))" if "k < ?n" for k using not_less_Least [OF that] by simp
  ultimately have "spin poll s = Some (snd (poll (polled poll ?n s)))"
    by (intro spin_first) (simp_all add: polled_device poll_eq)
  with True show ?thesis by (simp add: polled_device poll_eq)
next
  case False
  then have "spin poll s = None" by (intro spin_forever) (simp add: polled_device poll_eq)
  with False show ?thesis by simp
qed

lemma spin_ends:
  "\<not> busy ((advance ^^ n) (dev s)) \<Longrightarrow> \<exists>m. spin poll s = Some (s\<lparr>dev := (advance ^^ Suc m) (dev s)\<rparr>)"
  by (auto simp: spin_device)

end

end
