(* ===== verification/Libk.thy ===== *)
theory Libk
  imports Prelude "HOL-Library.Signed_Division"
begin

text \<open>
  The C library routines of the kernel (\<open>src/src/libk\<close>): \<open>memcpyk\<close>, \<open>isdigitk\<close>,
  \<open>strrev\<close>, \<open>itoa\<close> and \<open>ulltoa\<close>. A character buffer is the list of its bytes: a
  write past its end is the fault \<open>Out_of_bounds\<close>.
\<close>

subsection \<open>\<open>mem.c\<close>\<close>

definition memcpyk :: "u64 \<Rightarrow> u64 \<Rightarrow> u64 \<Rightarrow> bytes \<Rightarrow> bytes" where
  "memcpyk src dest bytes m =
     fold (\<lambda>i m. m(dest + of_nat i := m (src + of_nat i))) [0..<unat bytes] m"

subsection \<open>\<open>ctype.c\<close>\<close>

definition isdigitk :: "int \<Rightarrow> bool" where
  "isdigitk c \<longleftrightarrow> c \<ge> 0 \<and> c \<le> 9"

subsection \<open>\<open>strrev.c\<close>\<close>

fun strrev_loop :: "nat \<Rightarrow> nat \<Rightarrow> string \<Rightarrow> fault + string" where
  "strrev_loop i j s =
     (if i < j
      then if i < length s \<and> j < length s
           then strrev_loop (i + 1) (j - 1) (s[i := s ! j, j := s ! i])
           else Inl Out_of_bounds
      else Inr s)"

declare strrev_loop.simps [simp del]

text \<open>\<open>strlen(s) - 1\<close> is computed in \<open>size_t\<close>: it wraps around for the empty string.\<close>

definition strrev :: "string \<Rightarrow> fault + string" where
  "strrev s =
     (if NUL \<in> set s
      then strrev_loop 0 (unat (of_nat (strlen s) - 1 :: u64)) s
      else Inl Out_of_bounds)"

subsection \<open>\<open>itoa.c\<close>\<close>

definition INT_MIN :: int where "INT_MIN = - (2 ^ 31)"

definition digit_char :: "int \<Rightarrow> char" where
  "digit_char r = char_of (if r < 10 then r + 48 else r + 97 - 10)"

definition put_char :: "string \<Rightarrow> nat \<Rightarrow> char \<Rightarrow> fault + string" where
  "put_char str i c = (if i < length str then Inr (str[i := c]) else Inl Out_of_bounds)"

function itoa_loop :: "int \<Rightarrow> nat \<Rightarrow> string \<Rightarrow> int \<Rightarrow> fault + nat \<times> string" where
  "itoa_loop n i str base =
     (if base = 0 then Inl Divide_by_zero
      else if n = INT_MIN \<and> base = -1 then Inl Signed_overflow
      else if i < length str
      then let r = n smod base; str' = str[i := digit_char r]; n' = n sdiv base
           in if n' > 0 then itoa_loop n' (i + 1) str' base else Inr (i + 1, str')
      else Inl Out_of_bounds)"
  by pat_completeness auto
termination
  by (relation "measure (\<lambda>(n, i, str, base). length str - i)") auto

declare itoa_loop.simps [simp del]

definition itoa :: "int \<Rightarrow> string \<Rightarrow> int \<Rightarrow> fault + string" where
  "itoa n str base =
     (if n = 0
      then res_bind (put_char str 0 (CHR ''0'')) (\<lambda>str. put_char str 1 NUL)
      else let sign = n in
        res_bind (if sign < 0 \<and> base = 10
                  then if n = INT_MIN then Inl Signed_overflow else Inr (- n)
                  else Inr n) (\<lambda>n.
        res_bind (itoa_loop n 0 str base) (\<lambda>(i, str).
        res_bind (if sign < 0 \<and> base = 10
                  then res_bind (put_char str i (CHR ''-'')) (\<lambda>str. Inr (i + 1, str))
                  else Inr (i, str)) (\<lambda>(i, str).
        res_bind (put_char str i NUL) strrev))))"

subsection \<open>\<open>ulltoa.c\<close>\<close>

function ulltoa_loop :: "u64 \<Rightarrow> nat \<Rightarrow> string \<Rightarrow> int \<Rightarrow> fault + nat \<times> string" where
  "ulltoa_loop n i str base =
     (if (word_of_int base :: u64) = 0 then Inl Divide_by_zero
      else if i < length str
      then let r = sint (ucast (n mod word_of_int base) :: u32);
               str' = str[i := digit_char r]; n' = n div word_of_int base
           in if n' > 0 then ulltoa_loop n' (i + 1) str' base else Inr (i + 1, str')
      else Inl Out_of_bounds)"
  by pat_completeness auto
termination
  by (relation "measure (\<lambda>(n, i, str, base). length str - i)") auto

declare ulltoa_loop.simps [simp del]

definition ulltoa :: "u64 \<Rightarrow> string \<Rightarrow> int \<Rightarrow> fault + string" where
  "ulltoa n str base =
     (if n = 0
      then res_bind (put_char str 0 (CHR ''0'')) (\<lambda>str. put_char str 1 NUL)
      else let sign = sint (ucast n :: u32) in
        res_bind (ulltoa_loop (if sign < 0 \<and> base = 10 then - n else n) 0 str base)
          (\<lambda>(i, str).
        res_bind (if sign < 0 \<and> base = 10
                  then res_bind (put_char str i (CHR ''-'')) (\<lambda>str. Inr (i + 1, str))
                  else Inr (i, str)) (\<lambda>(i, str).
        res_bind (put_char str i NUL) strrev)))"

subsection \<open>Copying\<close>

lemma copy_source_ahead:
  fixes src dest :: u64
  assumes "dest = src \<or> n \<le> unat (dest - src)" and "k < n" and "n < 2 ^ 64"
  shows "\<not> unat (src + of_nat k - dest) < k"
proof
  assume lt: "unat (src + of_nat k - dest) < k"
  have k: "unat (of_nat k :: u64) = k" using assms(2,3) by (simp add: unat_of_nat)
  show False
  proof (cases "dest = src")
    case True
    with lt k show False by simp
  next
    case False
    have "dest - src = of_nat k - (src + of_nat k - dest)" by simp
    moreover have "src + of_nat k - dest \<le> of_nat k"
      using lt k by (simp add: word_le_nat_alt)
    ultimately have "unat (dest - src) = k - unat (src + of_nat k - dest)"
      using k by (metis unat_sub)
    then have "unat (dest - src) \<le> k" by simp
    with False assms(1,2) show False by simp
  qed
qed

lemma memcpyk_prefix:
  fixes src dest x :: u64
  assumes apart: "dest = src \<or> n \<le> unat (dest - src)" and "n < 2 ^ 64" and "k \<le> n"
  shows "fold (\<lambda>i m. m(dest + of_nat i := m (src + of_nat i))) [0..<k] m x =
    (if unat (x - dest) < k then m (src + (x - dest)) else m x)"
  using \<open>k \<le> n\<close>
proof (induction k arbitrary: x)
  case 0
  then show ?case by simp
next
  case (Suc k)
  have ahead: "\<not> unat (src + of_nat k - dest) < k"
    using copy_source_ahead [OF apart] Suc.prems assms(2) by simp
  have eq: "unat (x - dest) = k \<longleftrightarrow> x = dest + of_nat k"
    using Suc.prems assms(2) by (intro unat_diff_eq_iff) simp
  show ?case
    using Suc.IH [of x] Suc.IH [of "src + of_nat k"] Suc.prems ahead eq
    by (auto simp: less_Suc_eq)
qed

lemma memcpyk_apply:
  "dest = src \<or> unat n \<le> unat (dest - src) \<Longrightarrow>
   memcpyk src dest n m x = (if within x dest (unat n) then m (src + (x - dest)) else m x)"
  unfolding memcpyk_def within_def by (rule memcpyk_prefix [OF _ _ order_refl]) auto

subsection \<open>Reversing\<close>

lemma strrev_loop_middle:
  "xs \<noteq> [] \<Longrightarrow> strrev_loop (length as) (length as + length xs - 1) (as @ xs @ bs)
     = Inr (as @ rev xs @ bs)"
proof (induction "length xs" arbitrary: as xs bs rule: less_induct)
  case less
  then obtain x ys where xs: "xs = x # ys" by (cases xs) auto
  show ?case
  proof (cases ys rule: rev_cases)
    case Nil
    then show ?thesis by (subst strrev_loop.simps) (simp add: xs)
  next
    case (snoc zs y)
    have "strrev_loop (length as) (length as + length xs - 1) (as @ xs @ bs) =
      strrev_loop (length (as @ [y])) (length as + length zs) ((as @ [y]) @ zs @ x # bs)"
      by (subst strrev_loop.simps) (simp add: xs snoc nth_append list_update_append)
    also have "\<dots> = Inr ((as @ [y]) @ rev zs @ x # bs)"
    proof (cases "zs = []")
      case True
      then show ?thesis by (subst strrev_loop.simps) simp
    next
      case False
      with less(1) [of zs "as @ [y]" "x # bs"] show ?thesis by (simp add: xs snoc)
    qed
    finally show ?thesis by (simp add: xs snoc)
  qed
qed

lemma strrev_buffer:
  assumes "xs \<noteq> []" and "NUL \<notin> set xs" and "length xs < 2 ^ 64"
  shows "strrev (xs @ NUL # rest) = Inr (rev xs @ NUL # rest)"
proof -
  have "strlen (xs @ NUL # rest) = length xs"
    by (simp add: strlen_def assms(2))
  moreover have "unat (of_nat (length xs) - 1 :: u64) = length xs - 1"
    using assms(1,3) by (cases "length xs") (simp_all add: unat_of_nat)
  ultimately show ?thesis
    using strrev_loop_middle [of xs "[]" "NUL # rest"] assms(1)
    by (simp add: strrev_def)
qed

subsection \<open>Numerals\<close>

text \<open>
  The specification side: the digits of a number, least significant first, the text of
  a number in a base, and the number a text denotes.
\<close>

fun lsd :: "nat \<Rightarrow> nat \<Rightarrow> nat list" where
  "lsd b n = (if b \<le> 1 \<or> n < b then [n] else (n mod b) # lsd b (n div b))"

declare lsd.simps [simp del]

definition numeral_of :: "nat \<Rightarrow> nat \<Rightarrow> string" where
  "numeral_of b n = rev (map (\<lambda>d. digit_char (int d)) (lsd b n))"

definition char_digit :: "char \<Rightarrow> nat" where
  "char_digit c = (if of_char c < (58::nat) then of_char c - 48 else of_char c - 87)"

definition numeral_value :: "nat \<Rightarrow> string \<Rightarrow> nat" where
  "numeral_value b s = foldl (\<lambda>a c. a * b + char_digit c) 0 s"

lemma lsd_nonempty [simp]: "lsd b n \<noteq> []"
  by (subst lsd.simps) simp

lemma lsd_0 [simp]: "lsd b 0 = [0]"
  by (subst lsd.simps) auto

lemma lsd_less: "2 \<le> b \<Longrightarrow> d \<in> set (lsd b n) \<Longrightarrow> d < b"
proof (induction b n rule: lsd.induct)
  case (1 b n)
  then show ?case
    by (cases "b \<le> 1 \<or> n < b") (auto simp: lsd.simps [of b n])
qed

lemma length_lsd_le: "2 \<le> b \<Longrightarrow> n < b ^ Suc k \<Longrightarrow> length (lsd b n) \<le> Suc k"
proof (induction k arbitrary: n)
  case 0
  then show ?case by (subst lsd.simps) simp
next
  case (Suc k)
  then have "n div b < b ^ Suc k"
    by (simp add: less_mult_imp_div_less mult.commute)
  with Suc have "length (lsd b (n div b)) \<le> Suc k" by simp
  then show ?case by (subst lsd.simps) simp
qed

lemma length_lsd_gt: "2 \<le> b \<Longrightarrow> b ^ k \<le> n \<Longrightarrow> k < length (lsd b n)"
proof (induction k arbitrary: n)
  case 0
  then show ?case by simp
next
  case (Suc k)
  have "b * 1 \<le> b * b ^ k" using Suc.prems by (intro mult_le_mono) auto
  with Suc.prems(2) have "b \<le> n" unfolding power_Suc by linarith
  moreover have "b ^ k \<le> n div b"
    using Suc.prems by (simp add: less_eq_div_iff_mult_less_eq mult.commute)
  with Suc have "k < length (lsd b (n div b))" by simp
  ultimately show ?case using Suc.prems by (subst lsd.simps) simp
qed

lemma digit_char_int:
  "digit_char (int d) = char_of (if d < 10 then d + 48 else d + 87)"
proof -
  have "char_of (int d + 48) = char_of (d + 48)" and "char_of (87 + int d) = char_of (d + 87)"
    using char_of_nat [of "d + 48", where ?'a = int] char_of_nat [of "d + 87", where ?'a = int]
    by (simp_all add: add.commute)
  then show ?thesis by (simp add: digit_char_def)
qed

lemma char_digit_digit_char [simp]: "d < 36 \<Longrightarrow> char_digit (digit_char (int d)) = d"
  by (simp add: char_digit_def digit_char_int)

lemma digit_char_not_NUL [simp]: "d < 36 \<Longrightarrow> digit_char (int d) \<noteq> NUL"
proof
  assume "d < 36" and "digit_char (int d) = NUL"
  then have "of_char (digit_char (int d)) = (0 :: nat)" by simp
  with \<open>d < 36\<close> show False by (simp add: digit_char_int split: if_splits)
qed

lemma numeral_of_nonempty [simp]: "numeral_of b n \<noteq> []"
  by (simp add: numeral_of_def)

lemma NUL_notin_numeral_of [simp]:
  assumes "2 \<le> b" and "b \<le> 36" shows "NUL \<notin> set (numeral_of b n)"
proof
  assume "NUL \<in> set (numeral_of b n)"
  then obtain d where "d \<in> set (lsd b n)" and "NUL = digit_char (int d)"
    by (auto simp: numeral_of_def)
  with lsd_less [of b d n] assms digit_char_not_NUL [of d] show False by simp
qed

text \<open>The text of a number denotes it, in every base the digits cover.\<close>

lemma numeral_value_snoc:
  "numeral_value b (s @ [c]) = numeral_value b s * b + char_digit c"
  by (simp add: numeral_value_def)

lemma numeral_value_numeral_of:
  "2 \<le> b \<Longrightarrow> b \<le> 36 \<Longrightarrow> numeral_value b (numeral_of b n) = n"
proof (induction b n rule: lsd.induct)
  case (1 b n)
  show ?case
  proof (cases "n < b")
    case True
    with "1.prems" show ?thesis
      by (simp add: numeral_of_def lsd.simps [of b n] numeral_value_def)
  next
    case False
    with "1.prems" have "numeral_of b n = numeral_of b (n div b) @ [digit_char (int (n mod b))]"
      by (simp add: numeral_of_def lsd.simps [of b n])
    moreover have "n mod b < 36"
      using "1.prems" mod_less_divisor [of b n] by linarith
    ultimately show ?thesis using "1" False by (simp add: numeral_value_snoc)
  qed
qed

lemma length_numeral_of [simp]: "length (numeral_of b n) = length (lsd b n)"
  by (simp add: numeral_of_def)

subsection \<open>The digit loops\<close>

text \<open>
  The \<^verbatim>\<open>do ... while ((n /= base) > 0)\<close> loops of \<open>itoa\<close> and \<open>ulltoa\<close> differ in the type
  of the number only. The contract they share: one digit per round, least significant
  first, until the quotient is zero or the buffer is full.
\<close>

locale digit_loop =
  fixes loop :: "'n \<Rightarrow> nat \<Rightarrow> string \<Rightarrow> fault + nat \<times> string"
    and val :: "'n \<Rightarrow> nat"
    and quot :: "'n \<Rightarrow> 'n"
    and ok :: "'n \<Rightarrow> bool"
    and base :: nat
  assumes base_range: "2 \<le> base" "base \<le> 36"
    and ok_quot: "ok n \<Longrightarrow> base \<le> val n \<Longrightarrow> ok (quot n)"
    and val_quot: "ok n \<Longrightarrow> val (quot n) = val n div base"
    and loop_round: "ok n \<Longrightarrow> loop n i str =
      (if i < length str
       then if base \<le> val n
            then loop (quot n) (i + 1) (str[i := digit_char (int (val n mod base))])
            else Inr (i + 1, str[i := digit_char (int (val n mod base))])
       else Inl Out_of_bounds)"
begin

lemma loop_digits:
  "ok n \<Longrightarrow> i \<le> length str \<Longrightarrow> loop n i str =
     (if i + length (lsd base (val n)) \<le> length str
      then Inr (i + length (lsd base (val n)),
        take i str @ map (\<lambda>d. digit_char (int d)) (lsd base (val n))
          @ drop (i + length (lsd base (val n))) str)
      else Inl Out_of_bounds)"
proof (induction "val n" arbitrary: n i str rule: less_induct)
  case less
  let ?c = "digit_char (int (val n mod base))"
  show ?case
  proof (cases "i < length str")
    case False
    with less.prems have "\<not> i + length (lsd base (val n)) \<le> length str"
      by (simp add: not_le)
    with False loop_round [OF less.prems(1)] show ?thesis by simp
  next
    case room: True
    show ?thesis
    proof (cases "base \<le> val n")
      case False
      with room base_range loop_round [OF less.prems(1)] show ?thesis
        by (simp add: lsd.simps [of base "val n"] upd_conv_take_nth_drop)
    next
      case True
      have lsd: "lsd base (val n) = (val n mod base) # lsd base (val n div base)"
        using True base_range by (subst lsd.simps) simp
      have "val (quot n) < val n"
        using True base_range val_quot [OF less.prems(1)] by simp
      note IH = less.hyps [OF this ok_quot [OF less.prems(1) True],
          of "i + 1" "str[i := ?c]"]
      have "loop n i str = loop (quot n) (i + 1) (str[i := ?c])"
        using room True loop_round [OF less.prems(1)] by simp
      with IH room lsd val_quot [OF less.prems(1)] show ?thesis
        by (simp add: take_Suc_conv_app_nth)
    qed
  qed
qed

lemma loop_fits:
  "ok n \<Longrightarrow> length (lsd base (val n)) \<le> length str \<Longrightarrow> loop n 0 str =
     Inr (length (lsd base (val n)),
       rev (numeral_of base (val n)) @ drop (length (lsd base (val n))) str)"
  using loop_digits [of n 0 str] by (simp add: numeral_of_def)

lemma loop_overflows:
  "ok n \<Longrightarrow> length str < length (lsd base (val n)) \<Longrightarrow> loop n 0 str = Inl Out_of_bounds"
  using loop_digits [of n 0 str] by simp

end

text \<open>The loop of \<open>itoa\<close> on positive numbers, in the two bases \<open>printfk\<close> uses.\<close>

lemma itoa_loop_round:
  assumes "0 < n" and "1 < base"
  shows "itoa_loop n i str (int base) =
    (if i < length str
     then if base \<le> nat n
          then itoa_loop (n div int base) (i + 1)
            (str[i := digit_char (int (nat n mod base))]) (int base)
          else Inr (i + 1, str[i := digit_char (int (nat n mod base))])
     else Inl Out_of_bounds)"
proof -
  have "n sdiv int base = n div int base" "n smod int base = n mod int base"
    using assms by (simp_all add: signed_divide_int_def signed_modulo_int_def)
  moreover have "0 < n div int base \<longleftrightarrow> base \<le> nat n"
    using assms by (simp add: pos_imp_zdiv_pos_iff le_nat_iff)
  moreover have "int (nat n mod base) = n mod int base"
    using assms by (simp add: zmod_int)
  ultimately show ?thesis
    using assms by (subst itoa_loop.simps) (simp add: INT_MIN_def Let_def)
qed

interpretation itoa_dec: digit_loop "\<lambda>n i str. itoa_loop n i str 10" nat "\<lambda>n. n div 10"
  "\<lambda>n. 0 < n" 10
proof unfold_locales
  fix n :: int and i str assume "0 < n"
  then show "itoa_loop n i str 10 = (if i < length str
      then if 10 \<le> nat n
           then itoa_loop (n div 10) (i + 1) (str[i := digit_char (int (nat n mod 10))] ) 10
           else Inr (i + 1, str[i := digit_char (int (nat n mod 10))])
      else Inl Out_of_bounds)"
    using itoa_loop_round [of n 10 i str] by simp
qed (auto simp: nat_div_distrib)

interpretation itoa_hex: digit_loop "\<lambda>n i str. itoa_loop n i str 16" nat "\<lambda>n. n div 16"
  "\<lambda>n. 0 < n" 16
proof unfold_locales
  fix n :: int and i str assume "0 < n"
  then show "itoa_loop n i str 16 = (if i < length str
      then if 16 \<le> nat n
           then itoa_loop (n div 16) (i + 1) (str[i := digit_char (int (nat n mod 16))] ) 16
           else Inr (i + 1, str[i := digit_char (int (nat n mod 16))])
      else Inl Out_of_bounds)"
    using itoa_loop_round [of n 16 i str] by simp
qed (auto simp: nat_div_distrib)

text \<open>The loop of \<open>ulltoa\<close>, likewise.\<close>

lemma ulltoa_loop_round:
  assumes "1 < base" and "base \<le> 36"
  shows "ulltoa_loop n i str (int base) =
    (if i < length str
     then if base \<le> unat n
          then ulltoa_loop (n div of_nat base) (i + 1)
            (str[i := digit_char (int (unat n mod base))]) (int base)
          else Inr (i + 1, str[i := digit_char (int (unat n mod base))])
     else Inl Out_of_bounds)"
proof -
  have b: "unat (of_nat base :: u64) = base" using assms by (simp add: unat_of_nat)
  then have nz: "(of_nat base :: u64) \<noteq> 0" using assms by (metis unat_0 not_one_less_zero)
  have "unat n mod base < 36" using assms mod_less_divisor [of base "unat n"] by linarith
  then have r: "sint (ucast (n mod of_nat base) :: u32) = int (unat n mod base)"
    using b by (subst sint_ucast_small) (simp_all add: unat_mod)
  have q: "0 < n div of_nat base \<longleftrightarrow> base \<le> unat n"
    using b assms by (simp add: word_less_nat_alt unat_div div_greater_zero_iff)
  show ?thesis
    using nz r q by (subst ulltoa_loop.simps) (simp add: Let_def)
qed

interpretation ulltoa_dec: digit_loop "\<lambda>n i str. ulltoa_loop n i str 10" unat "\<lambda>n. n div 10"
  "\<lambda>n. True" 10
proof unfold_locales
  fix n :: u64 and i str
  show "ulltoa_loop n i str 10 = (if i < length str
      then if 10 \<le> unat n
           then ulltoa_loop (n div 10) (i + 1) (str[i := digit_char (int (unat n mod 10))]) 10
           else Inr (i + 1, str[i := digit_char (int (unat n mod 10))])
      else Inl Out_of_bounds)"
    using ulltoa_loop_round [of 10 n i str] by simp
qed (auto simp: unat_div)

interpretation ulltoa_hex: digit_loop "\<lambda>n i str. ulltoa_loop n i str 16" unat "\<lambda>n. n div 16"
  "\<lambda>n. True" 16
proof unfold_locales
  fix n :: u64 and i str
  show "ulltoa_loop n i str 16 = (if i < length str
      then if 16 \<le> unat n
           then ulltoa_loop (n div 16) (i + 1) (str[i := digit_char (int (unat n mod 16))]) 16
           else Inr (i + 1, str[i := digit_char (int (unat n mod 16))])
      else Inl Out_of_bounds)"
    using ulltoa_loop_round [of 16 n i str] by simp
qed (auto simp: unat_div)

subsection \<open>\<open>itoa\<close> and \<open>ulltoa\<close> as a whole\<close>

definition decimal_text :: "int \<Rightarrow> string" where
  "decimal_text n = (if n < 0 then ''-'' else []) @ numeral_of 10 (nat \<bar>n\<bar>)"

lemma terminate_and_reverse:
  assumes "xs \<noteq> []" and "NUL \<notin> set xs" and "length xs < length buf" and "length buf < 2 ^ 64"
  shows "res_bind (put_char (xs @ drop (length xs) buf) (length xs) NUL) strrev =
    Inr (rev xs @ NUL # drop (Suc (length xs)) buf)"
proof -
  have "drop (length xs) buf = buf ! length xs # drop (Suc (length xs)) buf"
    using assms(3) by (simp add: Cons_nth_drop_Suc)
  then have "put_char (xs @ drop (length xs) buf) (length xs) NUL =
      Inr (xs @ NUL # drop (Suc (length xs)) buf)"
    using assms(3) by (simp add: put_char_def list_update_append)
  with strrev_buffer [OF assms(1,2)] assms(3,4) show ?thesis by simp
qed

lemma put_minus:
  assumes "length xs < length buf"
  shows "put_char (xs @ drop (length xs) buf) (length xs) CHR ''-'' =
    Inr ((xs @ ''-'') @ drop (length (xs @ ''-'')) buf)"
proof -
  have "drop (length xs) buf = buf ! length xs # drop (Suc (length xs)) buf"
    using assms by (simp add: Cons_nth_drop_Suc)
  then show ?thesis using assms by (simp add: put_char_def list_update_append)
qed

lemma numeral_of_0 [simp]: "2 \<le> b \<Longrightarrow> numeral_of b 0 = ''0''"
  by (simp add: numeral_of_def lsd.simps [of b 0] digit_char_int) (code_simp)

lemma put_zero:
  assumes "2 \<le> length buf"
  shows "res_bind (put_char buf 0 (CHR ''0'')) (\<lambda>str. put_char str 1 NUL) =
    Inr (''0'' @ NUL # drop 2 buf)"
proof -
  obtain a b rest where "buf = a # b # rest"
    using assms by (metis Suc_le_length_iff numeral_2_eq_2)
  then show ?thesis by (simp add: put_char_def)
qed

lemma itoa_positive:
  assumes "0 < n" and "length (numeral_of b (nat n)) < length buf" and "length buf < 2 ^ 64"
    and "b = 10 \<or> b = 16"
  shows "itoa n buf (int b) =
    Inr (numeral_of b (nat n) @ NUL # drop (Suc (length (numeral_of b (nat n)))) buf)"
proof -
  let ?ds = "rev (numeral_of b (nat n))"
  have loop: "itoa_loop n 0 buf (int b) = Inr (length ?ds, ?ds @ drop (length ?ds) buf)"
    using assms itoa_dec.loop_fits [of n buf] itoa_hex.loop_fits [of n buf] by auto
  have "res_bind (put_char (?ds @ drop (length ?ds) buf) (length ?ds) NUL) strrev =
      Inr (rev ?ds @ NUL # drop (Suc (length ?ds)) buf)"
    using assms by (intro terminate_and_reverse) auto
  with loop assms(1) show ?thesis by (simp add: itoa_def)
qed

lemma itoa_negative_decimal:
  assumes "n < 0" and "INT_MIN < n" and "Suc (length (numeral_of 10 (nat (- n)))) < length buf"
    and "length buf < 2 ^ 64"
  shows "itoa n buf 10 = Inr (CHR ''-'' # numeral_of 10 (nat (- n)) @ NUL #
    drop (Suc (Suc (length (numeral_of 10 (nat (- n)))))) buf)"
proof -
  let ?ds = "rev (numeral_of 10 (nat (- n)))"
  have loop: "itoa_loop (- n) 0 buf 10 = Inr (length ?ds, ?ds @ drop (length ?ds) buf)"
    using assms itoa_dec.loop_fits [of "- n" buf] by auto
  have minus: "put_char (?ds @ drop (length ?ds) buf) (length ?ds) CHR ''-'' =
      Inr ((?ds @ ''-'') @ drop (length (?ds @ ''-'')) buf)"
    using assms by (intro put_minus) simp
  have "res_bind (put_char ((?ds @ ''-'') @ drop (length (?ds @ ''-'')) buf)
        (length (?ds @ ''-'')) NUL) strrev =
      Inr (rev (?ds @ ''-'') @ NUL # drop (Suc (length (?ds @ ''-''))) buf)"
    using assms by (intro terminate_and_reverse) auto
  with loop minus assms(1,2) show ?thesis by (simp add: itoa_def)
qed

lemma length_decimal_31:
  assumes "n < 2 ^ 31" shows "length (numeral_of 10 n) \<le> 10"
  using length_lsd_le [of 10 n 9] assms by simp

lemma itoa_decimal:
  assumes "INT_MIN < n" and "n < 2 ^ 31" and "12 \<le> length buf" and "length buf < 2 ^ 64"
  shows "itoa n buf 10 =
    Inr (decimal_text n @ NUL # drop (Suc (length (decimal_text n))) buf)"
proof -
  have "length (numeral_of 10 (nat \<bar>n\<bar>)) \<le> 10"
    using assms(1,2) by (intro length_decimal_31) (simp add: INT_MIN_def)
  then have len: "Suc (length (numeral_of 10 (nat \<bar>n\<bar>))) < length buf"
    using assms(3) by simp
  consider "n = 0" | "0 < n" | "n < 0" by linarith
  then show ?thesis
  proof cases
    case 1
    with assms(3) put_zero [of buf] show ?thesis
      by (simp add: itoa_def decimal_text_def numeral_2_eq_2)
  next
    case 2
    with len assms itoa_positive [of n 10 buf] show ?thesis
      by (simp add: decimal_text_def)
  next
    case 3
    with len assms itoa_negative_decimal [of n buf] show ?thesis
      by (simp add: decimal_text_def)
  qed
qed

lemma ulltoa_unsigned:
  assumes "b = 10 \<longrightarrow> 0 \<le> sint (ucast n :: u32)" and "b = 10 \<or> b = 16"
    and "length (numeral_of b (unat n)) < length buf" and "length buf < 2 ^ 64"
  shows "ulltoa n buf (int b) =
    Inr (numeral_of b (unat n) @ NUL # drop (Suc (length (numeral_of b (unat n)))) buf)"
proof (cases "n = 0")
  case True
  with assms have "2 \<le> length buf" by auto
  with put_zero [of buf] assms(2) True show ?thesis
    by (auto simp: ulltoa_def numeral_2_eq_2)
next
  case False
  let ?ds = "rev (numeral_of b (unat n))"
  have loop: "ulltoa_loop n 0 buf (int b) = Inr (length ?ds, ?ds @ drop (length ?ds) buf)"
    using assms ulltoa_dec.loop_fits [of n buf] ulltoa_hex.loop_fits [of n buf] by auto
  have "res_bind (put_char (?ds @ drop (length ?ds) buf) (length ?ds) NUL) strrev =
      Inr (rev ?ds @ NUL # drop (Suc (length ?ds)) buf)"
    using assms by (intro terminate_and_reverse) auto
  with loop False assms(1,2) show ?thesis by (auto simp: ulltoa_def)
qed

lemma length_hex_64: "length (numeral_of 16 (unat (n :: u64))) \<le> 16"
  using length_lsd_le [of 16 "unat n" 15] by simp

lemma sint_ucast_neg_iff: "sint (ucast n :: u32) < 0 \<longleftrightarrow> bit (n :: u64) 31"
  by (simp add: bit_last_iff [symmetric] bit_simps)

lemma digit_char_negative:
  assumes "k < 16" shows "digit_char (- int k) = char_of (48 - k)"
proof -
  have "char_of (int (48 - k)) = char_of (48 - k)" by (rule char_of_nat)
  moreover have "int (48 - k) = - int k + 48" using assms by simp
  ultimately show ?thesis by (simp add: digit_char_def)
qed

lemma itoa_hex_negative:
  assumes "n < 0" and "2 \<le> length buf" and "length buf < 2 ^ 64"
  shows "itoa n buf 16 = Inr (char_of (48 - nat (- n) mod 16) # NUL # drop 2 buf)"
proof -
  let ?c = "char_of (48 - nat (- n) mod 16) :: char"
  have "n smod 16 = - ((- n) smod 16)" by simp
  also have "(- n) smod 16 = int (nat (- n) mod 16)"
    using assms(1) by (simp add: signed_modulo_int_def zmod_int)
  finally have r: "digit_char (n smod 16) = ?c"
    using digit_char_negative [of "nat (- n) mod 16"] by simp
  obtain a b rest where buf: "buf = a # b # rest"
    using assms(2) by (metis Suc_le_length_iff numeral_2_eq_2)
  have "n sdiv 16 \<le> 0" using assms(1) by (simp add: signed_divide_int_def)
  then have loop: "itoa_loop n 0 buf 16 = Inr (1, ?c # b # rest)"
    using r buf by (subst itoa_loop.simps) (simp add: Let_def)
  have "?c \<noteq> NUL"
  proof
    assume "?c = NUL"
    then have "of_char ?c = (0 :: nat)" by simp
    then show False using mod_less_divisor [of 16 "nat (- n)"] by simp
  qed
  then have "strrev (?c # NUL # rest) = Inr (?c # NUL # rest)"
    using strrev_buffer [of "[?c]" rest] by simp
  with loop assms(1) show ?thesis by (simp add: itoa_def buf put_char_def)
qed

lemma ulltoa_negated_overflows:
  assumes "bit n 31" and "unat n \<le> 2 ^ 64 - 10 ^ 18" and "length buf = 20"
  shows "ulltoa n buf 10 = Inl Out_of_bounds"
proof -
  have nz: "n \<noteq> 0" using assms(1) by auto
  then have "unat (- n) = 2 ^ 64 - unat n"
    using unat_sub_if_size [of 0 n] by (simp add: word_size unat_gt_0)
  then have "10 ^ 18 \<le> unat (- n)" using assms(2) by simp
  then have "18 < length (lsd 10 (unat (- n)))" by (intro length_lsd_gt) simp_all
  then consider "length (lsd 10 (unat (- n))) = 19" | "length (lsd 10 (unat (- n))) = 20"
    | "20 < length (lsd 10 (unat (- n)))" by linarith
  then show ?thesis
  proof cases
    case 1
    then show ?thesis
      using nz assms sint_ucast_neg_iff [of n] ulltoa_dec.loop_fits [of "- n" buf]
      by (simp add: ulltoa_def put_char_def)
  next
    case 2
    then show ?thesis
      using nz assms sint_ucast_neg_iff [of n] ulltoa_dec.loop_fits [of "- n" buf]
      by (simp add: ulltoa_def put_char_def)
  next
    case 3
    then show ?thesis
      using nz assms sint_ucast_neg_iff [of n] ulltoa_dec.loop_overflows [where n = "- n" and str = buf]
      by (simp add: ulltoa_def)
  qed
qed

subsection \<open>What the buffers hold\<close>

text \<open>
  \<open>denotes b ds n\<close>: the text \<open>ds\<close> is the base-\<open>b\<close> numeral of \<open>n\<close>, with no leading zero.
\<close>

definition denotes :: "nat \<Rightarrow> string \<Rightarrow> nat \<Rightarrow> bool" where
  "denotes b ds n \<longleftrightarrow> ds \<noteq> [] \<and> set ds \<subseteq> set (take b ''0123456789abcdefghijklmnopqrstuvwxyz'')
     \<and> numeral_value b ds = n \<and> (hd ds = CHR ''0'' \<longrightarrow> ds = ''0'')"

lemma digit_chars: "map (\<lambda>d. digit_char (int d)) [0..<36] = ''0123456789abcdefghijklmnopqrstuvwxyz''"
  by code_simp

lemma digit_char_in_digits:
  assumes "d < b" and "b \<le> 36"
  shows "digit_char (int d) \<in> set (take b ''0123456789abcdefghijklmnopqrstuvwxyz'')"
proof -
  have "take b [0..<36] = [0..<b]" using assms(2) by simp
  then have "d \<in> set (take b [0..<36])" using assms(1) by simp
  then show ?thesis by (auto simp flip: digit_chars simp: take_map)
qed

lemma digit_char_eq_0: "d < 36 \<Longrightarrow> digit_char (int d) = CHR ''0'' \<longleftrightarrow> d = 0"
proof -
  assume "d < 36"
  have "digit_char (int 0) = CHR ''0''" by code_simp
  with char_digit_digit_char [OF \<open>d < 36\<close>] char_digit_digit_char [of 0] show ?thesis
    by (metis zero_less_numeral)
qed

lemma last_lsd: "2 \<le> b \<Longrightarrow> n \<noteq> 0 \<Longrightarrow> last (lsd b n) \<noteq> 0"
proof (induction b n rule: lsd.induct)
  case (1 b n)
  then show ?case
    by (cases "n < b") (simp_all add: lsd.simps [of b n] div_eq_0_iff)
qed

lemma denotes_numeral_of:
  assumes "2 \<le> b" and "b \<le> 36" shows "denotes b (numeral_of b n) n"
proof -
  have "set (numeral_of b n) \<subseteq> set (take b ''0123456789abcdefghijklmnopqrstuvwxyz'')"
  proof
    fix c assume "c \<in> set (numeral_of b n)"
    then obtain d where "d \<in> set (lsd b n)" and c: "c = digit_char (int d)"
      by (auto simp: numeral_of_def)
    then have "d < b" using assms(1) lsd_less by blast
    then show "c \<in> set (take b ''0123456789abcdefghijklmnopqrstuvwxyz'')"
      unfolding c using assms(2) by (rule digit_char_in_digits)
  qed
  moreover have "hd (numeral_of b n) = digit_char (int (last (lsd b n)))"
    by (simp add: numeral_of_def hd_rev last_map)
  moreover have "last (lsd b n) < 36"
    using lsd_less [of b "last (lsd b n)" n] assms by simp
  ultimately show ?thesis
    using assms last_lsd [of b n] numeral_value_numeral_of [of b n]
    by (cases "n = 0") (auto simp: denotes_def digit_char_eq_0)
qed

lemma hex_digit_ge: "c \<in> set (take 16 ''0123456789abcdefghijklmnopqrstuvwxyz'') \<Longrightarrow> 48 \<le> (of_char c :: nat)"
  by auto

lemma char_below_zero:
  fixes k :: nat
  assumes "k < 16"
  shows "of_char (char_of (48 - k) :: char) = 48 - k" and "char_of (48 - k) \<noteq> NUL"
proof -
  show of: "of_char (char_of (48 - k) :: char) = 48 - k" using assms by simp
  show "char_of (48 - k) \<noteq> NUL"
  proof
    assume "char_of (48 - k) = NUL"
    with of have "48 - k = of_char NUL" by simp
    with assms show False by simp
  qed
qed

lemma NUL_notin_decimal_text [simp]: "NUL \<notin> set (decimal_text n)"
  by (simp add: decimal_text_def)

subsection \<open>Properties\<close>

text \<open>
  C15. \<open>itoa\<close> in base 10 turns every \<open>int\<close> but the most negative one into its decimal
  text, in the 20-byte buffer \<open>vprintfk\<close> gives it: a minus sign exactly for a negative
  number, then the numeral of its absolute value without a leading zero.
\<close>

theorem itoa_decimal_correct:
  assumes "INT_MIN < n" and "n < 2 ^ 31" and "length buf = 20"
  shows "\<exists>buf' ds. itoa n buf 10 = Inr buf' \<and> length buf' = 20
    \<and> cstr buf' = (if n < 0 then ''-'' else []) @ ds \<and> denotes 10 ds (nat \<bar>n\<bar>)"
proof (intro exI conjI)
  have "nat \<bar>n\<bar> < 2 ^ 31" using assms(1,2) by (auto simp: INT_MIN_def)
  then have "length (decimal_text n) \<le> 11"
    using length_decimal_31 [of "nat \<bar>n\<bar>"] by (auto simp: decimal_text_def)
  then show "length (decimal_text n @ NUL # drop (Suc (length (decimal_text n))) buf) = 20"
    using assms(3) by simp
  show "itoa n buf 10 = Inr (decimal_text n @ NUL # drop (Suc (length (decimal_text n))) buf)"
    using assms by (intro itoa_decimal) simp_all
  show "denotes 10 (numeral_of 10 (nat \<bar>n\<bar>)) (nat \<bar>n\<bar>)"
    by (rule denotes_numeral_of) simp_all
  show "cstr (decimal_text n @ NUL # drop (Suc (length (decimal_text n))) buf) =
      (if n < 0 then ''-'' else []) @ numeral_of 10 (nat \<bar>n\<bar>)"
    by (simp only: cstr_append_NUL NUL_notin_decimal_text not_False_eq_True)
      (simp only: decimal_text_def)
qed

theorem itoa_decimal_correct_witness:
  "\<exists>buf' ds. itoa (-2018) (replicate 20 NUL) 10 = Inr buf' \<and> length buf' = 20
    \<and> cstr buf' = (if (-2018 :: int) < 0 then ''-'' else []) @ ds \<and> denotes 10 ds (nat \<bar>-2018\<bar>)"
  by (rule itoa_decimal_correct) (simp_all add: INT_MIN_def)

text \<open>
  C16. \<open>ulltoa\<close> in base 16, the conversion behind \<^verbatim>\<open>%X\<close>, never leaves the 20-byte buffer
  and yields the hexadecimal numeral of any 64-bit value.
\<close>

theorem ulltoa_hex_correct:
  assumes "length buf = 20"
  shows "\<exists>buf'. ulltoa n buf 16 = Inr buf' \<and> length buf' = 20 \<and> length (cstr buf') \<le> 16
    \<and> denotes 16 (cstr buf') (unat n)"
proof -
  let ?ds = "numeral_of 16 (unat n)"
  have "length ?ds \<le> 16" by (rule length_hex_64)
  moreover have "ulltoa n buf (int 16) = Inr (?ds @ NUL # drop (Suc (length ?ds)) buf)"
    using assms \<open>length ?ds \<le> 16\<close> by (intro ulltoa_unsigned) simp_all
  moreover have "cstr (?ds @ NUL # drop (Suc (length ?ds)) buf) = ?ds"
    by simp
  ultimately show ?thesis using assms denotes_numeral_of [of 16 "unat n"] by auto
qed

theorem ulltoa_hex_correct_witness:
  "\<exists>buf'. ulltoa 0xB8000 (replicate 20 NUL) 16 = Inr buf' \<and> length buf' = 20
    \<and> length (cstr buf') \<le> 16 \<and> denotes 16 (cstr buf') (unat (0xB8000 :: u64))"
  by (rule ulltoa_hex_correct) simp

text \<open>
  \<open>ulltoa\<close> in base 10, the conversion behind \<^verbatim>\<open>%L\<close>, reads bit 31 of its unsigned
  argument as a sign: for nearly every 64-bit value with that bit set it negates the value
  and then writes past the 20-byte buffer of \<open>vprintfk\<close>.
\<close>

theorem ulltoa_decimal_overflows_buffer:
  assumes "bit n 31" and "unat n \<le> 2 ^ 64 - 10 ^ 18" and "length buf = 20"
  shows "ulltoa n buf 10 = Inl Out_of_bounds"
  by (rule ulltoa_negated_overflows) (rule assms)+

theorem ulltoa_decimal_overflows_buffer_witness:
  "ulltoa 0x80000000 (replicate 20 NUL) 10 = Inl Out_of_bounds"
proof (rule ulltoa_decimal_overflows_buffer)
  show "bit (0x80000000 :: u64) 31" by code_simp
  show "unat (0x80000000 :: u64) \<le> 2 ^ 64 - 10 ^ 18" by simp
qed simp

text \<open>
  \<open>itoa\<close> in base 16, the conversion behind \<^verbatim>\<open>%x\<close>, gives one character for every
  negative \<open>int\<close> (every unsigned value from \<open>0x80000000\<close> on): the character 0 to 15 places
  before \<^verbatim>\<open>0\<close>, which is a hexadecimal digit only when the value is a multiple of 16.
\<close>

theorem itoa_hex_of_negative:
  assumes "n < 0" and "length buf = 20"
  shows "\<exists>buf'. itoa n buf 16 = Inr buf' \<and> cstr buf' = [char_of (48 - nat (- n) mod 16)]
    \<and> (nat (- n) mod 16 \<noteq> 0 \<longrightarrow> \<not> (\<exists>v. denotes 16 (cstr buf') v))"
proof -
  let ?c = "char_of (48 - nat (- n) mod 16) :: char"
  have c: "of_char ?c = 48 - nat (- n) mod 16" "?c \<noteq> NUL"
    using char_below_zero [of "nat (- n) mod 16"] by simp_all
  then have shown: "cstr (?c # NUL # drop 2 buf) = [?c]"
    using cstr_append_NUL [of "[?c]" "drop 2 buf"] by simp
  have "\<not> denotes 16 [?c] v" if "nat (- n) mod 16 \<noteq> 0" for v
    using hex_digit_ge [of ?c] c(1) that by (auto simp: denotes_def)
  moreover have "itoa n buf 16 = Inr (?c # NUL # drop 2 buf)"
    using assms by (intro itoa_hex_negative) simp_all
  ultimately show ?thesis using shown by auto
qed

theorem itoa_hex_of_negative_witness:
  "\<exists>buf'. itoa (- 1) (replicate 20 NUL) 16 = Inr buf'
    \<and> cstr buf' = [char_of (48 - nat (- (- 1)) mod 16)]
    \<and> (nat (- (- 1)) mod 16 \<noteq> 0 \<longrightarrow> \<not> (\<exists>v. denotes 16 (cstr buf') v))"
  by (rule itoa_hex_of_negative) simp_all

text \<open>
  \<open>memcpyk\<close> copies exactly: unless the destination starts strictly inside the source,
  each destination byte gets the value its source byte had before the call, and no other
  byte changes.
\<close>

theorem memcpyk_correct:
  assumes "dest = src \<or> unat n \<le> unat (dest - src)"
  shows "memcpyk src dest n m x = (if within x dest (unat n) then m (src + (x - dest)) else m x)"
  using assms by (rule memcpyk_apply)

theorem memcpyk_correct_witness:
  "memcpyk 0xB80A0 0xB8000 160 (\<lambda>a. ucast a) 0xB8007 = (0xA7 :: u8)"
proof -
  have "memcpyk 0xB80A0 0xB8000 160 (\<lambda>a. ucast a) 0xB8007 =
      (if within 0xB8007 0xB8000 (unat (160 :: u64))
       then ucast (0xB80A0 + (0xB8007 - 0xB8000) :: u64) else ucast (0xB8007 :: u64) :: u8)"
    by (rule memcpyk_correct) (simp add: unat_sub_if_size word_size)
  then show ?thesis by (simp add: within_def)
qed

end
