(* ===== verification/Screen.thy ===== *)
theory Screen
  imports Ports Libk
begin

text \<open>
  The text-mode screen driver (\<open>src/src/drivers/screen.c\<close>, \<open>screen.h\<close>). Its four globals
  extend the machine record. The \<open>int\<close> variables \<open>screen_col\<close> and \<open>screen_row\<close> are
  mathematical integers; \<open>fold_screen_write_bounds\<close> shows how far one string can move them,
  which keeps every \<open>int\<close> computation of the driver in range for any string of the kernel.
\<close>

definition VIDEO_ADDRESS :: u64 where "VIDEO_ADDRESS = 0xB8000"
definition SCREEN_WIDTH :: int where "SCREEN_WIDTH = 80"
definition SCREEN_HEIGHT :: int where "SCREEN_HEIGHT = 24"

definition COLOR_BLACK :: u8 where "COLOR_BLACK = 0"
definition COLOR_LIGHT_GREY :: u8 where "COLOR_LIGHT_GREY = 7"

definition FB_COMMAND_PORT :: u16 where "FB_COMMAND_PORT = 0x3D4"
definition FB_DATA_PORT :: u16 where "FB_DATA_PORT = 0x3D5"
definition FB_HIGH_BYTE_COMMAND :: u8 where "FB_HIGH_BYTE_COMMAND = 14"
definition FB_LOW_BYTE_COMMAND :: u8 where "FB_LOW_BYTE_COMMAND = 15"

record 'd screen_state = "'d machine" +
  screen_scheme :: u8
  framebuffer :: u64
  screen_col :: int
  screen_row :: int

subsection \<open>Operations\<close>

definition color_scheme :: "u8 \<Rightarrow> u8 \<Rightarrow> u8" where
  "color_scheme fg bg = fg OR push_bit 4 bg"

definition screen_init :: "('d, 'z) screen_state_scheme \<Rightarrow> ('d, 'z) screen_state_scheme" where
  "screen_init s = s\<lparr>framebuffer := VIDEO_ADDRESS,
     screen_scheme := color_scheme COLOR_LIGHT_GREY COLOR_BLACK,
     screen_col := 0, screen_row := 0\<rparr>"

text \<open>The scrolling block of \<open>screen_write_at\<close>: 23 line copies, then one cleared line.\<close>

definition scroll_lines :: "bytes \<Rightarrow> bytes" where
  "scroll_lines m =
     (let m = fold (\<lambda>i m. memcpyk (VIDEO_ADDRESS + word_of_int (2 * i * SCREEN_WIDTH))
                 (VIDEO_ADDRESS + word_of_int (2 * (i - 1) * SCREEN_WIDTH))
                 (word_of_int (2 * SCREEN_WIDTH)) m)
               [1..SCREEN_HEIGHT - 1] m;
          last_line = word_of_int (2 * SCREEN_HEIGHT * SCREEN_WIDTH) + VIDEO_ADDRESS
      in fold (\<lambda>i m. m(last_line + word_of_int i := 0)) [0..SCREEN_WIDTH * 2 - 1] m)"

definition screen_write_at ::
  "u8 \<Rightarrow> u8 \<Rightarrow> int \<Rightarrow> int \<Rightarrow> ('d, 'z) screen_state_scheme \<Rightarrow> ('d, 'z) screen_state_scheme" where
  "screen_write_at c scheme x y s =
     (let offset = 2 * (y * SCREEN_WIDTH + x);
          s = s\<lparr>mem := (mem s)(framebuffer s + word_of_int offset := c)\<rparr>;
          s = s\<lparr>mem := (mem s)(framebuffer s + word_of_int (offset + 1) := scheme)\<rparr>
      in if offset > SCREEN_HEIGHT * SCREEN_WIDTH * 2
         then s\<lparr>mem := scroll_lines (mem s), screen_row := screen_row s - 1\<rparr>
         else s)"

definition screen_clear :: "('d, 'z) screen_state_scheme \<Rightarrow> ('d, 'z) screen_state_scheme" where
  "screen_clear s =
     fold (\<lambda>y s. fold (\<lambda>x s. screen_write_at (of_char (CHR '' '')) (screen_scheme s) x y s)
        [0..SCREEN_WIDTH - 1] s) [0..SCREEN_HEIGHT - 1] s"

definition move_cursor ::
  "'d port_hw \<Rightarrow> u16 \<Rightarrow> ('d, 'z) screen_state_scheme \<Rightarrow> ('d, 'z) screen_state_scheme" where
  "move_cursor hw pos s =
     (let s = port_byte_out hw FB_COMMAND_PORT FB_HIGH_BYTE_COMMAND s;
          s = port_byte_out hw FB_DATA_PORT (ucast (drop_bit 8 pos AND 0x00FF)) s;
          s = port_byte_out hw FB_COMMAND_PORT FB_LOW_BYTE_COMMAND s
      in port_byte_out hw FB_DATA_PORT (ucast (pos AND 0x00FF)) s)"

definition screen_write ::
  "'d port_hw \<Rightarrow> char \<Rightarrow> ('d, 'z) screen_state_scheme \<Rightarrow> ('d, 'z) screen_state_scheme" where
  "screen_write hw c s =
     (let s =
        (if c = CHR 0x0A then s\<lparr>screen_col := 0, screen_row := screen_row s + 1\<rparr>
         else if c = CHR 0x08 \<and> screen_col s > 0 then
           (let s = s\<lparr>screen_col := screen_col s - 1\<rparr>
            in screen_write_at 0 (screen_scheme s) (screen_col s) (screen_row s) s)
         else if c = CHR 0x09 then
           s\<lparr>screen_col := screen_col s + 8 - (screen_col s smod 8)\<rparr>
         else if c = CHR 0x0D then s\<lparr>screen_col := 0\<rparr>
         else
           (let s = screen_write_at (of_char c) (screen_scheme s) (screen_col s) (screen_row s) s;
                s = s\<lparr>screen_col := screen_col s + 1\<rparr>
            in if screen_col s = SCREEN_WIDTH
               then s\<lparr>screen_col := 0, screen_row := screen_row s + 1\<rparr> else s))
      in move_cursor hw (word_of_int (screen_row s * SCREEN_WIDTH + screen_col s)) s)"

definition screen_print ::
  "'d port_hw \<Rightarrow> string \<Rightarrow> ('d, 'z) screen_state_scheme \<Rightarrow> ('d, 'z) screen_state_scheme" where
  "screen_print hw str s = fold (\<lambda>i. screen_write hw (str ! i)) [0..<strlen str] s"

subsection \<open>Scrolling\<close>

lemma scroll_copies:
  assumes "k \<le> 23"
  shows "fold (\<lambda>i m. memcpyk (VIDEO_ADDRESS + word_of_int (2 * i * SCREEN_WIDTH))
      (VIDEO_ADDRESS + word_of_int (2 * (i - 1) * SCREEN_WIDTH))
      (word_of_int (2 * SCREEN_WIDTH)) m) [1..int k] m a =
    (if unat (a - VIDEO_ADDRESS) < 160 * k then m (a + 160) else m a)"
  using assms
proof (induction k arbitrary: a)
  case 0
  then show ?case by simp
next
  case (Suc k)
  let ?f = "\<lambda>i m. memcpyk (VIDEO_ADDRESS + word_of_int (2 * i * SCREEN_WIDTH))
      (VIDEO_ADDRESS + word_of_int (2 * (i - 1) * SCREEN_WIDTH))
      (word_of_int (2 * SCREEN_WIDTH)) m"
  let ?src = "VIDEO_ADDRESS + of_nat (160 * k) + 160" and ?dest = "VIDEO_ADDRESS + of_nat (160 * k)"
  have upto: "[1..int (Suc k)] = [1..int k] @ [int (Suc k)]"
    by (simp add: upto_rec2)
  have src: "VIDEO_ADDRESS + word_of_int (2 * int (Suc k) * SCREEN_WIDTH) = ?src"
    and dest: "VIDEO_ADDRESS + word_of_int (2 * (int (Suc k) - 1) * SCREEN_WIDTH) = ?dest"
    by (simp_all add: SCREEN_WIDTH_def algebra_simps)
  have "fold ?f [1..int (Suc k)] m a = memcpyk ?src ?dest 160 (fold ?f [1..int k] m) a"
    unfolding upto fold_append by (simp only: comp_apply fold.simps id_apply src dest)
      (simp add: SCREEN_WIDTH_def)
  also have "\<dots> = (if within a ?dest 160 then fold ?f [1..int k] m (?src + (a - ?dest))
      else fold ?f [1..int k] m a)"
    by (subst memcpyk_apply) (simp_all add: unat_sub_if_size word_size)
  also have "within a ?dest 160 \<longleftrightarrow>
      160 * k \<le> unat (a - VIDEO_ADDRESS) \<and> unat (a - VIDEO_ADDRESS) < 160 * k + 160"
    using Suc.prems by (intro within_add) simp
  also have "?src + (a - ?dest) = a + 160" by simp
  finally have step: "fold ?f [1..int (Suc k)] m a =
      (if 160 * k \<le> unat (a - VIDEO_ADDRESS) \<and> unat (a - VIDEO_ADDRESS) < 160 * k + 160
       then fold ?f [1..int k] m (a + 160) else fold ?f [1..int k] m a)" .
  have "unat (a + 160 - VIDEO_ADDRESS) = unat (a - VIDEO_ADDRESS) + 160"
    if "unat (a - VIDEO_ADDRESS) < 160 * k + 160"
  proof -
    have "a + 160 - VIDEO_ADDRESS = (a - VIDEO_ADDRESS) + 160" by simp
    then show ?thesis
      using that Suc.prems unat_word_ariths(1) [of "a - VIDEO_ADDRESS" 160]
      by (simp add: diff_add_eq)
  qed
  with step Suc.IH [of a] Suc.IH [of "a + 160"] Suc.prems show ?case by auto
qed


lemma clear_line:
  "k < 2 ^ 64 \<Longrightarrow> fold (\<lambda>i m. m(b + word_of_int i := 0)) [0..int k - 1] m a =
    (if unat (a - b) < k then 0 else m a)"
  for a b :: u64
proof (induction k)
  case 0
  then show ?case by simp
next
  case (Suc k)
  have "[0..int (Suc k) - 1] = [0..int k - 1] @ [int k]"
    by (simp add: upto_rec2)
  moreover have "unat (a - b) = k \<longleftrightarrow> a = b + of_nat k"
    using Suc.prems by (intro unat_diff_eq_iff) simp
  ultimately show ?case using Suc by (auto simp: less_Suc_eq)
qed

lemma scroll_lines_apply:
  "scroll_lines m a =
    (let i = unat (a - VIDEO_ADDRESS)
     in if i < 3680 then m (a + 160) else if 3840 \<le> i \<and> i < 4000 then 0 else m a)"
proof -
  let ?m = "fold (\<lambda>i m. memcpyk (VIDEO_ADDRESS + word_of_int (2 * i * SCREEN_WIDTH))
      (VIDEO_ADDRESS + word_of_int (2 * (i - 1) * SCREEN_WIDTH))
      (word_of_int (2 * SCREEN_WIDTH)) m) [1..SCREEN_HEIGHT - 1] m"
  have copies: "?m a = (if unat (a - VIDEO_ADDRESS) < 3680 then m (a + 160) else m a)"
    using scroll_copies [of 23 m a] by (simp add: SCREEN_HEIGHT_def)
  have "scroll_lines m a = (if within a (VIDEO_ADDRESS + of_nat 3840) 160 then 0 else ?m a)"
    using clear_line [of 160 "VIDEO_ADDRESS + 3840" ?m a]
    by (simp add: scroll_lines_def Let_def SCREEN_WIDTH_def SCREEN_HEIGHT_def within_def add.commute)
  also have "within a (VIDEO_ADDRESS + of_nat 3840) 160 \<longleftrightarrow>
      3840 \<le> unat (a - VIDEO_ADDRESS) \<and> unat (a - VIDEO_ADDRESS) < 3840 + 160"
    by (rule within_add) simp
  finally show ?thesis using copies by (auto simp: Let_def)
qed

subsection \<open>What each operation leaves alone\<close>

lemma port_byte_out_screen [simp]:
  "screen_col (port_byte_out hw p v s) = screen_col s"
  "screen_row (port_byte_out hw p v s) = screen_row s"
  "framebuffer (port_byte_out hw p v s) = framebuffer s"
  "screen_scheme (port_byte_out hw p v s) = screen_scheme s"
  "screen_state.more (port_byte_out hw p v s) = screen_state.more s"
  by (simp_all add: port_byte_out_def)

definition cursor_bytes :: "u16 \<Rightarrow> (u16 \<times> u8) list" where
  "cursor_bytes pos = [(0x3D4, 14), (0x3D5, ucast (drop_bit 8 pos)), (0x3D4, 15), (0x3D5, ucast pos)]"

lemma ucast_AND_FF [simp]: "(ucast (x AND 0xFF) :: u8) = ucast x" for x :: u16
proof -
  have "(ucast (x AND mask 8) :: u8) = ucast x" by (auto intro!: bit_eqI simp: bit_simps)
  then show ?thesis by (simp add: mask_eq_exp_minus_1)
qed

lemma move_cursor_fields [simp]:
  "mem (move_cursor hw pos s) = mem s"
  "screen_col (move_cursor hw pos s) = screen_col s"
  "screen_row (move_cursor hw pos s) = screen_row s"
  "framebuffer (move_cursor hw pos s) = framebuffer s"
  "screen_scheme (move_cursor hw pos s) = screen_scheme s"
  "screen_state.more (move_cursor hw pos s) = screen_state.more s"
  "dev (move_cursor hw pos s) = outs hw (cursor_bytes pos) (dev s)"
  by (simp_all add: move_cursor_def cursor_bytes_def FB_COMMAND_PORT_def FB_DATA_PORT_def
      FB_HIGH_BYTE_COMMAND_def FB_LOW_BYTE_COMMAND_def)

lemma screen_write_at_fields [simp]:
  "dev (screen_write_at c sch x y s) = dev s"
  "screen_col (screen_write_at c sch x y s) = screen_col s"
  "framebuffer (screen_write_at c sch x y s) = framebuffer s"
  "screen_scheme (screen_write_at c sch x y s) = screen_scheme s"
  "screen_state.more (screen_write_at c sch x y s) = screen_state.more s"
  "screen_row (screen_write_at c sch x y s) =
     (if 1920 < y * 80 + x then screen_row s - 1 else screen_row s)"
  by (simp_all add: screen_write_at_def Let_def SCREEN_WIDTH_def SCREEN_HEIGHT_def)

lemma screen_write_at_mem:
  "mem (screen_write_at c sch x y s) =
    (let p = y * 80 + x;
         m = (mem s)(framebuffer s + word_of_int (2 * p) := c,
           framebuffer s + word_of_int (2 * p + 1) := sch)
     in if 1920 < p then scroll_lines m else m)"
  by (simp add: screen_write_at_def Let_def SCREEN_WIDTH_def SCREEN_HEIGHT_def)

lemma screen_write_fields [simp]:
  "framebuffer (screen_write hw c s) = framebuffer s"
  "screen_scheme (screen_write hw c s) = screen_scheme s"
  "screen_state.more (screen_write hw c s) = screen_state.more s"
  by (simp_all add: screen_write_def Let_def)

lemma screen_print_fold: "screen_print hw str s = fold (screen_write hw) (cstr str) s"
  unfolding screen_print_def by (rule fold_cstr)

lemma fold_screen_write_fields [simp]:
  "framebuffer (fold (screen_write hw) cs s) = framebuffer s"
  "screen_scheme (fold (screen_write hw) cs s) = screen_scheme s"
  "screen_state.more (fold (screen_write hw) cs s) = screen_state.more s"
  by (induction cs arbitrary: s) simp_all

lemma fold_screen_write_update:
  "fold (screen_write hw) cs s = s\<lparr>dev := dev (fold (screen_write hw) cs s),
     mem := mem (fold (screen_write hw) cs s), screen_col := screen_col (fold (screen_write hw) cs s),
     screen_row := screen_row (fold (screen_write hw) cs s)\<rparr>"
  by (rule screen_state.equality) simp_all

lemma screen_print_fields [simp]:
  "framebuffer (screen_print hw str s) = framebuffer s"
  "screen_scheme (screen_print hw str s) = screen_scheme s"
  "screen_state.more (screen_print hw str s) = screen_state.more s"
  by (simp_all add: screen_print_fold)


subsection \<open>Where the cursor may be\<close>

definition cursor_ok :: "('d, 'z) screen_state_scheme \<Rightarrow> bool" where
  "cursor_ok s \<longleftrightarrow> 0 \<le> screen_col s \<and> screen_col s < 80 \<and> 0 \<le> screen_row s"

definition screen_ok :: "('d, 'z) screen_state_scheme \<Rightarrow> bool" where
  "screen_ok s \<longleftrightarrow> framebuffer s = VIDEO_ADDRESS \<and> cursor_ok s \<and> screen_row s \<le> 24"

lemma screen_write_col:
  "screen_col (screen_write hw c s) =
    (if c = CHR 0x0A \<or> c = CHR 0x0D then 0
     else if c = CHR 0x08 \<and> 0 < screen_col s then screen_col s - 1
     else if c = CHR 0x09 then screen_col s + 8 - screen_col s smod 8
     else if screen_col s = 79 then 0 else screen_col s + 1)"
  by (simp add: screen_write_def Let_def SCREEN_WIDTH_def)

lemma screen_write_row:
  "screen_row (screen_write hw c s) =
    (let p = screen_row s * 80 + screen_col s;
         row = (if 1920 < p then screen_row s - 1 else screen_row s)
     in if c = CHR 0x0A then screen_row s + 1
        else if c = CHR 0x08 \<and> 0 < screen_col s
        then if 1920 < p - 1 then screen_row s - 1 else screen_row s
        else if c = CHR 0x09 \<or> c = CHR 0x0D then screen_row s
        else if screen_col s = 79 then row + 1 else row)"
  by (simp add: screen_write_def Let_def SCREEN_WIDTH_def)

lemma screen_write_mem:
  "mem (screen_write hw c s) =
    (if c = CHR 0x0A then mem s
     else if c = CHR 0x08 \<and> 0 < screen_col s
     then mem (screen_write_at 0 (screen_scheme s) (screen_col s - 1) (screen_row s) s)
     else if c = CHR 0x09 \<or> c = CHR 0x0D then mem s
     else mem (screen_write_at (of_char c) (screen_scheme s) (screen_col s) (screen_row s) s))"
  by (simp add: screen_write_def screen_write_at_mem Let_def SCREEN_WIDTH_def)

lemmas screen_write_state = screen_write_col screen_write_row screen_write_mem

lemma screen_write_cursor_ok:
  "cursor_ok s \<Longrightarrow> c \<noteq> CHR 0x09 \<Longrightarrow> cursor_ok (screen_write hw c s)"
  by (auto simp: cursor_ok_def screen_write_col screen_write_row Let_def)

lemma screen_write_screen_ok:
  "screen_ok s \<Longrightarrow> c \<noteq> CHR 0x09 \<Longrightarrow> c \<noteq> CHR 0x0A \<Longrightarrow> screen_ok (screen_write hw c s)"
  using screen_write_cursor_ok [of s c hw]
  by (auto simp: screen_ok_def cursor_ok_def screen_write_row Let_def)

lemma within_word_of_int:
  assumes "0 \<le> k" and "k < 2 ^ 64"
  shows "within (a + word_of_int k) a n \<longleftrightarrow> nat k < n"
proof -
  have "unat (word_of_int k :: u64) = nat k"
    using assms by (simp add: unat_eq_nat_uint uint_word_of_int del: nat_uint_eq)
  then show ?thesis by (simp add: within_def)
qed

lemma scroll_lines_frame: "\<not> within a VIDEO_ADDRESS 4000 \<Longrightarrow> scroll_lines m a = m a"
  by (simp add: scroll_lines_apply within_def Let_def)

lemma screen_write_at_frame:
  assumes "framebuffer s = VIDEO_ADDRESS" and "0 \<le> y * 80 + x" and "y * 80 + x < 2000"
    and "\<not> within a VIDEO_ADDRESS 4000"
  shows "mem (screen_write_at c sch x y s) a = mem s a"
proof -
  let ?p = "y * 80 + x"
  have "a \<noteq> VIDEO_ADDRESS + word_of_int (2 * ?p)" "a \<noteq> VIDEO_ADDRESS + word_of_int (2 * ?p + 1)"
    using assms(2-4) within_word_of_int [of "2 * ?p" VIDEO_ADDRESS 4000]
      within_word_of_int [of "2 * ?p + 1" VIDEO_ADDRESS 4000] by auto
  with assms(1,4) show ?thesis by (simp add: screen_write_at_mem scroll_lines_frame Let_def)
qed

lemma screen_write_frame:
  assumes "screen_ok s" and "\<not> within a VIDEO_ADDRESS 4000"
  shows "mem (screen_write hw c s) a = mem s a"
  using assms by (auto simp: screen_write_mem screen_ok_def cursor_ok_def intro!: screen_write_at_frame)


subsection \<open>Text on the screen\<close>

text \<open>
  Memory after the text \<open>str\<close> is written, in colours \<open>sch\<close>, from cell \<open>p\<close> on: a cell is a
  character byte and an attribute byte.
\<close>

definition text_mem :: "bytes \<Rightarrow> nat \<Rightarrow> u8 \<Rightarrow> string \<Rightarrow> bytes" where
  "text_mem m p sch str a =
     (let i = unat (a - (VIDEO_ADDRESS + of_nat (2 * p)))
      in if i < 2 * length str then if even i then of_char (str ! (i div 2)) else sch else m a)"

lemma text_mem_Nil [simp]: "text_mem m p sch [] = m"
  by (rule ext) (simp add: text_mem_def)

lemma text_mem_snoc:
  assumes "p + length xs < 2 ^ 60"
  shows "(text_mem m p sch xs)(VIDEO_ADDRESS + word_of_int (2 * int (p + length xs)) := of_char c,
      VIDEO_ADDRESS + word_of_int (2 * int (p + length xs) + 1) := sch) =
    text_mem m p sch (xs @ [c])"
proof (rule ext)
  fix a
  define b where "b = VIDEO_ADDRESS + of_nat (2 * p)"
  define b1 where "b1 = VIDEO_ADDRESS + word_of_int (2 * int (p + length xs))"
  define b2 where "b2 = VIDEO_ADDRESS + word_of_int (2 * int (p + length xs) + 1)"
  define i where "i = unat (a - b)"
  have "b1 = b + of_nat (2 * length xs)" and "b2 = b + of_nat (2 * length xs + 1)"
    by (simp_all add: b_def b1_def b2_def algebra_simps)
  then have "i = 2 * length xs \<longleftrightarrow> a = b1" and "i = 2 * length xs + 1 \<longleftrightarrow> a = b2"
    unfolding i_def using assms by (simp_all only:, (intro unat_diff_eq_iff, simp)+)
  moreover have "i < 2 * length (xs @ [c]) \<longleftrightarrow>
      i < 2 * length xs \<or> i = 2 * length xs \<or> i = 2 * length xs + 1" by auto
  moreover have "(xs @ [c]) ! (i div 2) = xs ! (i div 2)" if "i < 2 * length xs"
    using that by (simp add: nth_append less_mult_imp_div_less mult.commute)
  moreover have "text_mem m p sch ys a =
      (if i < 2 * length ys then if even i then of_char (ys ! (i div 2)) else sch else m a)" for ys
    by (simp add: text_mem_def Let_def i_def b_def)
  ultimately have "((text_mem m p sch xs) (b1 := of_char c, b2 := sch)) a =
      text_mem m p sch (xs @ [c]) a" by auto
  then show "((text_mem m p sch xs)
      (VIDEO_ADDRESS + word_of_int (2 * int (p + length xs)) := of_char c,
       VIDEO_ADDRESS + word_of_int (2 * int (p + length xs) + 1) := sch)) a =
    text_mem m p sch (xs @ [c]) a"
    by (simp only: b1_def b2_def)
qed

definition cursor_cell :: "('d, 'z) screen_state_scheme \<Rightarrow> int" where
  "cursor_cell s = screen_row s * 80 + screen_col s"

definition plain :: "char \<Rightarrow> bool" where
  "plain c \<longleftrightarrow> c \<notin> {NUL, CHR 0x08, CHR 0x09, CHR 0x0A, CHR 0x0D}"

lemma screen_write_plain:
  assumes "plain c" and "screen_ok s" and "cursor_cell s \<le> 1920"
  shows "screen_ok (screen_write hw c s)"
    and "cursor_cell (screen_write hw c s) = cursor_cell s + 1"
    and "mem (screen_write hw c s) =
      (mem s)(VIDEO_ADDRESS + word_of_int (2 * cursor_cell s) := of_char c,
        VIDEO_ADDRESS + word_of_int (2 * cursor_cell s + 1) := screen_scheme s)"
proof -
  show "screen_ok (screen_write hw c s)"
    using assms(1,2) by (intro screen_write_screen_ok) (auto simp: plain_def)
  show "cursor_cell (screen_write hw c s) = cursor_cell s + 1"
    using assms by (auto simp: plain_def cursor_cell_def screen_write_col screen_write_row Let_def)
  show "mem (screen_write hw c s) =
      (mem s)(VIDEO_ADDRESS + word_of_int (2 * cursor_cell s) := of_char c,
        VIDEO_ADDRESS + word_of_int (2 * cursor_cell s + 1) := screen_scheme s)"
    using assms by (auto simp: plain_def screen_ok_def screen_write_mem screen_write_at_mem
        cursor_cell_def Let_def)
qed

lemma fold_screen_write_plain:
  assumes "screen_ok s" and "cursor_cell s = int p" and "list_all plain str"
    and "p + length str \<le> 1921"
  shows "let s' = fold (screen_write hw) str s
    in screen_ok s' \<and> cursor_cell s' = int (p + length str)
      \<and> mem s' = text_mem (mem s) p (screen_scheme s) str"
  using assms(3,4)
proof (induction str rule: rev_induct)
  case Nil
  with assms(1,2) show ?case by simp
next
  case (snoc c xs)
  let ?s = "fold (screen_write hw) xs s"
  have IH: "screen_ok ?s" "cursor_cell ?s = int (p + length xs)"
    "mem ?s = text_mem (mem s) p (screen_scheme s) xs"
    using snoc by (simp_all add: Let_def)
  have "plain c" "cursor_cell ?s \<le> 1920" using snoc IH(2) by simp_all
  note step = screen_write_plain [OF this(1) IH(1) this(2), of hw]
  have "p + length xs < 2 ^ 60" using snoc by simp
  from text_mem_snoc [OF this, of "mem s" "screen_scheme s" c] step IH show ?case
    by (simp add: Let_def)
qed


subsection \<open>Clearing\<close>

lemma screen_write_at_text:
  assumes "framebuffer s = VIDEO_ADDRESS" and "n \<le> 1920" and "y * 80 + x = int n"
  shows "screen_write_at (of_char c) sch x y (s\<lparr>mem := text_mem m 0 sch (replicate n c)\<rparr>) =
    s\<lparr>mem := text_mem m 0 sch (replicate (Suc n) c)\<rparr>"
proof -
  have "replicate n c @ [c] = replicate (Suc n) c"
    by (simp add: replicate_append_same)
  then show ?thesis
    using text_mem_snoc [of 0 "replicate n c" m sch c] assms
    by (simp add: screen_write_at_def SCREEN_WIDTH_def SCREEN_HEIGHT_def Let_def del: replicate.simps)
qed

lemma clear_row:
  assumes "framebuffer s = VIDEO_ADDRESS" and "y < 24" and "k \<le> 80"
  shows "fold (\<lambda>x s. screen_write_at (of_char c) (screen_scheme s) x (int y) s) [0..int k - 1]
      (s\<lparr>mem := text_mem m 0 (screen_scheme s) (replicate (80 * y) c)\<rparr>) =
    s\<lparr>mem := text_mem m 0 (screen_scheme s) (replicate (80 * y + k) c)\<rparr>"
  using assms(3)
proof (induction k)
  case 0
  then show ?case by simp
next
  case (Suc k)
  have upto: "[0..int (Suc k) - 1] = [0..int k - 1] @ [int k]" by (simp add: upto_rec2)
  have "screen_write_at (of_char c) (screen_scheme s) (int k) (int y)
      (s\<lparr>mem := text_mem m 0 (screen_scheme s) (replicate (80 * y + k) c)\<rparr>) =
    s\<lparr>mem := text_mem m 0 (screen_scheme s) (replicate (Suc (80 * y + k)) c)\<rparr>"
    using assms Suc.prems by (intro screen_write_at_text) simp_all
  then show ?case using Suc unfolding upto by (simp del: replicate.simps)
qed

lemma clear_rows:
  assumes "framebuffer s = VIDEO_ADDRESS" and "h \<le> 24"
  shows "fold (\<lambda>y s. fold (\<lambda>x s. screen_write_at (of_char c) (screen_scheme s) x y s) [0..79] s)
      [0..int h - 1] s =
    s\<lparr>mem := text_mem (mem s) 0 (screen_scheme s) (replicate (80 * h) c)\<rparr>"
  using assms(2)
proof (induction h)
  case 0
  then show ?case by simp
next
  case (Suc h)
  have upto: "[0..int (Suc h) - 1] = [0..int h - 1] @ [int h]" by (simp add: upto_rec2)
  show ?case
    unfolding upto using Suc clear_row [OF assms(1), of h 80 c "mem s"] by (simp add: add.commute)
qed

lemma screen_clear_eq:
  "framebuffer s = VIDEO_ADDRESS \<Longrightarrow> screen_clear s =
    s\<lparr>mem := text_mem (mem s) 0 (screen_scheme s) (replicate 1920 (CHR '' ''))\<rparr>"
  using clear_rows [of s 24 "CHR '' ''"]
  by (simp add: screen_clear_def SCREEN_WIDTH_def SCREEN_HEIGHT_def)


subsection \<open>Lifting to strings\<close>

lemma fold_screen_write_cursor_ok:
  "cursor_ok s \<Longrightarrow> CHR 0x09 \<notin> set cs \<Longrightarrow> cursor_ok (fold (screen_write hw) cs s)"
  by (induction cs arbitrary: s) (auto simp: screen_write_cursor_ok)

lemma fold_screen_write_frame:
  "screen_ok s \<Longrightarrow> CHR 0x09 \<notin> set cs \<Longrightarrow> CHR 0x0A \<notin> set cs \<Longrightarrow>
    screen_ok (fold (screen_write hw) cs s) \<and>
    (\<not> within a VIDEO_ADDRESS 4000 \<longrightarrow> mem (fold (screen_write hw) cs s) a = mem s a)"
proof (induction cs arbitrary: s)
  case (Cons c cs)
  from Cons.prems have "screen_ok (screen_write hw c s)" by (intro screen_write_screen_ok) auto
  with Cons screen_write_frame [of s a hw c] show ?case by simp
qed simp

lemma screen_write_bounds:
  assumes "0 \<le> screen_col s"
  shows "0 \<le> screen_col (screen_write hw c s)"
    and "screen_col (screen_write hw c s) \<le> screen_col s + 8"
    and "\<bar>screen_row (screen_write hw c s) - screen_row s\<bar> \<le> 1"
proof -
  have "0 \<le> screen_col s smod 8" "screen_col s smod 8 \<le> 8"
    using assms pos_mod_bound [of 8 "screen_col s"] by (simp_all add: smod_mod_positive)
  with assms show "0 \<le> screen_col (screen_write hw c s)"
    and "screen_col (screen_write hw c s) \<le> screen_col s + 8"
    by (auto simp: screen_write_col)
  show "\<bar>screen_row (screen_write hw c s) - screen_row s\<bar> \<le> 1"
    by (auto simp: screen_write_row Let_def)
qed

lemma fold_screen_write_bounds:
  "0 \<le> screen_col s \<Longrightarrow> (let s' = fold (screen_write hw) cs s in
     0 \<le> screen_col s' \<and> screen_col s' \<le> screen_col s + 8 * int (length cs)
     \<and> \<bar>screen_row s' - screen_row s\<bar> \<le> int (length cs))"
proof (induction cs arbitrary: s)
  case (Cons c cs)
  from screen_write_bounds [OF Cons.prems, of hw c] Cons.IH [of "screen_write hw c s"]
  show ?case by (simp add: Let_def) linarith
qed simp

lemma fold_screen_write_past_margin:
  "80 \<le> screen_col s \<Longrightarrow> list_all plain cs \<Longrightarrow>
    screen_col (fold (screen_write hw) cs s) = screen_col s + int (length cs)"
  by (induction cs arbitrary: s) (auto simp: screen_write_col plain_def)

lemma cstr_plain [simp]: "list_all plain str \<Longrightarrow> cstr str = str"
  by (rule cstr_id) (auto simp: list_all_iff plain_def)

subsection \<open>Properties\<close>

text \<open>
  C14. Printing text without control characters that fits on the 24 lines puts exactly that
  text, in the current colours, into the cells from the cursor on, changes no other byte of
  memory, and leaves the cursor behind the last character.
\<close>

theorem screen_print_text:
  assumes "screen_ok s" and "cursor_cell s = int p" and "list_all plain str"
    and "p + length str \<le> 1920"
  shows "screen_ok (screen_print hw str s)
    \<and> cursor_cell (screen_print hw str s) = int (p + length str)
    \<and> mem (screen_print hw str s) = text_mem (mem s) p (screen_scheme s) str"
  using fold_screen_write_plain [OF assms(1-3), of hw] assms(3,4)
  by (simp add: screen_print_fold Let_def)

theorem screen_print_text_witness:
  "let s = \<lparr>dev = [], mem = (\<lambda>_. 0), screen_scheme = 7, framebuffer = 0xB8000,
         screen_col = 78, screen_row = 3\<rparr>;
       s' = screen_print (log_hw (\<lambda>_. 0)) ''utero'' s
   in screen_ok s' \<and> cursor_cell s' = int (318 + length ''utero'')
     \<and> mem s' = text_mem (mem s) 318 (screen_scheme s) ''utero''"
  unfolding Let_def
  by (rule screen_print_text)
    (simp_all add: screen_ok_def cursor_ok_def cursor_cell_def VIDEO_ADDRESS_def plain_def)

text \<open>
  The software cursor stays in its line: as long as no tab is written, the column is
  always below the screen width and the row never becomes negative.
\<close>

theorem screen_print_keeps_cursor:
  assumes "cursor_ok s" and "CHR 0x09 \<notin> set str"
  shows "cursor_ok (screen_print hw str s)"
proof -
  have "set (cstr str) \<subseteq> set str" by (auto simp: cstr_def dest: set_takeWhileD)
  with assms show ?thesis
    unfolding screen_print_fold by (intro fold_screen_write_cursor_ok) auto
qed

theorem screen_print_keeps_cursor_witness:
  "cursor_ok (screen_print (log_hw (\<lambda>_. 0)) (CHR 0x0A # ''ok'' @ [CHR 0x08])
     \<lparr>dev = [], mem = (\<lambda>_. 0), screen_scheme = 7, framebuffer = 0xB8000,
       screen_col = 79, screen_row = 24\<rparr>)"
  by (rule screen_print_keeps_cursor) (simp_all add: cursor_ok_def)

text \<open>
  A tab in one of the last eight columns puts the cursor past the right margin, and the
  line never wraps again: every following character moves the column further right.
\<close>

theorem screen_tab_leaves_margin:
  assumes "72 \<le> screen_col s" and "screen_col s < 80" and "list_all plain str"
  shows "screen_col (screen_print hw (CHR 0x09 # str) s) = 80 + int (length str)"
proof -
  have "screen_col s smod 8 = screen_col s - 72"
  proof -
    have "screen_col s smod 8 = screen_col s mod 8"
      using assms(1) by (intro smod_mod_positive) simp_all
    also have "\<dots> = screen_col s - 72" using assms(1,2) by presburger
    finally show ?thesis .
  qed
  then have "screen_col (screen_write hw (CHR 0x09) s) = 80"
    by (simp add: screen_write_col)
  moreover have "cstr (CHR 0x09 # str) = CHR 0x09 # str"
    using assms(3) by (intro cstr_id) (auto simp: list_all_iff plain_def)
  ultimately show ?thesis
    using fold_screen_write_past_margin [of "screen_write hw (CHR 0x09) s" str hw] assms(3)
    by (simp add: screen_print_fold)
qed

theorem screen_tab_leaves_margin_witness:
  "screen_col (screen_print (log_hw (\<lambda>_. 0)) (CHR 0x09 # ''abc'')
     \<lparr>dev = [], mem = (\<lambda>_. 0), screen_scheme = 7, framebuffer = 0xB8000,
       screen_col = 75, screen_row = 2\<rparr>) = 80 + int (length ''abc'')"
  by (rule screen_tab_leaves_margin) (simp_all add: plain_def)

text \<open>
  C19. Scrolling: a character written on the 25th line (any column but the first) is erased
  at once. Lines 2 to 24 move up one line, line 24 keeps a copy of its old text, and the
  25th line, with everything that was written on it, is cleared.
\<close>

theorem screen_scroll_effect:
  assumes "screen_ok s" and "screen_row s = 24" and "0 < screen_col s" and "plain c"
  shows "screen_row (screen_write hw c s) = (if screen_col s = 79 then 24 else 23) \<and>
    mem (screen_write hw c s) a =
    (let i = unat (a - VIDEO_ADDRESS)
     in if i < 3680 then mem s (a + 160) else if 3840 \<le> i \<and> i < 4000 then 0 else mem s a)"
proof
  show "screen_row (screen_write hw c s) = (if screen_col s = 79 then 24 else 23)"
    using assms by (auto simp: plain_def screen_write_row Let_def)
  let ?p = "1920 + screen_col s"
  let ?m = "(mem s)(VIDEO_ADDRESS + word_of_int (2 * ?p) := of_char c,
      VIDEO_ADDRESS + word_of_int (2 * ?p + 1) := screen_scheme s)"
  have "0 \<le> screen_col s" "screen_col s < 80"
    using assms(1) by (simp_all add: screen_ok_def cursor_ok_def)
  then have off: "?m b = mem s b" if "unat (b - VIDEO_ADDRESS) < 3840 \<or> 4000 \<le> unat (b - VIDEO_ADDRESS)" for b
    using that within_word_of_int [of "2 * ?p" VIDEO_ADDRESS 4000]
      within_word_of_int [of "2 * ?p" VIDEO_ADDRESS 3840]
      within_word_of_int [of "2 * ?p + 1" VIDEO_ADDRESS 4000]
      within_word_of_int [of "2 * ?p + 1" VIDEO_ADDRESS 3840]
    by (auto simp: within_def)
  have next_line: "unat (a + 160 - VIDEO_ADDRESS) = unat (a - VIDEO_ADDRESS) + 160"
    if "unat (a - VIDEO_ADDRESS) < 3680"
    using that unat_word_ariths(1) [of "a - VIDEO_ADDRESS" 160] by (simp add: diff_add_eq)
  have "mem (screen_write hw c s) a = scroll_lines ?m a"
    using assms by (auto simp: plain_def screen_ok_def screen_write_mem screen_write_at_mem Let_def)
  then show "mem (screen_write hw c s) a =
    (let i = unat (a - VIDEO_ADDRESS)
     in if i < 3680 then mem s (a + 160) else if 3840 \<le> i \<and> i < 4000 then 0 else mem s a)"
    using off [of a] off [of "a + 160"] next_line by (auto simp: scroll_lines_apply Let_def)
qed

theorem screen_scroll_effect_witness:
  "let s = \<lparr>dev = [], mem = (\<lambda>_. 0x41), screen_scheme = 7, framebuffer = 0xB8000,
         screen_col = 1, screen_row = 24\<rparr>;
       s' = screen_write (log_hw (\<lambda>_. 0)) (CHR ''B'') s
   in screen_row s' = 23 \<and> mem s' 0xB8F02 = 0 \<and> mem s' 0xB8E62 = 0x41"
  using screen_scroll_effect [of "\<lparr>dev = [], mem = (\<lambda>_. 0x41), screen_scheme = 7,
      framebuffer = 0xB8000, screen_col = 1, screen_row = 24\<rparr>" "CHR ''B''" "log_hw (\<lambda>_. 0)" "0xB8F02"]
    screen_scroll_effect [of "\<lparr>dev = [], mem = (\<lambda>_. 0x41), screen_scheme = 7,
      framebuffer = 0xB8000, screen_col = 1, screen_row = 24\<rparr>" "CHR ''B''" "log_hw (\<lambda>_. 0)" "0xB8E62"]
  by (simp add: Let_def screen_ok_def cursor_ok_def plain_def VIDEO_ADDRESS_def)

text \<open>
  Clearing the screen fills the 24 lines with blanks in the current colours and touches
  nothing else: no byte outside them, no cursor, no port.
\<close>

theorem screen_clear_correct:
  assumes "framebuffer s = VIDEO_ADDRESS"
  shows "screen_clear s =
    s\<lparr>mem := text_mem (mem s) 0 (screen_scheme s) (replicate 1920 (CHR '' ''))\<rparr>"
  using assms by (rule screen_clear_eq)

theorem screen_clear_correct_witness:
  "let s = screen_init \<lparr>dev = (), mem = (\<lambda>_. 0), screen_scheme = 0, framebuffer = 0,
         screen_col = 9, screen_row = 9\<rparr>
   in screen_clear s = s\<lparr>mem := text_mem (mem s) 0 (screen_scheme s) (replicate 1920 (CHR '' ''))\<rparr>"
  unfolding Let_def by (rule screen_clear_correct) (simp add: screen_init_def)

text \<open>
  The hardware cursor follows the software cursor: every character ends with the four
  port writes that load its 16-bit cell number, high byte first, into the CRT controller,
  and writes no other port.
\<close>

theorem screen_write_moves_hardware_cursor:
  "dev (screen_write hw c s) =
     outs hw (cursor_bytes (word_of_int (cursor_cell (screen_write hw c s)))) (dev s)"
  by (simp add: screen_write_def cursor_cell_def Let_def SCREEN_WIDTH_def)

text \<open>
  How far one string can move the cursor: the column by at most eight and the row by at
  most one for each character, so that no \<open>int\<close> of the driver overflows on a real string.
\<close>

theorem screen_print_bounds:
  assumes "0 \<le> screen_col s"
  shows "0 \<le> screen_col (screen_print hw str s)
    \<and> screen_col (screen_print hw str s) \<le> screen_col s + 8 * int (strlen str)
    \<and> \<bar>screen_row (screen_print hw str s) - screen_row s\<bar> \<le> int (strlen str)"
  using fold_screen_write_bounds [OF assms, of hw "cstr str"]
  by (simp add: screen_print_fold Let_def strlen_def)

theorem screen_print_bounds_witness:
  "let s = \<lparr>dev = [], mem = (\<lambda>_. 0x41), screen_scheme = 7, framebuffer = 0xB8000,
         screen_col = 1, screen_row = 24\<rparr>;
       s' = screen_print (log_hw (\<lambda>_. 0)) ''abc'' s
   in 0 \<le> screen_col s' \<and> screen_col s' \<le> screen_col s + 8 * int (strlen ''abc'')
    \<and> \<bar>screen_row s' - screen_row s\<bar> \<le> int (strlen ''abc'')"
  unfolding Let_def by (rule screen_print_bounds) simp

end
