(* ===== verification/Serial.thy ===== *)
theory Serial
  imports Ports
begin

text \<open>
  The serial port driver (\<open>src/src/drivers/serial.c\<close>, \<open>serial.h\<close>). It keeps no state of its
  own: everything is in the device behind the ports. \<open>serial_write\<close> and \<open>serial_read\<close> wait for
  the line status register in a loop that may never end, so they return a result.
\<close>

definition SERIAL_COM1 :: u16 where "SERIAL_COM1 = 0x3F8"

definition SERIAL_DATA_PORT :: "u16 \<Rightarrow> u16" where "SERIAL_DATA_PORT base = base"
definition SERIAL_FIFO_COMMAND_PORT :: "u16 \<Rightarrow> u16" where "SERIAL_FIFO_COMMAND_PORT base = base + 2"
definition SERIAL_LINE_COMMAND_PORT :: "u16 \<Rightarrow> u16" where "SERIAL_LINE_COMMAND_PORT base = base + 3"
definition SERIAL_MODEM_COMMAND_PORT :: "u16 \<Rightarrow> u16" where "SERIAL_MODEM_COMMAND_PORT base = base + 4"
definition SERIAL_LINE_STATUS_PORT :: "u16 \<Rightarrow> u16" where "SERIAL_LINE_STATUS_PORT base = base + 5"

definition SERIAL_LINE_ENABLE_DLAB :: u8 where "SERIAL_LINE_ENABLE_DLAB = 0x80"
definition SERIAL_SPEED_115200 :: u16 where "SERIAL_SPEED_115200 = 1"

subsection \<open>Operations\<close>

definition serial_init ::
  "'d port_hw \<Rightarrow> u16 \<Rightarrow> u16 \<Rightarrow> ('d, 'z) machine_scheme \<Rightarrow> ('d, 'z) machine_scheme" where
  "serial_init hw com divisor s =
     (let s = port_byte_out hw (SERIAL_LINE_COMMAND_PORT com) SERIAL_LINE_ENABLE_DLAB s;
          s = port_byte_out hw (SERIAL_DATA_PORT com) (ucast (drop_bit 8 divisor AND 0x00FF)) s;
          s = port_byte_out hw (SERIAL_DATA_PORT com) (ucast (divisor AND 0x00FF)) s;
          s = port_byte_out hw (SERIAL_LINE_COMMAND_PORT com) 0x03 s;
          s = port_byte_out hw (SERIAL_FIFO_COMMAND_PORT com) 0xC7 s
      in port_byte_out hw (SERIAL_MODEM_COMMAND_PORT com) 0x0B s)"

definition serial_is_transmit_fifo_empty ::
  "'d port_hw \<Rightarrow> u16 \<Rightarrow> ('d, 'z) machine_scheme \<Rightarrow> bool \<times> ('d, 'z) machine_scheme" where
  "serial_is_transmit_fifo_empty hw com s =
     (let (v, s) = port_byte_in hw (SERIAL_LINE_STATUS_PORT com) s in (v AND 0x20 \<noteq> 0, s))"

definition serial_received ::
  "'d port_hw \<Rightarrow> u16 \<Rightarrow> ('d, 'z) machine_scheme \<Rightarrow> bool \<times> ('d, 'z) machine_scheme" where
  "serial_received hw com s =
     (let (v, s) = port_byte_in hw (SERIAL_LINE_STATUS_PORT com) s in (v AND 1 \<noteq> 0, s))"

text \<open>The conditions of the two wait loops: go round again while the flag is clear.\<close>

definition transmit_busy ::
  "'d port_hw \<Rightarrow> u16 \<Rightarrow> ('d, 'z) machine_scheme \<Rightarrow> bool \<times> ('d, 'z) machine_scheme" where
  "transmit_busy hw com s = (let (empty, s) = serial_is_transmit_fifo_empty hw com s in (\<not> empty, s))"

definition receive_empty ::
  "'d port_hw \<Rightarrow> u16 \<Rightarrow> ('d, 'z) machine_scheme \<Rightarrow> bool \<times> ('d, 'z) machine_scheme" where
  "receive_empty hw com s = (let (rcvd, s) = serial_received hw com s in (\<not> rcvd, s))"

definition serial_read ::
  "'d port_hw \<Rightarrow> u16 \<Rightarrow> ('d, 'z) machine_scheme \<Rightarrow> 's stop + char \<times> ('d, 'z) machine_scheme" where
  "serial_read hw com s =
     res_bind (returning (spin (receive_empty hw com) s)) (\<lambda>s.
       let (v, s) = port_byte_in hw com s in Inr (char_of (unat v), s))"

definition serial_write ::
  "'d port_hw \<Rightarrow> u16 \<Rightarrow> char \<Rightarrow> ('d, 'z) machine_scheme \<Rightarrow> 's stop + ('d, 'z) machine_scheme" where
  "serial_write hw com c s =
     res_bind (returning (spin (transmit_busy hw com) s)) (\<lambda>s.
       Inr (port_byte_out hw com (of_char c) s))"

definition serial_print ::
  "'d port_hw \<Rightarrow> u16 \<Rightarrow> string \<Rightarrow> ('d, 'z) machine_scheme \<Rightarrow> 's stop + ('d, 'z) machine_scheme" where
  "serial_print hw com str s = fold_res (\<lambda>i. serial_write hw com (str ! i)) [0..<strlen str] s"

subsection \<open>Waiting\<close>

lemma serial_print_fold: "serial_print hw com str s = fold_res (serial_write hw com) (cstr str) s"
  unfolding serial_print_def by (rule fold_res_cstr)

definition line_status :: "'d port_hw \<Rightarrow> u16 \<Rightarrow> 'd \<Rightarrow> u8" where
  "line_status hw com d = fst (hw_inb hw d (SERIAL_LINE_STATUS_PORT com))"

text \<open>The device after \<open>n\<close> reads of the line status register.\<close>

definition status_reads :: "'d port_hw \<Rightarrow> u16 \<Rightarrow> nat \<Rightarrow> 'd \<Rightarrow> 'd" where
  "status_reads hw com n d = ((\<lambda>d. snd (hw_inb hw d (SERIAL_LINE_STATUS_PORT com))) ^^ n) d"

interpretation transmit: device_poll "transmit_busy hw com" "\<lambda>d. line_status hw com d AND 0x20 = 0"
  "\<lambda>d. snd (hw_inb hw d (SERIAL_LINE_STATUS_PORT com))" for hw :: "'d port_hw" and com
  by unfold_locales
    (simp add: transmit_busy_def serial_is_transmit_fifo_empty_def port_byte_in_def line_status_def case_prod_beta)

interpretation receive: device_poll "receive_empty hw com" "\<lambda>d. line_status hw com d AND 1 = 0"
  "\<lambda>d. snd (hw_inb hw d (SERIAL_LINE_STATUS_PORT com))" for hw :: "'d port_hw" and com
  by unfold_locales
    (simp add: receive_empty_def serial_received_def port_byte_in_def line_status_def case_prod_beta)

text \<open>The number of the first read of the line status register that finds a bit of the mask set.\<close>

definition ready_after :: "'d port_hw \<Rightarrow> u16 \<Rightarrow> u8 \<Rightarrow> 'd \<Rightarrow> nat option" where
  "ready_after hw com msk d =
     (if \<exists>n. line_status hw com (status_reads hw com n d) AND msk \<noteq> 0
      then Some (LEAST n. line_status hw com (status_reads hw com n d) AND msk \<noteq> 0) else None)"

lemma spin_transmit:
  "spin (transmit_busy hw com) s =
    map_option (\<lambda>n. s\<lparr>dev := status_reads hw com (Suc n) (dev s)\<rparr>) (ready_after hw com 0x20 (dev s))"
  unfolding transmit.spin_device ready_after_def status_reads_def by simp

lemma spin_receive:
  "spin (receive_empty hw com) s =
    map_option (\<lambda>n. s\<lparr>dev := status_reads hw com (Suc n) (dev s)\<rparr>) (ready_after hw com 1 (dev s))"
  unfolding receive.spin_device ready_after_def status_reads_def by simp

subsection \<open>Properties\<close>

text \<open>
  C35. \<open>serial_write\<close> returns exactly when some read of the line status register finds the
  transmitter empty: it stops at the first such read and then sends the character, once.
  \<open>serial_read\<close> does the same for the receiver and then reads one character. Otherwise they
  poll forever.
\<close>

theorem serial_write_returns_iff_ready:
  "serial_write hw com c s =
     (case ready_after hw com 0x20 (dev s) of None \<Rightarrow> Inl Hang
      | Some n \<Rightarrow> Inr (s\<lparr>dev := hw_outb hw (status_reads hw com (Suc n) (dev s)) com (of_char c)\<rparr>))
   \<and> serial_read hw com s =
     (case ready_after hw com 1 (dev s) of None \<Rightarrow> Inl Hang
      | Some n \<Rightarrow> let (v, d) = hw_inb hw (status_reads hw com (Suc n) (dev s)) com
                 in Inr (char_of (unat v), s\<lparr>dev := d\<rparr>))"
  by (simp add: serial_write_def serial_read_def spin_transmit spin_receive port_byte_out_def port_byte_in_def
      case_prod_beta Let_def split: option.split)

end
