(* ===== verification/Printfk.thy ===== *)
theory Printfk
  imports Screen Serial
begin

text \<open>
  Formatted output (\<open>src/src/libk/printfk.c\<close>), to the screen or to a serial port. The
  \<^verbatim>\<open>va_list\<close> is the list of the arguments that are still to be read: an integer in its
  64-bit register or stack slot, or a string. Reading a narrower integer takes the low bits
  of the slot, as on x86-64; reading a missing argument, or one of the other kind, is the
  fault \<open>Bad_va_arg\<close>. The local array \<^verbatim>\<open>s_val[20]\<close> is part of the loop's state.
\<close>

definition DEVICE_SCREEN :: int where "DEVICE_SCREEN = 0"

datatype va_slot = VInt u64 | VStr string

fun va_arg_int :: "va_slot list \<Rightarrow> fault + u64 \<times> va_slot list" where
  "va_arg_int (VInt v # rest) = Inr (v, rest)"
| "va_arg_int _ = Inl Bad_va_arg"

fun va_arg_str :: "va_slot list \<Rightarrow> fault + string \<times> va_slot list" where
  "va_arg_str (VStr str # rest) = Inr (str, rest)"
| "va_arg_str _ = Inl Bad_va_arg"

subsection \<open>The two devices\<close>

definition putchark :: "'d port_hw \<Rightarrow> int \<Rightarrow> char \<Rightarrow> ('d, 'z) screen_state_scheme \<Rightarrow>
    's stop + ('d, 'z) screen_state_scheme" where
  "putchark hw device c s =
     (if device > DEVICE_SCREEN then serial_write hw (word_of_int device) c s
      else Inr (screen_write hw c s))"

definition putsk :: "'d port_hw \<Rightarrow> int \<Rightarrow> string \<Rightarrow> ('d, 'z) screen_state_scheme \<Rightarrow>
    's stop + ('d, 'z) screen_state_scheme" where
  "putsk hw device str s =
     (if device > DEVICE_SCREEN then serial_print hw (word_of_int device) str s
      else Inr (screen_print hw str s))"

subsection \<open>The format loop\<close>

fun pad_loop :: "'d port_hw \<Rightarrow> int \<Rightarrow> nat \<Rightarrow> nat \<Rightarrow> ('d, 'z) screen_state_scheme \<Rightarrow>
    's stop + ('d, 'z) screen_state_scheme" where
  "pad_loop hw device leftpad len s =
     (if int leftpad - int len > 0
      then res_bind (putchark hw device (CHR ''0'') s) (pad_loop hw device (leftpad - 1) len)
      else Inr s)"

declare pad_loop.simps [simp del]

text \<open>The \<^verbatim>\<open>switch\<close> on the conversion character.\<close>

definition convert :: "'d port_hw \<Rightarrow> int \<Rightarrow> char \<Rightarrow> u8 \<Rightarrow> va_slot list \<Rightarrow> string \<Rightarrow>
    ('d, 'z) screen_state_scheme \<Rightarrow>
    's stop + va_slot list \<times> string \<times> ('d, 'z) screen_state_scheme" where
  "convert hw device conv leftpad arg s_val s =
     (if conv = CHR ''%'' then
        res_bind (putchark hw device (CHR ''%'') s) (\<lambda>s. Inr (arg, s_val, s))
      else if conv = CHR ''c'' then
        res_bind (checked (va_arg_int arg)) (\<lambda>(v, arg).
        res_bind (putchark hw device (char_of (unat v)) s) (\<lambda>s. Inr (arg, s_val, s)))
      else if conv = CHR ''d'' then
        res_bind (checked (va_arg_int arg)) (\<lambda>(v, arg).
        let i_val = sint (ucast v :: u32) in
        res_bind (checked (itoa i_val s_val 10)) (\<lambda>s_val.
        res_bind (pad_loop hw device (unat leftpad) (unat (of_nat (strlen s_val) :: u8)) s) (\<lambda>s.
        res_bind (putsk hw device s_val s) (\<lambda>s. Inr (arg, s_val, s)))))
      else if conv = CHR ''u'' \<or> conv = CHR ''x'' then
        res_bind (checked (va_arg_int arg)) (\<lambda>(v, arg).
        let u_val = (ucast v :: u32) in
        res_bind (checked (itoa (sint u_val) s_val (if conv = CHR ''x'' then 16 else 10))) (\<lambda>s_val.
        res_bind (putsk hw device s_val s) (\<lambda>s. Inr (arg, s_val, s))))
      else if conv = CHR ''L'' \<or> conv = CHR ''X'' then
        res_bind (checked (va_arg_int arg)) (\<lambda>(l_val, arg).
        res_bind (checked (ulltoa l_val s_val (if conv = CHR ''X'' then 16 else 10))) (\<lambda>s_val.
        res_bind (putsk hw device s_val s) (\<lambda>s. Inr (arg, s_val, s))))
      else if conv = CHR ''s'' then
        res_bind (checked (va_arg_str arg)) (\<lambda>(str, arg).
        res_bind (putsk hw device str s) (\<lambda>s. Inr (arg, s_val, s)))
      else Inr (arg, s_val, s))"

function vprintfk_loop :: "'d port_hw \<Rightarrow> int \<Rightarrow> string \<Rightarrow> nat \<Rightarrow> va_slot list \<Rightarrow> string \<Rightarrow>
    ('d, 'z) screen_state_scheme \<Rightarrow> 's stop + ('d, 'z) screen_state_scheme" where
  "vprintfk_loop hw device format i arg s_val s =
     (if i < strlen format then
        let c = char_at format i in
        if c = CHR ''%'' then
          let digit = (of_char (char_at format (i + 1)) - of_char (CHR ''0'') :: u8);
              j = (if isdigitk (uint digit) then i + 1 else i);
              leftpad = (if isdigitk (uint digit) then digit else 0)
          in res_bind (convert hw device (char_at format (j + 1)) leftpad arg s_val s)
               (\<lambda>(arg, s_val, s). vprintfk_loop hw device format (j + 1 + 1) arg s_val s)
        else res_bind (putchark hw device c s)
               (\<lambda>s. vprintfk_loop hw device format (i + 1) arg s_val s)
      else Inr s)"
  by pat_completeness auto
termination
  by (relation "measure (\<lambda>(hw, device, format, i, arg, s_val, s). strlen format - i)")
    (auto simp: Let_def split: if_splits)

declare vprintfk_loop.simps [simp del]

text \<open>
  \<^verbatim>\<open>s_val\<close> is not initialised in C; every conversion that reads it has written it before, so
  its first contents do not matter.
\<close>

definition vprintfk :: "'d port_hw \<Rightarrow> int \<Rightarrow> string \<Rightarrow> va_slot list \<Rightarrow>
    ('d, 'z) screen_state_scheme \<Rightarrow> 's stop + ('d, 'z) screen_state_scheme" where
  "vprintfk hw device format arg s = vprintfk_loop hw device format 0 arg (replicate 20 NUL) s"

definition printfk :: "'d port_hw \<Rightarrow> string \<Rightarrow> va_slot list \<Rightarrow>
    ('d, 'z) screen_state_scheme \<Rightarrow> 's stop + ('d, 'z) screen_state_scheme" where
  "printfk hw format arg s = vprintfk hw DEVICE_SCREEN format arg s"

definition serial_printf :: "'d port_hw \<Rightarrow> u16 \<Rightarrow> string \<Rightarrow> va_slot list \<Rightarrow>
    ('d, 'z) screen_state_scheme \<Rightarrow> 's stop + ('d, 'z) screen_state_scheme" where
  "serial_printf hw com format arg s = vprintfk hw (uint com) format arg s"

subsection \<open>Character devices\<close>

text \<open>
  What the format loop relies on: printing a string is printing its characters up to the
  terminator, one by one. The screen, the serial ports and the dispatch over both provide it.
\<close>

locale char_device =
  fixes putc :: "char \<Rightarrow> 's \<Rightarrow> 'e + 's"
    and puts :: "string \<Rightarrow> 's \<Rightarrow> 'e + 's"
  assumes puts_chars: "puts str s = fold_res putc (cstr str) s"
begin

lemma puts_plain: "NUL \<notin> set t \<Longrightarrow> puts t s = fold_res putc t s"
  by (simp add: puts_chars)

lemma puts_buffer: "NUL \<notin> set t \<Longrightarrow> puts (t @ NUL # rest) s = fold_res putc t s"
  by (simp add: puts_chars)

lemma puts_after: "res_bind (fold_res putc t s) (puts u) = fold_res putc (t @ cstr u) s"
  by (simp add: puts_chars [abs_def] fold_res_append)

end

interpretation screen: char_device "\<lambda>c s. Inr (screen_write hw c s)"
  "\<lambda>str s. Inr (screen_print hw str s)" for hw :: "'d port_hw"
  by unfold_locales (simp add: screen_print_fold fold_res_Inr)

interpretation uart: char_device "serial_write hw com" "serial_print hw com"
  for hw :: "'d port_hw" and com
  by unfold_locales (rule serial_print_fold)

lemma putchark_serial:
  "device > DEVICE_SCREEN \<Longrightarrow> putchark hw device = serial_write hw (word_of_int device)"
  by (intro ext) (simp add: putchark_def)

lemma putchark_screen:
  "\<not> device > DEVICE_SCREEN \<Longrightarrow> putchark hw device = (\<lambda>c s. Inr (screen_write hw c s))"
  by (intro ext) (simp add: putchark_def)

interpretation out: char_device "putchark hw device" "putsk hw device"
  for hw :: "'d port_hw" and device
  by unfold_locales
    (cases "device > DEVICE_SCREEN";
      simp add: putsk_def putchark_serial putchark_screen serial_print_fold screen_print_fold
        fold_res_Inr)

subsection \<open>What a format denotes\<close>

text \<open>
  The text a conversion stands for, and the arguments it leaves. \<open>None\<close> where the code
  does not print the value of its argument: the wrong arguments, the most negative
  \<open>int\<close>, unsigned values the conversion takes for negative ones, and decimal texts longer
  than the buffer.
\<close>

definition conv_text :: "char \<Rightarrow> nat \<Rightarrow> va_slot list \<Rightarrow> (string \<times> va_slot list) option" where
  "conv_text conv pad arg =
     (if conv = CHR ''%'' then Some (''%'', arg)
      else if conv = CHR ''s'' then
        (case arg of VStr str # rest \<Rightarrow> Some (cstr str, rest) | _ \<Rightarrow> None)
      else if conv \<in> set ''cduxLX'' then
        (case arg of VInt v # rest \<Rightarrow>
           let n = sint (ucast v :: u32) in
           if conv = CHR ''c'' then Some ([char_of (unat v)], rest)
           else if conv = CHR ''d'' \<and> n \<noteq> INT_MIN then
             Some (replicate (pad - length (decimal_text n)) (CHR ''0'') @ decimal_text n, rest)
           else if conv = CHR ''u'' \<and> 0 \<le> n then Some (numeral_of 10 (nat n), rest)
           else if conv = CHR ''x'' \<and> 0 \<le> n then Some (numeral_of 16 (nat n), rest)
           else if conv = CHR ''L'' \<and> 0 \<le> n \<and> uint v < 10 ^ 19 then
             Some (numeral_of 10 (unat v), rest)
           else if conv = CHR ''X'' then Some (numeral_of 16 (unat v), rest)
           else None
         | _ \<Rightarrow> None)
      else Some ([], arg))"

definition is_digit :: "char \<Rightarrow> bool" where
  "is_digit c \<longleftrightarrow> c \<in> set ''0123456789''"

fun render :: "string \<Rightarrow> va_slot list \<Rightarrow> string option" where
  "render [] arg = Some []"
| "render (c # cs) arg =
     (if c \<noteq> CHR ''%'' then map_option ((#) c) (render cs arg)
      else case cs of [] \<Rightarrow> Some []
        | d # ds \<Rightarrow>
          if is_digit d then
            (case ds of [] \<Rightarrow> Some []
             | conv # rest \<Rightarrow>
               (case conv_text conv (char_digit d) arg of None \<Rightarrow> None
                | Some (t, arg') \<Rightarrow> map_option ((@) t) (render rest arg')))
          else
            (case conv_text d 0 arg of None \<Rightarrow> None
             | Some (t, arg') \<Rightarrow> map_option ((@) t) (render ds arg')))"

lemma render_literal:
  "CHR ''%'' \<notin> set xs \<Longrightarrow> render (xs @ cs) arg = map_option ((@) xs) (render cs arg)"
  by (cases "render cs arg"; induction xs) auto

subsection \<open>One conversion\<close>

lemma pad_loop_eq:
  fixes s :: "('d, 'z) screen_state_scheme"
  shows "(pad_loop hw device n len s :: 's stop + ('d, 'z) screen_state_scheme) =
    fold_res (putchark hw device) (replicate (n - len) (CHR ''0'')) s"
proof (induction hw device n len s rule: pad_loop.induct)
  case (1 hw device n len s)
  show ?case
  proof (cases "int n - int len > 0")
    case True
    then have "n - len = Suc (n - 1 - len)" by simp
    moreover have "res_bind r (pad_loop hw device (n - 1) len) =
        res_bind r (fold_res (putchark hw device) (replicate (n - 1 - len) (CHR ''0'')))"
      for r :: "'s stop + ('d, 'z) screen_state_scheme"
      using "1.IH" [OF True] by (cases r) auto
    ultimately show ?thesis using True by (simp add: pad_loop.simps [of hw device n len s])
  next
    case False
    then show ?thesis by (simp add: pad_loop.simps [of hw device n len s])
  qed
qed

text \<open>
  A conversion that leaves text \<open>t\<close> in its buffer prints \<open>t\<close>.
\<close>

lemma putsk_buffer_then:
  "NUL \<notin> set t \<Longrightarrow> res_bind (putsk hw device (t @ NUL # rest) s) f =
    res_bind (fold_res (putchark hw device) t s) f"
  by (simp add: out.puts_buffer)

lemma itoa_sint:
  fixes v :: u32
  assumes "length buf = 20"
  shows "sint v \<noteq> INT_MIN \<Longrightarrow>
      itoa (sint v) buf 10 = Inr (decimal_text (sint v) @ NUL # drop (Suc (length (decimal_text (sint v)))) buf)"
    and "0 \<le> sint v \<Longrightarrow> itoa (sint v) buf 16 =
      Inr (numeral_of 16 (nat (sint v)) @ NUL # drop (Suc (length (numeral_of 16 (nat (sint v))))) buf)"
proof -
  have range: "INT_MIN \<le> sint v" "sint v < 2 ^ 31"
    using sint_greater_eq [of v] sint_less [of v] by (simp_all add: INT_MIN_def)
  then show "sint v \<noteq> INT_MIN \<Longrightarrow>
      itoa (sint v) buf 10 = Inr (decimal_text (sint v) @ NUL # drop (Suc (length (decimal_text (sint v)))) buf)"
    using assms by (intro itoa_decimal) simp_all
  assume nonneg: "0 \<le> sint v"
  have "length (lsd 16 (nat (sint v))) \<le> 8"
    using range nonneg length_lsd_le [of 16 "nat (sint v)" 7] by simp
  with nonneg assms show "itoa (sint v) buf 16 =
      Inr (numeral_of 16 (nat (sint v)) @ NUL # drop (Suc (length (numeral_of 16 (nat (sint v))))) buf)"
    using itoa_positive [of "sint v" 16 buf] put_zero [of buf]
    by (cases "sint v = 0") (simp_all add: itoa_def flip: numeral_2_eq_2)
qed


lemma length_decimal_sint:
  assumes "sint (v :: u32) \<noteq> INT_MIN" shows "length (decimal_text (sint v)) \<le> 11"
proof -
  have "nat \<bar>sint v\<bar> < 2 ^ 31"
    using assms sint_greater_eq [of v] sint_less [of v] by (auto simp: INT_MIN_def)
  then have "length (numeral_of 10 (nat \<bar>sint v\<bar>)) \<le> 10" by (rule length_decimal_31)
  then show ?thesis by (auto simp: decimal_text_def simp del: length_numeral_of)
qed

lemma length_hex_sint:
  assumes "0 \<le> sint (v :: u32)" shows "length (numeral_of 16 (nat (sint v))) \<le> 8"
  using assms sint_less [of v] length_lsd_le [of 16 "nat (sint v)" 7] by simp

lemma ulltoa_text:
  assumes "length buf = 20"
  shows "0 \<le> sint (ucast v :: u32) \<Longrightarrow> unat v < 10 ^ 19 \<Longrightarrow> ulltoa v buf 10 =
      Inr (numeral_of 10 (unat v) @ NUL # drop (Suc (length (numeral_of 10 (unat v)))) buf)"
    and "ulltoa v buf 16 =
      Inr (numeral_of 16 (unat v) @ NUL # drop (Suc (length (numeral_of 16 (unat v)))) buf)"
  using assms ulltoa_unsigned [of 10 v buf] ulltoa_unsigned [of 16 v buf] length_hex_64 [of v]
    length_lsd_le [of 10 "unat v" 18]
  by simp_all

lemma length_after_text:
  "length t \<le> 19 \<Longrightarrow> length buf = 20 \<Longrightarrow> length (t @ NUL # drop (Suc (length t)) buf) = 20"
  by simp

lemma convert_signed:
  assumes n: "sint (ucast v :: u32) \<noteq> INT_MIN" and "length s_val = 20"
  shows "\<exists>s_val'. length s_val' = 20 \<and> convert hw device (CHR ''d'') leftpad (VInt v # arg) s_val s =
    res_bind (fold_res (putchark hw device)
      (replicate (unat leftpad - length (decimal_text (sint (ucast v :: u32)))) (CHR ''0'') @
        decimal_text (sint (ucast v :: u32))) s) (\<lambda>s. Inr (arg, s_val', s))"
proof -
  let ?t = "decimal_text (sint (ucast v :: u32))"
  have len: "length ?t \<le> 11" by (rule length_decimal_sint) (rule n)
  have "unat (of_nat (strlen (?t @ NUL # drop (Suc (length ?t)) s_val)) :: u8) = length ?t"
    using len by (simp add: strlen_def unat_of_nat)
  with len itoa_sint(1) [OF assms(2) n] show ?thesis
    by (intro exI [of _ "?t @ NUL # drop (Suc (length ?t)) s_val"])
      (simp add: convert_def pad_loop_eq putsk_buffer_then fold_res_append res_bind_assoc assms(2))
qed

lemma convert_unsigned:
  assumes "0 \<le> sint (ucast v :: u32)" and "length s_val = 20" and "conv = CHR ''u'' \<or> conv = CHR ''x''"
  shows "\<exists>s_val'. length s_val' = 20 \<and> convert hw device conv leftpad (VInt v # arg) s_val s =
    res_bind (fold_res (putchark hw device)
      (numeral_of (if conv = CHR ''x'' then 16 else 10) (nat (sint (ucast v :: u32)))) s) (\<lambda>s. Inr (arg, s_val', s))"
proof -
  let ?n = "sint (ucast v :: u32)"
  define t where "t = numeral_of (if conv = CHR ''x'' then 16 else 10) (nat ?n)"
  have d: "decimal_text ?n = numeral_of 10 (nat ?n)" and nz: "?n \<noteq> INT_MIN"
    using assms(1) by (simp_all add: decimal_text_def INT_MIN_def)
  have len: "length t \<le> 11" and nul: "NUL \<notin> set t"
    using length_decimal_sint [OF nz] length_hex_sint [OF assms(1)] by (simp_all add: t_def d)
  have itoa: "itoa ?n s_val (if conv = CHR ''x'' then 16 else 10) = Inr (t @ NUL # drop (Suc (length t)) s_val)"
    using itoa_sint(1) [OF assms(2) nz] itoa_sint(2) [OF assms(2,1)] by (simp add: t_def d)
  show ?thesis
    unfolding t_def [symmetric] using assms(2,3) len nul itoa
    by (intro exI [of _ "t @ NUL # drop (Suc (length t)) s_val"]) (auto simp: convert_def putsk_buffer_then)
qed

lemma convert_long:
  assumes "conv = CHR ''L'' \<and> 0 \<le> sint (ucast v :: u32) \<and> unat v < 10 ^ 19 \<or> conv = CHR ''X''"
    and "length s_val = 20"
  shows "\<exists>s_val'. length s_val' = 20 \<and> convert hw device conv leftpad (VInt v # arg) s_val s =
    res_bind (fold_res (putchark hw device)
      (numeral_of (if conv = CHR ''X'' then 16 else 10) (unat v)) s) (\<lambda>s. Inr (arg, s_val', s))"
proof -
  define t where "t = numeral_of (if conv = CHR ''X'' then 16 else 10) (unat v)"
  have len: "length t \<le> 19" and nul: "NUL \<notin> set t"
    using assms(1) length_lsd_le [of 10 "unat v" 18] length_hex_64 [of v] by (auto simp: t_def)
  have ulltoa: "ulltoa v s_val (if conv = CHR ''X'' then 16 else 10) = Inr (t @ NUL # drop (Suc (length t)) s_val)"
    using assms(1) ulltoa_text [OF assms(2), of v] by (auto simp: t_def)
  show ?thesis
    unfolding t_def [symmetric] using assms len nul ulltoa
    by (intro exI [of _ "t @ NUL # drop (Suc (length t)) s_val"]) (auto simp: convert_def putsk_buffer_then)
qed

lemma convert_text:
  assumes "conv_text conv (unat leftpad) arg = Some (t, arg')" and "length s_val = 20"
  shows "\<exists>s_val'. length s_val' = 20 \<and> convert hw device conv leftpad arg s_val s =
    res_bind (fold_res (putchark hw device) t s) (\<lambda>s. Inr (arg', s_val', s))"
proof (cases "conv \<in> set ''cduxLX''")
  case False
  with assms show ?thesis
    by (intro exI [of _ s_val])
      (auto simp: conv_text_def convert_def out.puts_chars split: if_splits list.splits va_slot.splits)
next
  case True
  then obtain v where arg: "arg = VInt v # arg'"
    using assms(1) by (auto simp: conv_text_def Let_def split: if_splits list.splits va_slot.splits)
  from True consider "conv = CHR ''c''" | "conv = CHR ''d''" | "conv = CHR ''u'' \<or> conv = CHR ''x''"
    | "conv = CHR ''L'' \<or> conv = CHR ''X''" by auto
  then show ?thesis
  proof cases
    case 1
    with assms arg show ?thesis by (intro exI [of _ s_val]) (auto simp: conv_text_def convert_def)
  next
    case 2
    with assms(1) arg show ?thesis
      using convert_signed [OF _ assms(2)] by (auto simp: conv_text_def Let_def split: if_splits)
  next
    case 3
    with assms(1) arg have n: "0 \<le> sint (ucast v :: u32)"
      and t: "t = numeral_of (if conv = CHR ''x'' then 16 else 10) (nat (sint (ucast v :: u32)))"
      by (auto simp: conv_text_def Let_def split: if_splits)
    show ?thesis unfolding arg t by (rule convert_unsigned [OF n assms(2) 3])
  next
    case 4
    have "conv = CHR ''L'' \<and> 0 \<le> sint (ucast v :: u32) \<and> uint v < 10 ^ 19 \<or> conv = CHR ''X''"
      and t: "t = numeral_of (if conv = CHR ''X'' then 16 else 10) (unat v)"
      using assms(1) arg 4 by (auto simp: conv_text_def Let_def split: if_splits)
    moreover have "uint v < 10 ^ 19 \<longleftrightarrow> unat v < 10 ^ 19"
      using of_nat_less_iff [of "unat v" "10 ^ 19", where ?'a = int] by simp
    ultimately have "conv = CHR ''L'' \<and> 0 \<le> sint (ucast v :: u32) \<and> unat v < 10 ^ 19 \<or> conv = CHR ''X''" by simp
    then show ?thesis unfolding arg t by (rule convert_long [OF _ assms(2)])
  qed
qed

subsection \<open>The whole format\<close>

lemma is_digit_iff: "is_digit c \<longleftrightarrow> of_char c \<in> {48..57 :: nat}"
proof -
  have digits: "''0123456789'' = map char_of [48..<58 :: nat]" by code_simp
  have "is_digit c \<longleftrightarrow> c \<in> char_of ` {48..<58 :: nat}"
    unfolding is_digit_def digits set_map set_upt ..
  also have "\<dots> \<longleftrightarrow> of_char c \<in> {48..57 :: nat}"
  proof
    assume "c \<in> char_of ` {48..<58 :: nat}"
    then show "of_char c \<in> {48..57 :: nat}" by auto
  next
    assume "of_char c \<in> {48..57 :: nat}"
    then have "of_char c \<in> {48..<58 :: nat}" by simp
    then have "char_of (of_char c :: nat) \<in> char_of ` {48..<58 :: nat}" by (rule imageI)
    then show "c \<in> char_of ` {48..<58 :: nat}" by simp
  qed
  finally show ?thesis .
qed

lemma isdigitk_char:
  "isdigitk (uint (of_char c - of_char (CHR ''0'') :: u8)) \<longleftrightarrow> is_digit c"
  "is_digit c \<Longrightarrow> unat (of_char c - of_char (CHR ''0'') :: u8) = char_digit c"
proof -
  let ?n = "of_char c :: nat"
  have n: "?n < 256" by simp
  have "(of_char c :: u8) = of_nat ?n" by (simp add: of_nat_of_char)
  then have w: "unat (of_char c :: u8) = ?n" using n by (simp only: unat_of_nat) simp
  have "unat (of_char c - of_char (CHR ''0'') :: u8) = (if 48 \<le> ?n then ?n - 48 else ?n + 208)"
    using unat_sub_if_size [of "of_char c" "48 :: u8"] w n by (simp add: word_size)
  then show "isdigitk (uint (of_char c - of_char (CHR ''0'') :: u8)) \<longleftrightarrow> is_digit c"
    and "is_digit c \<Longrightarrow> unat (of_char c - of_char (CHR ''0'') :: u8) = char_digit c"
    unfolding isdigitk_def is_digit_iff uint_nat by (auto simp: char_digit_def)
qed

lemma conv_text_NUL: "conv_text NUL pad arg = Some ([], arg)"
  by (simp add: conv_text_def)

lemma render_percent:
  assumes "i < length format" and "format ! i = CHR ''%''"
  shows "render (drop i format) arg =
    (let d = char_at format (i + 1); j = (if is_digit d then i + 1 else i);
         pad = (if is_digit d then char_digit d else 0)
     in case conv_text (char_at format (j + 1)) pad arg of None \<Rightarrow> None
        | Some (u, arg') \<Rightarrow> map_option ((@) u) (render (drop (j + 2) format) arg'))"
proof -
  have nul: "\<not> is_digit NUL" by (simp add: is_digit_def)
  have c: "drop i format = CHR ''%'' # drop (i + 1) format"
    using assms by (metis Cons_nth_drop_Suc Suc_eq_plus1)
  consider "length format = i + 1" | "length format = i + 2" | "i + 2 < length format"
    using assms(1) by linarith
  then show ?thesis
  proof cases
    case 1
    then show ?thesis by (simp add: c char_at_def nul conv_text_NUL)
  next
    case 2
    then have "drop (i + 1) format = [format ! (i + 1)]"
      by (simp add: Cons_nth_drop_Suc [symmetric])
    then show ?thesis using 2 by (simp add: c char_at_def conv_text_NUL split: option.split)
  next
    case 3
    then have "drop (i + 1) format = format ! (i + 1) # format ! (i + 2) # drop (i + 3) format"
      by (simp add: Cons_nth_drop_Suc [symmetric] eval_nat_numeral)
    moreover have "drop (i + 2) format = format ! (i + 2) # drop (i + 3) format"
      using 3 by (simp add: Cons_nth_drop_Suc [symmetric] eval_nat_numeral)
    ultimately show ?thesis using 3 by (simp add: c char_at_def Let_def eval_nat_numeral split: option.split)
  qed
qed

text \<open>One round of the loop at a conversion: its text goes out, and the loop goes on behind it.\<close>

lemma vprintfk_loop_percent:
  fixes s :: "('d, 'z) screen_state_scheme"
  assumes i: "i < length format" "format ! i = CHR ''%''" and "NUL \<notin> set format"
    and "render (drop i format) arg = Some t" and "length s_val = 20"
  obtains j u arg' w s_val' where "i < j" and "render (drop j format) arg' = Some w" and "t = u @ w"
    and "length s_val' = 20"
    and "(vprintfk_loop hw device format i arg s_val s :: 's stop + _) =
      res_bind (fold_res (putchark hw device) u s) (vprintfk_loop hw device format j arg' s_val')"
proof -
  define d where "d = char_at format (i + 1)"
  define j where "j = (if is_digit d then i + 1 else i)"
  define lp where "lp = (if is_digit d then of_char d - of_char (CHR ''0'') else 0 :: u8)"
  have pad: "(if is_digit d then char_digit d else 0) = unat lp"
    using isdigitk_char(2) [of d] by (simp add: lp_def)
  have "render (drop i format) arg =
      (case conv_text (char_at format (j + 1)) (unat lp) arg of None \<Rightarrow> None
       | Some (u, arg') \<Rightarrow> map_option ((@) u) (render (drop (j + 2) format) arg'))"
    using render_percent [OF i, of arg] unfolding Let_def d_def [symmetric] j_def [symmetric] pad .
  with assms(4) obtain u arg' w where
    conv: "conv_text (char_at format (j + 1)) (unat lp) arg = Some (u, arg')" and
    w: "render (drop (j + 2) format) arg' = Some w" and t: "t = u @ w"
    by (auto split: option.splits)
  obtain s_val' where s_val': "length s_val' = 20" and
    c: "(convert hw device (char_at format (j + 1)) lp arg s_val s :: 's stop + _) =
      res_bind (fold_res (putchark hw device) u s) (\<lambda>s. Inr (arg', s_val', s))"
    using convert_text [OF conv assms(5)] by blast
  have "(vprintfk_loop hw device format i arg s_val s :: 's stop + _) =
      res_bind (convert hw device (char_at format (j + 1)) lp arg s_val s)
        (\<lambda>(arg, s_val, s). vprintfk_loop hw device format (j + 2) arg s_val s)"
    using i assms(3) isdigitk_char(1) [of d] d_def
    by (simp add: vprintfk_loop.simps [of hw device format i] char_at_def [of _ i] Let_def j_def lp_def)
  also have "\<dots> = res_bind (fold_res (putchark hw device) u s) (vprintfk_loop hw device format (j + 2) arg' s_val')"
    unfolding c res_bind_assoc res_bind_simps prod.case ..
  finally show thesis by (intro that [OF _ w t s_val']) (simp_all add: j_def)
qed

lemma vprintfk_loop_render:
  fixes s :: "('d, 'z) screen_state_scheme"
  assumes "render (drop i format) arg = Some t" and "NUL \<notin> set format" and "length s_val = 20"
  shows "(vprintfk_loop hw device format i arg s_val s :: 's stop + ('d, 'z) screen_state_scheme) =
    fold_res (putchark hw device) t s"
  using assms(1,3)
proof (induction "length format - i" arbitrary: i arg s_val s t rule: less_induct)
  case less
  note unfold = vprintfk_loop.simps [of hw device format i arg s_val s]
  consider "length format \<le> i" | "i < length format" "format ! i \<noteq> CHR ''%''"
    | "i < length format" "format ! i = CHR ''%''" by linarith
  then show ?case
  proof cases
    case 1
    with less.prems assms(2) show ?thesis by (simp add: unfold)
  next
    case 2
    have c: "drop i format = format ! i # drop (i + 1) format"
      using 2 by (metis Cons_nth_drop_Suc Suc_eq_plus1)
    with 2 less.prems obtain u where u: "render (drop (i + 1) format) arg = Some u"
      and t: "t = format ! i # u" by auto
    have "(vprintfk_loop hw device format (i + 1) arg s_val r :: 's stop + _) =
        fold_res (putchark hw device) u r" for r :: "('d, 'z) screen_state_scheme"
      using 2 by (intro less.hyps u less.prems(2)) simp
    with 2 assms(2) show ?thesis
      by (simp add: unfold char_at_def t Let_def res_bind_def split: sum.split)
  next
    case 3
    obtain j u arg' w s_val' where j: "i < j" "render (drop j format) arg' = Some w" "t = u @ w" "length s_val' = 20"
      and loop: "(vprintfk_loop hw device format i arg s_val s :: 's stop + _) =
        res_bind (fold_res (putchark hw device) u s) (vprintfk_loop hw device format j arg' s_val')"
      by (rule vprintfk_loop_percent [OF 3 assms(2) less.prems])
    have "(vprintfk_loop hw device format j arg' s_val' r :: 's stop + _) = fold_res (putchark hw device) w r"
      for r :: "('d, 'z) screen_state_scheme"
      using 3 j by (intro less.hyps) simp_all
    then have "(vprintfk_loop hw device format j arg' s_val' :: ('d, 'z) screen_state_scheme \<Rightarrow> 's stop + _) =
        fold_res (putchark hw device) w" by (rule ext)
    then show ?thesis by (simp add: loop j(3) fold_res_append)
  qed
qed

lemma vprintfk_screen_text:
  assumes "render format arg = Some t" and "NUL \<notin> set format"
  shows "vprintfk hw DEVICE_SCREEN format arg s = Inr (fold (screen_write hw) t s)"
  using vprintfk_loop_render [of 0 format arg t "replicate 20 NUL" hw DEVICE_SCREEN s] assms
  by (simp add: vprintfk_def putchark_screen fold_res_Inr)

lemma printfk_text:
  assumes "render format arg = Some t" and "NUL \<notin> set format"
  shows "printfk hw format arg s = Inr (fold (screen_write hw) t s)"
  unfolding printfk_def by (rule vprintfk_screen_text [OF assms])

subsection \<open>Conversions after literal text\<close>

lemma render_hex:
  "CHR ''%'' \<notin> set xs \<Longrightarrow> render (xs @ CHR ''%'' # CHR ''X'' # cs) (VInt v # arg) =
    map_option (\<lambda>t. xs @ numeral_of 16 (unat v) @ t) (render cs arg)"
  by (subst render_literal) (simp_all add: conv_text_def is_digit_def Let_def option.map_comp comp_def)

lemma render_dec:
  assumes "CHR ''%'' \<notin> set xs" and "unat v < 2 ^ 31"
  shows "render (xs @ CHR ''%'' # CHR ''d'' # cs) (VInt v # arg) =
    map_option (\<lambda>t. xs @ numeral_of 10 (unat v) @ t) (render cs arg)"
proof -
  have "- (2 ^ 31) < int (unat v)" by (rule less_le_trans [of _ 0]) simp_all
  then have "sint (ucast v :: u32) \<noteq> INT_MIN"
    unfolding sint_ucast_small [OF assms(2)] INT_MIN_def
    by (rule not_sym [OF less_imp_neq])
  with sint_ucast_small [OF assms(2)] assms(1) show ?thesis
    by (subst render_literal) (simp_all add: conv_text_def is_digit_def Let_def option.map_comp
        comp_def decimal_text_def)
qed

lemma render_str:
  "CHR ''%'' \<notin> set xs \<Longrightarrow> render (xs @ CHR ''%'' # CHR ''s'' # cs) (VStr str # arg) =
    map_option (\<lambda>t. xs @ cstr str @ t) (render cs arg)"
  by (subst render_literal) (simp_all add: conv_text_def is_digit_def Let_def option.map_comp comp_def)

text \<open>
  A hexadecimal \<^verbatim>\<open>int\<close>. A value with bit 31 set is taken for a negative one, and of that only the last
  digit is printed, counted down from \<open>0\<close>.
\<close>

definition hex_int_text :: "u64 \<Rightarrow> string" where
  "hex_int_text v = (let n = sint (ucast v :: u32) in
     if 0 \<le> n then numeral_of 16 (nat n) else [char_of (48 - nat (- n) mod 16)])"

lemma char_below_0: "char_of (48 - k mod 16) \<noteq> (NUL :: char)" for k :: nat
proof
  assume "char_of (48 - k mod 16) = NUL"
  then have "of_char (char_of (48 - k mod 16) :: char) = (0 :: nat)" by simp
  then show False using mod_less_divisor [of 16 k] by simp
qed

lemma convert_hex_int:
  assumes "length s_val = 20"
  shows "\<exists>s_val'. convert hw device (CHR ''x'') leftpad (VInt v # arg) s_val s =
    res_bind (fold_res (putchark hw device) (hex_int_text v) s) (\<lambda>s. Inr (arg, s_val', s))"
proof (cases "0 \<le> sint (ucast v :: u32)")
  case True
  then show ?thesis using convert_unsigned [OF True assms, of "CHR ''x''" hw device leftpad arg s] by (auto simp: hex_int_text_def)
next
  case False
  let ?c = "char_of (48 - nat (- sint (ucast v :: u32)) mod 16) :: char"
  have "itoa (sint (ucast v :: u32)) s_val 16 = Inr ([?c] @ NUL # drop 2 s_val)"
    using False assms itoa_hex_negative [of "sint (ucast v :: u32)" s_val] by simp
  then have "convert hw device (CHR ''x'') leftpad (VInt v # arg) s_val s =
      res_bind (putsk hw device ([?c] @ NUL # drop 2 s_val) s) (\<lambda>s. Inr (arg, [?c] @ NUL # drop 2 s_val, s))"
    by (simp add: convert_def)
  also have "\<dots> = res_bind (fold_res (putchark hw device) [?c] s) (\<lambda>s. Inr (arg, [?c] @ NUL # drop 2 s_val, s))"
    by (rule putsk_buffer_then) (use char_below_0 [THEN not_sym] in simp)
  finally show ?thesis using False unfolding hex_int_text_def Let_def by auto
qed

lemma vprintfk_loop_literal:
  fixes s :: "('d, 'z) screen_state_scheme"
  assumes "CHR ''%'' \<notin> set xs" and "NUL \<notin> set (pre @ xs @ rest)"
  shows "(vprintfk_loop hw DEVICE_SCREEN (pre @ xs @ rest) (length pre) arg s_val s :: 's stop + _) =
    vprintfk_loop hw DEVICE_SCREEN (pre @ xs @ rest) (length pre + length xs) arg s_val (fold (screen_write hw) xs s)"
  using assms
proof (induction xs arbitrary: pre s)
  case (Cons c xs)
  have "(vprintfk_loop hw DEVICE_SCREEN (pre @ (c # xs) @ rest) (length pre) arg s_val s :: 's stop + _) =
      vprintfk_loop hw DEVICE_SCREEN (pre @ (c # xs) @ rest) (length pre + 1) arg s_val (screen_write hw c s)"
    using Cons.prems not_sym by (subst vprintfk_loop.simps) (auto simp: char_at_def putchark_screen)
  with Cons.IH [of "pre @ [c]" "screen_write hw c s"] Cons.prems show ?case by simp
qed simp

lemma printfk_hex_int:
  fixes s :: "('d, 'z) screen_state_scheme"
  assumes "CHR ''%'' \<notin> set xs" and "NUL \<notin> set xs"
  shows "(printfk hw (xs @ ''%x'') [VInt v] s :: 's stop + _) = Inr (fold (screen_write hw) (xs @ hex_int_text v) s)"
proof -
  let ?buf = "replicate 20 NUL" and ?s = "fold (screen_write hw) xs s" and ?f = "xs @ ''%x''"
  have nul: "NUL \<notin> set ?f" using assms(2) by simp
  have dig: "\<not> isdigitk (uint (of_char (CHR ''x'') - of_char (CHR ''0'') :: u8))"
    unfolding isdigitk_char by (simp add: is_digit_def)
  have fin: "(vprintfk_loop hw DEVICE_SCREEN ?f (length xs + 1 + 1) arg s_val t :: 's stop + _) = Inr t"
    for arg s_val and t :: "('d, 'z) screen_state_scheme"
    using nul by (subst vprintfk_loop.simps) simp
  obtain s_val' where conv: "(convert hw DEVICE_SCREEN (CHR ''x'') 0 [VInt v] ?buf ?s :: 's stop + _) =
      res_bind (fold_res (putchark hw DEVICE_SCREEN) (hex_int_text v) ?s) (\<lambda>s. Inr ([], s_val', s))"
    using convert_hex_int [of ?buf hw DEVICE_SCREEN 0 v "[]" ?s] by auto
  have "(vprintfk_loop hw DEVICE_SCREEN ?f (length xs) [VInt v] ?buf ?s :: 's stop + _) =
      res_bind (convert hw DEVICE_SCREEN (CHR ''x'') 0 [VInt v] ?buf ?s)
        (\<lambda>(arg, s_val, s). vprintfk_loop hw DEVICE_SCREEN ?f (length xs + 1 + 1) arg s_val s)"
    using nul dig by (subst vprintfk_loop.simps) (simp add: char_at_def nth_append)
  also have "\<dots> = Inr (fold (screen_write hw) (hex_int_text v) ?s)"
    by (simp add: conv fin [simplified] putchark_screen fold_res_Inr)
  finally show ?thesis
    using vprintfk_loop_literal [of xs "[]" "''%x''" hw "[VInt v]" ?buf s, where ?'s = 's] assms
    by (simp add: printfk_def vprintfk_def)
qed

subsection \<open>Properties\<close>

text \<open>
  C13. \<open>vprintfk\<close> prints exactly the text its format denotes, character by character and in
  order, on whichever device it was given: literal characters, \<^verbatim>\<open>%%\<close>, \<^verbatim>\<open>%c\<close>, \<^verbatim>\<open>%s\<close>, signed
  decimals with zero padding, unsigned decimals and hexadecimals, for every format and
  arguments for which that text is defined.
\<close>

theorem vprintfk_renders:
  assumes "render format arg = Some t" and "NUL \<notin> set format"
  shows "vprintfk hw device format arg s = fold_res (putchark hw device) t s"
  using vprintfk_loop_render [of 0 format arg t "replicate 20 NUL"] assms by (simp add: vprintfk_def)

theorem vprintfk_renders_witness:
  "vprintfk (log_hw (\<lambda>_. 0x20)) 0x3F8 ''%2d/%2d 0x%X %s%%'' [VInt 7, VInt 31, VInt 0xB8, VStr ''ok'']
     \<lparr>dev = [], mem = (\<lambda>_. 0), screen_scheme = 7, framebuffer = 0xB8000, screen_col = 0, screen_row = 0\<rparr>
   = fold_res (putchark (log_hw (\<lambda>_. 0x20)) 0x3F8) ''07/31 0xb8 ok%''
     \<lparr>dev = [], mem = (\<lambda>_. 0), screen_scheme = 7, framebuffer = 0xB8000, screen_col = 0, screen_row = 0\<rparr>"
  by (rule vprintfk_renders) code_simp+

end
