(* ===== verification/Idt.thy ===== *)
theory Idt
  imports Printfk
begin

text \<open>
  The interrupt descriptor table (\<open>src/src/core/idt.c\<close>, \<open>idt.h\<close>). Bit fields are words of
  their declared width, so an assignment keeps the low bits as the C bit field does. What the
  build decides is a parameter, the record \<open>build\<close>: where the linker puts the table and the
  assembly entry points, the line number the preprocessor gives the \<open>PANIC\<close> of \<open>isr_handler\<close>
  (a macro call over several lines), and the date and time of the compilation.
\<close>

definition IDT_ENTRIES :: nat where "IDT_ENTRIES = 256"

record opts_t =
  stack_OK :: "3 word"
  ZEROS :: "5 word"
  gate_type :: "1 word"
  ONES :: "3 word"
  ZERO :: "1 word"
  DPL :: "2 word"
  present :: "1 word"

record idt_gate =
  ptr_low :: u16
  selector :: u16
  opts :: opts_t
  ptr_mid :: u16
  ptr_high :: u32
  reserved_1 :: u8
  reserved_type :: "5 word"
  reserved_2 :: "19 word"

record idt_register =
  length_field :: u16
  base_field :: u64

record build =
  addr_idt :: u64
  addr_isr :: "nat \<Rightarrow> u64"
  addr_irq :: "nat \<Rightarrow> u64"
  isr_panic_line :: u64
  build_date :: string
  build_time :: string

text \<open>
  The globals \<open>idt\<close> and \<open>idt_reg\<close>, and the two pieces of processor state the kernel sets: the
  descriptor table register that \<^verbatim>\<open>lidt\<close> loads and the interrupt flag of \<^verbatim>\<open>sti\<close> and \<^verbatim>\<open>cli\<close>.
\<close>

record 'd idt_state = "'d screen_state" +
  idt :: "idt_gate list"
  idt_reg :: idt_register
  cpu_idtr :: "idt_register option"
  cpu_if :: bool

subsection \<open>Operations\<close>

definition sizeof_idt_gate :: nat where "sizeof_idt_gate = 16"

definition set_idt_gate :: "u16 \<Rightarrow> u64 \<Rightarrow> ('d, 'z) idt_state_scheme \<Rightarrow>
    's stop + ('d, 'z) idt_state_scheme" where
  "set_idt_gate n handler s =
     (if unat n < length (idt s)
      then let g = idt s ! unat n;
               g = g\<lparr>selector := 0x08\<rparr>;
               g = g\<lparr>ptr_low := ucast handler\<rparr>;
               g = g\<lparr>ptr_mid := ucast (drop_bit 16 handler)\<rparr>;
               g = g\<lparr>ptr_high := ucast (drop_bit 32 handler)\<rparr>;
               g = g\<lparr>opts := (opts g)\<lparr>stack_OK := 0\<rparr>\<rparr>;
               g = g\<lparr>opts := (opts g)\<lparr>present := 1\<rparr>\<rparr>;
               g = g\<lparr>opts := (opts g)\<lparr>DPL := 3\<rparr>\<rparr>;
               g = g\<lparr>opts := (opts g)\<lparr>gate_type := 0x01\<rparr>\<rparr>;
               g = g\<lparr>opts := (opts g)\<lparr>ONES := 0x07\<rparr>\<rparr>;
               g = g\<lparr>opts := (opts g)\<lparr>ZERO := 0\<rparr>\<rparr>;
               g = g\<lparr>opts := (opts g)\<lparr>ZEROS := 0\<rparr>\<rparr>;
               g = g\<lparr>reserved_1 := 0\<rparr>;
               g = g\<lparr>reserved_2 := 0\<rparr>;
               g = g\<lparr>reserved_type := 0\<rparr>
           in Inr (s\<lparr>idt := (idt s)[unat n := g]\<rparr>)
      else Inl (Fault Out_of_bounds))"

definition set_idt :: "build \<Rightarrow> ('d, 'z) idt_state_scheme \<Rightarrow> ('d, 'z) idt_state_scheme" where
  "set_idt bld s =
     (let s = s\<lparr>idt_reg := (idt_reg s)\<lparr>base_field := addr_idt bld\<rparr>\<rparr>;
          s = s\<lparr>idt_reg := (idt_reg s)\<lparr>length_field := of_nat (IDT_ENTRIES * sizeof_idt_gate - 1)\<rparr>\<rparr>
      in s\<lparr>cpu_idtr := Some (idt_reg s)\<rparr>)"

subsection \<open>What the processor reads\<close>

text \<open>
  A gate as the processor sees it: the handler address it jumps to, and the 16 bits of
  options, with the fields from the least significant bit up in the order of the struct.
\<close>

definition gate_offset :: "idt_gate \<Rightarrow> u64" where
  "gate_offset g = ucast (ptr_low g) OR push_bit 16 (ucast (ptr_mid g))
     OR push_bit 32 (ucast (ptr_high g))"

definition opts_bits :: "opts_t \<Rightarrow> u16" where
  "opts_bits o' = ucast (stack_OK o') OR push_bit 3 (ucast (ZEROS o'))
     OR push_bit 8 (ucast (gate_type o')) OR push_bit 9 (ucast (ONES o'))
     OR push_bit 12 (ucast (ZERO o')) OR push_bit 13 (ucast (DPL o'))
     OR push_bit 15 (ucast (present o'))"

definition gate_for :: "u64 \<Rightarrow> idt_gate" where
  "gate_for handler =
     \<lparr>ptr_low = ucast handler, selector = 8,
      opts = \<lparr>stack_OK = 0, ZEROS = 0, gate_type = 1, ONES = 7, ZERO = 0, DPL = 3, present = 1\<rparr>,
      ptr_mid = ucast (drop_bit 16 handler), ptr_high = ucast (drop_bit 32 handler),
      reserved_1 = 0, reserved_type = 0, reserved_2 = 0\<rparr>"

lemma set_idt_gate_eq:
  "unat n < length (idt s) \<Longrightarrow>
    set_idt_gate n handler s = Inr (s\<lparr>idt := (idt s)[unat n := gate_for handler]\<rparr>)"
  by (cases "idt s ! unat n"; cases "opts (idt s ! unat n)")
    (simp add: set_idt_gate_def gate_for_def Let_def)

lemma gate_offset_gate_for [simp]: "gate_offset (gate_for handler) = handler"
proof (rule bit_eqI)
  fix n assume "possible_bit TYPE(u64) n"
  then consider "n < 16" | "16 \<le> n" "n < 32" | "32 \<le> n" "n < 64" by fastforce
  then show "bit (gate_offset (gate_for handler)) n = bit handler n"
    by cases (auto simp: gate_offset_def gate_for_def bit_simps)
qed

lemma opts_bits_gate_for [simp]: "opts_bits (opts (gate_for handler)) = 0xEF00"
  by (simp add: opts_bits_def gate_for_def)

lemma fold_screen_write_tables [simp]:
  "idt (fold (screen_write hw) cs s) = idt s"
  "idt_reg (fold (screen_write hw) cs s) = idt_reg s"
  "cpu_idtr (fold (screen_write hw) cs s) = cpu_idtr s"
  "cpu_if (fold (screen_write hw) cs s) = cpu_if s"
  by (subst fold_screen_write_update, simp)+

subsection \<open>Properties\<close>

text \<open>
  Installing a gate: the three address fields of the entry join to the handler's
  address, the entry is present with privilege level 3, and its type nibble, bits 8 to 11 of
  the option bits \<open>0xEF00\<close>, is 15; no other entry changes. An index past the table is a
  write out of bounds.
\<close>

theorem set_idt_gate_installs:
  "set_idt_gate n handler s =
    (if unat n < length (idt s) then Inr (s\<lparr>idt := (idt s)[unat n := gate_for handler]\<rparr>)
     else Inl (Fault Out_of_bounds))
   \<and> gate_offset (gate_for handler) = handler \<and> opts_bits (opts (gate_for handler)) = 0xEF00"
  by (simp add: set_idt_gate_eq) (simp add: set_idt_gate_def)

end
