(* ===== verification/Isr_Table.thy ===== *)
theory Isr_Table
  imports Idt
begin

text \<open>
  The part of \<open>src/src/core/isr.c\<close> that the rest of the kernel calls: the handler table and
  its registration, the interrupt flag, and the frame the assembly stubs leave on the stack.
  A function pointer of type \<open>isr_t\<close> is one of the three handlers the kernel has, or null.
\<close>

definition IRQ0 :: u64 where "IRQ0 = 32"
definition IRQ1 :: u64 where "IRQ1 = 33"
definition EXCEPTION_BP :: u64 where "EXCEPTION_BP = 3"

datatype isr_t = Breakpoint_handler | Timer_callback | Keyboard_callback

record 'd isr_state = "'d idt_state" +
  interrupt_handlers :: "isr_t option list"

definition register_interrupt_handler :: "u64 \<Rightarrow> isr_t \<Rightarrow> ('d, 'z) isr_state_scheme \<Rightarrow>
    's stop + ('d, 'z) isr_state_scheme" where
  "register_interrupt_handler idn handler s =
     (if unat idn < length (interrupt_handlers s)
      then Inr (s\<lparr>interrupt_handlers := (interrupt_handlers s)[unat idn := Some handler]\<rparr>)
      else Inl (Fault Out_of_bounds))"

definition irq_init :: "('d, 'z) idt_state_scheme \<Rightarrow> ('d, 'z) idt_state_scheme" where
  "irq_init s = s\<lparr>cpu_if := True\<rparr>"

definition irq_disable :: "('d, 'z) idt_state_scheme \<Rightarrow> ('d, 'z) idt_state_scheme" where
  "irq_disable s = s\<lparr>cpu_if := False\<rparr>"

subsection \<open>The stack frame\<close>

record stack_t =
  instruction_pointer :: u64
  code_segment :: u64
  cpu_flags :: u64
  stack_pointer :: u64
  stack_segment :: u64

definition NB_REGISTERS_PUSHED_BEFORE_CALL :: u64 where "NB_REGISTERS_PUSHED_BEFORE_CALL = 15"

definition get_stack :: "u64 \<Rightarrow> u64 \<Rightarrow> u64" where
  "get_stack idn stack_addr =
     (let stack_addr = (if idn \<in> {8, 10, 11, 12, 13, 14, 17} then stack_addr + 8 else stack_addr)
      in stack_addr + NB_REGISTERS_PUSHED_BEFORE_CALL * 8)"

definition load_stack :: "bytes \<Rightarrow> u64 \<Rightarrow> stack_t" where
  "load_stack m a = \<lparr>instruction_pointer = load64 m a, code_segment = load64 m (a + 8),
     cpu_flags = load64 m (a + 16), stack_pointer = load64 m (a + 24),
     stack_segment = load64 m (a + 32)\<rparr>"

subsection \<open>Output and registration\<close>

lemma fold_screen_write_handlers [simp]:
  "interrupt_handlers (fold (screen_write hw) cs s) = interrupt_handlers s"
  by (subst fold_screen_write_update) simp

lemma register_interrupt_handler_eq:
  "unat idn < length (interrupt_handlers s) \<Longrightarrow> register_interrupt_handler idn h s =
    Inr (s\<lparr>interrupt_handlers := (interrupt_handlers s)[unat idn := Some h]\<rparr>)"
  by (simp add: register_interrupt_handler_def)

end
