(* ===== verification/Panic.thy ===== *)
theory Panic
  imports Isr_Table
begin

text \<open>
  \<open>kernel_panic\<close> (\<open>src/src/kernel/panic.c\<close>) and the \<open>PANIC\<close> macro (\<open>panic.h\<close>). After its
  output the kernel disables interrupts and loops: the result is \<open>Halted\<close> with the final
  state. A newline of a C literal is the character 10.
\<close>

abbreviation NL :: char where "NL \<equiv> CHR 0x0A"

definition kernel_panic :: "'d port_hw \<Rightarrow> string \<Rightarrow> va_slot list \<Rightarrow> ('d, 'z) isr_state_scheme \<Rightarrow>
    ('d, 'z) isr_state_scheme stop + 'a" where
  "kernel_panic hw format arg s =
     res_bind (vprintfk hw DEVICE_SCREEN format arg s) (\<lambda>s.
     res_bind (printfk hw (NL # ''System halted!'' @ [NL]) [] s) (\<lambda>s.
     Inl (Halted (irq_disable s))))"

definition PANIC :: "'d port_hw \<Rightarrow> string \<Rightarrow> u64 \<Rightarrow> string \<Rightarrow> string \<Rightarrow> va_slot list \<Rightarrow>
    ('d, 'z) isr_state_scheme \<Rightarrow> ('d, 'z) isr_state_scheme stop + 'a" where
  "PANIC hw file line func format arg s =
     kernel_panic hw (NL # ''PANIC in %s:%d:%s(): '' @ format @ [NL] @ ''%s'')
       ([VStr file, VInt line, VStr func] @ arg @ [VStr []]) s"

subsection \<open>A panic halts\<close>

definition halt_text :: string where
  "halt_text = NL # ''System halted!'' @ [NL]"

lemma printfk_halt_text:
  "printfk hw (NL # ''System halted!'' @ [NL]) [] s = Inr (fold (screen_write hw) halt_text s)"
  by (rule printfk_text) (simp_all add: halt_text_def)

lemma kernel_panic_eq:
  assumes "render format arg = Some t" and "NUL \<notin> set format"
  shows "kernel_panic hw format arg s =
    Inl (Halted (irq_disable (fold (screen_write hw) (t @ halt_text) s)))"
  unfolding kernel_panic_def vprintfk_screen_text [OF assms] printfk_halt_text res_bind_simps
  by simp

subsection \<open>Properties\<close>

text \<open>
  \<open>kernel_panic\<close> never returns to its caller, whatever its format and arguments.
\<close>

theorem kernel_panic_no_return: "kernel_panic hw format arg s \<noteq> Inr x"
  by (auto simp: kernel_panic_def res_bind_def split: sum.splits)

text \<open>
  When the message can be rendered, \<open>kernel_panic\<close> shows it, then the halt line, and
  stops with interrupts disabled; the interrupt tables are as they were.
\<close>

theorem kernel_panic_halts:
  assumes "render format arg = Some t" and "NUL \<notin> set format"
  shows "\<exists>s'. kernel_panic hw format arg s = Inl (Halted s') \<and> \<not> cpu_if s'
    \<and> mem s' = mem (fold (screen_write hw) (t @ halt_text) s)
    \<and> idt s' = idt s \<and> interrupt_handlers s' = interrupt_handlers s"
  by (subst kernel_panic_eq [OF assms]) (simp add: irq_disable_def)

theorem kernel_panic_halts_witness:
  "\<exists>s'. kernel_panic (log_hw (\<lambda>_. 0)) ''bad page %d'' [VInt 3]
      \<lparr>dev = [], mem = (\<lambda>_. 0), screen_scheme = 7, framebuffer = 0xB8000, screen_col = 0,
        screen_row = 0, idt = [], idt_reg = \<lparr>length_field = 0, base_field = 0\<rparr>,
        cpu_idtr = None, cpu_if = True, interrupt_handlers = [None]\<rparr>
    = Inl (Halted s') \<and> \<not> cpu_if s'
    \<and> mem s' = mem (fold (screen_write (log_hw (\<lambda>_. 0))) (''bad page 3'' @ halt_text)
      \<lparr>dev = [], mem = (\<lambda>_. 0), screen_scheme = 7, framebuffer = 0xB8000, screen_col = 0,
        screen_row = 0, idt = [], idt_reg = \<lparr>length_field = 0, base_field = 0\<rparr>,
        cpu_idtr = None, cpu_if = True, interrupt_handlers = [None]\<rparr>)
    \<and> idt s' = [] \<and> interrupt_handlers s' = [None]"
proof -
  have "render ''bad page %d'' [VInt 3] = Some ''bad page 3''" by code_simp
  then show ?thesis
    using kernel_panic_halts [of "''bad page %d''" "[VInt 3]" "''bad page 3''" "log_hw (\<lambda>_. 0)"
      "\<lparr>dev = [], mem = (\<lambda>_. 0), screen_scheme = 7, framebuffer = 0xB8000, screen_col = 0,
        screen_row = 0, idt = [], idt_reg = \<lparr>length_field = 0, base_field = 0\<rparr>,
        cpu_idtr = None, cpu_if = True, interrupt_handlers = [None]\<rparr>"]
    by simp
qed

end
