(* ===== verification/Timer.thy ===== *)
theory Timer
  imports Isr_Table
begin

text \<open>
  The programmable interval timer (\<open>src/src/core/timer.c\<close>). \<open>tick\<close> is an unsigned 32-bit
  counter: it wraps around.
\<close>

record 'd timer_state = "'d isr_state" +
  tick :: u32

definition timer_callback :: "('d, 'z) timer_state_scheme \<Rightarrow> ('d, 'z) timer_state_scheme" where
  "timer_callback s = s\<lparr>tick := tick s + 1\<rparr>"

definition timer_tick :: "('d, 'z) timer_state_scheme \<Rightarrow> u32" where
  "timer_tick s = tick s"

definition timer_init :: "'d port_hw \<Rightarrow> int \<Rightarrow> ('d, 'z) timer_state_scheme \<Rightarrow>
    's stop + ('d, 'z) timer_state_scheme" where
  "timer_init hw freq s =
     res_bind (register_interrupt_handler IRQ0 Timer_callback s) (\<lambda>s.
     if freq = 0 then Inl (Fault Divide_by_zero)
     else let divisor = 1193180 sdiv freq;
              s = port_byte_out hw 0x43 0x36 s;
              s = port_byte_out hw 0x40 (word_of_int (divisor AND 0xff)) s
          in Inr (port_byte_out hw 0x40 (word_of_int (drop_bit 8 divisor)) s))"

lemma fold_screen_write_tick [simp]: "tick (fold (screen_write hw) cs s) = tick s"
  by (subst fold_screen_write_update) simp

lemma word_of_int_AND_FF: "(word_of_int (k AND 0xff) :: u8) = word_of_int k"
proof -
  have "k AND 0xff = take_bit 8 k" by (simp add: take_bit_eq_mask mask_eq_exp_minus_1)
  then show ?thesis by (auto intro!: bit_eqI simp: bit_simps)
qed

lemma unat_byte: "0 \<le> k \<Longrightarrow> unat (word_of_int k :: u8) = nat k mod 256"
  by (simp add: unat_eq_nat_uint uint_word_of_int nat_mod_distrib del: nat_uint_eq)

lemma timer_init_eq:
  assumes "32 < length (interrupt_handlers s)" and "freq \<noteq> 0"
  shows "timer_init hw freq s = Inr (s\<lparr>
    interrupt_handlers := (interrupt_handlers s)[32 := Some Timer_callback],
    dev := outs hw [(0x43, 0x36), (0x40, word_of_int (1193180 sdiv freq)),
      (0x40, word_of_int (drop_bit 8 (1193180 sdiv freq)))] (dev s)\<rparr>)"
  using assms
  by (simp add: timer_init_def register_interrupt_handler_eq IRQ0_def port_byte_out_def Let_def
      word_of_int_AND_FF)

subsection \<open>Properties\<close>

text \<open>
  C20. \<open>timer_init\<close> registers the timer handler and programs channel 0 with the divisor of
  the frequency, low byte first; for every frequency from 19 to 1193180 Hz the two bytes join
  to the exact quotient. A frequency of zero is a division by zero.
\<close>

theorem timer_init_programs_divisor:
  assumes "19 \<le> freq" and "freq \<le> 1193180" and "32 < length (interrupt_handlers s)"
  shows "\<exists>lo hi. timer_init hw freq s = Inr (s\<lparr>
      interrupt_handlers := (interrupt_handlers s)[32 := Some Timer_callback],
      dev := outs hw [(0x43, 0x36), (0x40, lo), (0x40, hi)] (dev s)\<rparr>)
    \<and> unat lo + 256 * unat hi = nat (1193180 div freq)
    \<and> timer_init hw 0 s = Inl (Fault Divide_by_zero)"
proof -
  let ?d = "1193180 sdiv freq"
  have d: "?d = 1193180 div freq" using assms by (simp add: signed_divide_int_def)
  have "1193180 div freq \<le> 1193180 div 19" using assms by (intro zdiv_mono2) simp_all
  then have bound: "0 \<le> ?d" "?d < 65536" using d assms by (simp_all add: pos_imp_zdiv_nonneg_iff)
  have hi: "unat (word_of_int (drop_bit 8 ?d) :: u8) = nat ?d div 256"
    using bound by (subst unat_byte) (simp_all add: drop_bit_eq_div nat_div_distrib)
  have lo: "unat (word_of_int ?d :: u8) = nat ?d mod 256"
    using bound by (intro unat_byte)
  from hi lo have "unat (word_of_int ?d :: u8) + 256 * unat (word_of_int (drop_bit 8 ?d) :: u8) = nat ?d"
    by simp
  moreover have "timer_init hw 0 s = Inl (Fault Divide_by_zero)"
    using assms(3) by (simp add: timer_init_def register_interrupt_handler_eq IRQ0_def)
  ultimately show ?thesis using timer_init_eq [of s freq hw] assms d by auto
qed

theorem timer_init_programs_divisor_witness:
  "let s = \<lparr>dev = [], mem = (\<lambda>_. 0), screen_scheme = 7, framebuffer = 0xB8000, screen_col = 0,
        screen_row = 0, idt = [], idt_reg = \<lparr>length_field = 0, base_field = 0\<rparr>,
        cpu_idtr = None, cpu_if = True, interrupt_handlers = replicate 256 None, tick = 0\<rparr>
   in \<exists>lo hi. timer_init (log_hw (\<lambda>_. 0)) 50 s = Inr (s\<lparr>
      interrupt_handlers := (interrupt_handlers s)[32 := Some Timer_callback],
      dev := outs (log_hw (\<lambda>_. 0)) [(0x43, 0x36), (0x40, lo), (0x40, hi)] (dev s)\<rparr>)
    \<and> unat lo + 256 * unat hi = nat (1193180 div 50)
    \<and> timer_init (log_hw (\<lambda>_. 0)) 0 s = Inl (Fault Divide_by_zero)"
  unfolding Let_def by (rule timer_init_programs_divisor) simp_all

end
