(* ===== verification/Keyboard.thy ===== *)
theory Keyboard
  imports Isr_Table
begin

text \<open>
  The keyboard driver (\<open>src/src/drivers/keyboard.c\<close>): it shows the scan codes of keys being
  pressed and ignores the others.
\<close>

definition KEYBOARD_DATA_PORT :: u16 where "KEYBOARD_DATA_PORT = 0x60"
definition SCANCODE_MAX :: u8 where "SCANCODE_MAX = 57"

definition keyboard_callback :: "'d port_hw \<Rightarrow> ('d, 'z) isr_state_scheme \<Rightarrow>
    's stop + ('d, 'z) isr_state_scheme" where
  "keyboard_callback hw s =
     (let (scancode, s) = port_byte_in hw KEYBOARD_DATA_PORT s
      in if scancode > SCANCODE_MAX then Inr s
         else printfk hw (''Received scancode: %d'' @ [CHR 0x0A]) [VInt (ucast scancode)] s)"

definition keyboard_init :: "('d, 'z) isr_state_scheme \<Rightarrow> 's stop + ('d, 'z) isr_state_scheme" where
  "keyboard_init s = register_interrupt_handler IRQ1 Keyboard_callback s"

subsection \<open>What a key press shows\<close>

definition scancode_text :: "u8 \<Rightarrow> string" where
  "scancode_text v = ''Received scancode: '' @ numeral_of 10 (unat v) @ [CHR 0x0A]"

lemma render_scancode:
  "render (''Received scancode: %d'' @ [CHR 0x0A]) [VInt (ucast (v :: u8))] = Some (scancode_text v)"
proof -
  have v: "unat v < 256" using unsigned_less [of v, where ?'a = nat] by simp
  have "unat (ucast v :: u64) = unat v"
    by (simp add: unsigned_ucast_eq take_bit_nat_eq_self v [THEN less_le_trans])
  then have n: "sint (ucast (ucast v :: u64) :: u32) = int (unat v)"
    using v by (subst sint_ucast_small) simp_all
  have "0 \<le> uint v" by simp
  then have nz: "uint v \<noteq> - 2147483648" by linarith
  have "render (''%d'' @ [CHR 0x0A]) [VInt (ucast v)] = Some (numeral_of 10 (unat v) @ [CHR 0x0A])"
    using n nz by (simp add: conv_text_def is_digit_def decimal_text_def INT_MIN_def Let_def)
  then show ?thesis
    using render_literal [of "''Received scancode: ''" "''%d'' @ [CHR 0x0A]"]
    by (simp add: scancode_text_def del: render.simps)
qed

lemma keyboard_callback_eq:
  "keyboard_callback hw s =
    (let (v, d) = hw_inb hw (dev s) 0x60; s' = s\<lparr>dev := d\<rparr>
     in Inr (if 57 < v then s' else fold (screen_write hw) (scancode_text v) s'))"
  by (simp add: keyboard_callback_def port_byte_in_def KEYBOARD_DATA_PORT_def SCANCODE_MAX_def
      Let_def case_prod_beta printfk_text [OF render_scancode, unfolded append.simps])

subsection \<open>Properties\<close>

text \<open>
  The keyboard handler reads one scan code, always returns, shows the codes up to 57 as
  a decimal number on a line of their own, and drops every other code silently.
\<close>

theorem keyboard_callback_shows_scancode:
  "\<exists>s'. keyboard_callback hw s = Inr s' \<and>
     (let (v, d) = hw_inb hw (dev s) 0x60
      in s' = (if 57 < v then s\<lparr>dev := d\<rparr> else fold (screen_write hw) (scancode_text v) (s\<lparr>dev := d\<rparr>))
         \<and> denotes 10 (butlast (drop 19 (scancode_text v))) (unat v))"
proof -
  have "butlast (drop 19 (scancode_text v)) = numeral_of 10 (unat v)" for v
    by (simp add: scancode_text_def butlast_append)
  then show ?thesis
    using denotes_numeral_of [of 10]
    by (simp add: keyboard_callback_eq case_prod_beta Let_def)
qed

end
