(* ===== verification/Isr.thy ===== *)
theory Isr
  imports Panic Timer Keyboard
begin

text \<open>
  Interrupt set-up and dispatch (\<open>src/src/core/isr.c\<close>, \<open>isr.h\<close>), over the handler table of
  \<open>Isr_Table\<close>. \<open>isr_entry\<close> and \<open>irq_entry\<close> add what the assembly stubs of
  \<open>src/asm/interrupt.asm\<close> do to the interrupt flag around the C handlers.
\<close>

definition PIC1 :: u16 where "PIC1 = 0x20"
definition PIC2 :: u16 where "PIC2 = 0xA0"
definition PIC1_DATA :: u16 where "PIC1_DATA = PIC1 + 1"
definition PIC2_DATA :: u16 where "PIC2_DATA = PIC2 + 1"
definition PIC_EOI :: u8 where "PIC_EOI = 0x20"
definition IRQ_BASE :: u8 where "IRQ_BASE = 0x20"

definition exception_messages :: "string list" where
  "exception_messages =
    [''Division By Zero'', ''Debug'', ''Non Maskable Interrupt'', ''Breakpoint'',
     ''Into Detected Overflow'', ''Out of Bounds'', ''Invalid Opcode'', ''No Coprocessor'',
     ''Double Fault'', ''Coprocessor Segment Overrun'', ''Bad TSS'', ''Segment Not Present'',
     ''Stack Fault'', ''General Protection Fault'', ''Page Fault'', ''Unknown Interrupt'',
     ''Coprocessor Fault'', ''Alignment Check'', ''Machine Check'', ''Reserved'',
     ''Reserved'', ''Reserved'', ''Reserved'', ''Reserved'',
     ''Reserved'', ''Reserved'', ''Reserved'', ''Reserved'',
     ''Reserved'', ''Reserved'', ''Reserved'', ''Reserved'']"

subsection \<open>Initialisation\<close>

definition pic_init :: "'d port_hw \<Rightarrow> ('d, 'z) timer_state_scheme \<Rightarrow> ('d, 'z) timer_state_scheme" where
  "pic_init hw s =
     (let s = port_byte_out hw PIC1 0x11 s;
          s = port_byte_out hw PIC2 0x11 s;
          s = port_byte_out hw PIC1_DATA IRQ_BASE s;
          s = port_byte_out hw PIC2_DATA (IRQ_BASE + 8) s;
          s = port_byte_out hw PIC1_DATA 0x04 s;
          s = port_byte_out hw PIC2_DATA 0x02 s;
          s = port_byte_out hw PIC1_DATA 0x01 s;
          s = port_byte_out hw PIC2_DATA 0x01 s;
          s = port_byte_out hw PIC1_DATA 0x00 s
      in port_byte_out hw PIC2_DATA 0x00 s)"

text \<open>The 32 exception gates and the five interrupt request gates, in the order of the calls.\<close>

definition init_gates :: "build \<Rightarrow> (u16 \<times> u64) list" where
  "init_gates bld =
     map (\<lambda>n. (of_nat n, addr_isr bld n)) [0..<32] @
     map (\<lambda>n. (32 + of_nat n, addr_irq bld n)) [0..<5]"

definition isr_init :: "'d port_hw \<Rightarrow> build \<Rightarrow> ('d, 'z) timer_state_scheme \<Rightarrow>
    's stop + ('d, 'z) timer_state_scheme" where
  "isr_init hw bld s =
     (let s = pic_init hw s in
      res_bind (fold_res (\<lambda>(n, a). set_idt_gate n a) (init_gates bld) s) (\<lambda>s.
      res_bind (register_interrupt_handler EXCEPTION_BP Breakpoint_handler s) (\<lambda>s.
      Inr (set_idt bld s))))"

subsection \<open>Dispatch\<close>

definition breakpoint_handler :: "'d port_hw \<Rightarrow> stack_t \<Rightarrow> ('d, 'z) timer_state_scheme \<Rightarrow>
    's stop + ('d, 'z) timer_state_scheme" where
  "breakpoint_handler hw stack s =
     printfk hw
       (''Exception: BREAKPOINT'' @ [NL] @
        ''  instruction_pointer = 0x%X'' @ [NL] @
        ''  code_segment        = 0x%X'' @ [NL] @
        ''  cpu_flags           = 0x%X'' @ [NL] @
        ''  stack_pointer       = 0x%X'' @ [NL] @
        ''  stack_segment       = 0x%X'' @ [NL])
       [VInt (instruction_pointer stack), VInt (code_segment stack), VInt (cpu_flags stack),
        VInt (stack_pointer stack), VInt (stack_segment stack)] s"

text \<open>Calling through a function pointer; the handlers get the frame at \<open>get_stack\<close>.\<close>

fun call_isr :: "'d port_hw \<Rightarrow> isr_t \<Rightarrow> u64 \<Rightarrow> ('d, 'z) timer_state_scheme \<Rightarrow>
    's stop + ('d, 'z) timer_state_scheme" where
  "call_isr hw Breakpoint_handler stack s = breakpoint_handler hw (load_stack (mem s) stack) s"
| "call_isr hw Timer_callback stack s = Inr (timer_callback s)"
| "call_isr hw Keyboard_callback stack s = keyboard_callback hw s"

definition isr_handler :: "'d port_hw \<Rightarrow> build \<Rightarrow> u64 \<Rightarrow> u64 \<Rightarrow> ('d, 'z) timer_state_scheme \<Rightarrow>
    ('d, 'z) timer_state_scheme stop + ('d, 'z) timer_state_scheme" where
  "isr_handler hw bld idn stack_addr s =
     (let stack = load_stack (mem s) (get_stack idn stack_addr) in
      if length (interrupt_handlers s) \<le> unat idn then Inl (Fault Out_of_bounds)
      else case interrupt_handlers s ! unat idn of
        Some handler \<Rightarrow> call_isr hw handler (get_stack idn stack_addr) s
      | None \<Rightarrow>
          if length exception_messages \<le> unat idn then Inl (Fault Out_of_bounds)
          else PANIC hw ''src/core/isr.c'' (isr_panic_line bld) ''isr_handler''
            (''Received interrupt: %d - %s'' @ [NL, NL] @
             ''  instruction_pointer = 0x%X'' @ [NL] @
             ''  code_segment        = 0x%X'' @ [NL] @
             ''  cpu_flags           = 0x%X'' @ [NL] @
             ''  stack_pointer       = 0x%X'' @ [NL] @
             ''  stack_segment       = 0x%X'')
            [VInt idn, VStr (exception_messages ! unat idn), VInt (instruction_pointer stack),
             VInt (code_segment stack), VInt (cpu_flags stack), VInt (stack_pointer stack),
             VInt (stack_segment stack)] s)"

definition irq_handler :: "'d port_hw \<Rightarrow> u64 \<Rightarrow> u64 \<Rightarrow> ('d, 'z) timer_state_scheme \<Rightarrow>
    's stop + ('d, 'z) timer_state_scheme" where
  "irq_handler hw idn stack_addr s =
     (let s = (if idn \<ge> 40 then port_byte_out hw PIC2 PIC_EOI s else s);
          s = port_byte_out hw PIC1 PIC_EOI s in
      if length (interrupt_handlers s) \<le> unat idn then Inl (Fault Out_of_bounds)
      else case interrupt_handlers s ! unat idn of
        Some handler \<Rightarrow> call_isr hw handler (get_stack idn stack_addr) s
      | None \<Rightarrow> Inr s)"

text \<open>
  The stubs: \<^verbatim>\<open>cli\<close>, the C handler, \<^verbatim>\<open>sti\<close>, and \<^verbatim>\<open>iretq\<close>, which restores the interrupt flag from the
  flags that were saved when the gate was entered.
\<close>

definition isr_entry :: "'d port_hw \<Rightarrow> build \<Rightarrow> u64 \<Rightarrow> u64 \<Rightarrow> ('d, 'z) timer_state_scheme \<Rightarrow>
    ('d, 'z) timer_state_scheme stop + ('d, 'z) timer_state_scheme" where
  "isr_entry hw bld n rsp s =
     res_bind (isr_handler hw bld n rsp (s\<lparr>cpu_if := False\<rparr>)) (\<lambda>s'. Inr (s'\<lparr>cpu_if := cpu_if s\<rparr>))"

definition irq_entry :: "'d port_hw \<Rightarrow> u64 \<Rightarrow> u64 \<Rightarrow> ('d, 'z) timer_state_scheme \<Rightarrow>
    's stop + ('d, 'z) timer_state_scheme" where
  "irq_entry hw n rsp s =
     res_bind (irq_handler hw (32 + n) rsp (s\<lparr>cpu_if := False\<rparr>)) (\<lambda>s'. Inr (s'\<lparr>cpu_if := cpu_if s\<rparr>))"

subsection \<open>The tables after initialisation\<close>

definition pic_bytes :: "(u16 \<times> u8) list" where
  "pic_bytes = [(0x20, 0x11), (0xA0, 0x11), (0x21, 0x20), (0xA1, 0x28), (0x21, 0x04),
     (0xA1, 0x02), (0x21, 0x01), (0xA1, 0x01), (0x21, 0x00), (0xA1, 0x00)]"

lemma pic_init_eq: "pic_init hw s = s\<lparr>dev := outs hw pic_bytes (dev s)\<rparr>"
  by (simp add: pic_init_def pic_bytes_def port_byte_out_def Let_def PIC1_def PIC2_def
      PIC1_DATA_def PIC2_DATA_def IRQ_BASE_def)

definition tables_ok :: "build \<Rightarrow> ('d, 'z) timer_state_scheme \<Rightarrow> bool" where
  "tables_ok bld s \<longleftrightarrow> length (idt s) = 256
     \<and> (\<forall>k < 32. idt s ! k = gate_for (addr_isr bld k))
     \<and> (\<forall>k < 5. idt s ! (32 + k) = gate_for (addr_irq bld k))
     \<and> length (interrupt_handlers s) = 256
     \<and> interrupt_handlers s ! 3 = Some Breakpoint_handler
     \<and> cpu_idtr s = Some \<lparr>length_field = 4095, base_field = addr_idt bld\<rparr>"

definition install :: "(u16 \<times> u64) list \<Rightarrow> idt_gate list \<Rightarrow> idt_gate list" where
  "install gs t = fold (\<lambda>(n, a) t. t[unat n := gate_for a]) gs t"

lemma length_install [simp]: "length (install gs t) = length t"
  unfolding install_def by (induction gs arbitrary: t) auto

lemma set_gates_eq:
  "\<forall>(n, a) \<in> set gs. unat n < length (idt s) \<Longrightarrow>
    fold_res (\<lambda>(n, a). set_idt_gate n a) gs s = Inr (s\<lparr>idt := install gs (idt s)\<rparr>)"
proof (induction gs arbitrary: s)
  case (Cons g gs)
  then show ?case by (cases g) (auto simp: set_idt_gate_eq install_def)
qed (simp add: install_def)

lemma install_range:
  "b + m \<le> length t \<Longrightarrow> length t < 2 ^ 16 \<Longrightarrow> k < length t \<Longrightarrow>
    install (map (\<lambda>n. (of_nat b + of_nat n, f n)) [0..<m]) t ! k =
      (if b \<le> k \<and> k < b + m then gate_for (f (k - b)) else t ! k)"
proof (induction m)
  case 0
  then show ?case by (auto simp: install_def)
next
  case (Suc m)
  have "unat (of_nat b + of_nat m :: u16) = b + m"
    using Suc.prems by (simp add: unat_of_nat flip: of_nat_add)
  then have "install (map (\<lambda>n. (of_nat b + of_nat n, f n)) [0..<Suc m]) t =
      (install (map (\<lambda>n. (of_nat b + of_nat n, f n)) [0..<m]) t)[b + m := gate_for (f m)]"
    by (simp add: install_def)
  with Suc show ?case by (auto simp: nth_list_update)
qed

lemma init_gates_in_range: "\<forall>(n, a) \<in> set (init_gates bld). unat n < 256"
  by (simp add: init_gates_def atLeastLessThan_upt [symmetric] atLeast0LessThan lessThan_nat_numeral
      lessThan_Suc pred_numeral_simps)

lemma install_init_gates:
  assumes "length t = 256" and "k < 256"
  shows "install (init_gates bld) t ! k =
    (if k < 32 then gate_for (addr_isr bld k)
     else if k < 37 then gate_for (addr_irq bld (k - 32)) else t ! k)"
proof -
  let ?t = "install (map (\<lambda>n. (of_nat n, addr_isr bld n)) [0..<32]) t"
  have "install (init_gates bld) t = install (map (\<lambda>n. (32 + of_nat n, addr_irq bld n)) [0..<5]) ?t"
    by (simp add: init_gates_def install_def)
  with assms install_range [of 32 5 ?t k "addr_irq bld"] install_range [of 0 32 t k "addr_isr bld"]
  show ?thesis by auto
qed

lemma isr_init_eq:
  assumes "length (idt s) = 256" and "length (interrupt_handlers s) = 256"
  shows "isr_init hw bld s = Inr (s\<lparr>dev := outs hw pic_bytes (dev s),
    idt := install (init_gates bld) (idt s),
    interrupt_handlers := (interrupt_handlers s)[3 := Some Breakpoint_handler],
    idt_reg := \<lparr>length_field = 4095, base_field = addr_idt bld\<rparr>,
    cpu_idtr := Some \<lparr>length_field = 4095, base_field = addr_idt bld\<rparr>\<rparr>)"
proof -
  have "\<forall>(n, a) \<in> set (init_gates bld). unat n < length (idt (s\<lparr>dev := outs hw pic_bytes (dev s)\<rparr>))"
    using init_gates_in_range [of bld] assms(1) by simp
  note gates = set_gates_eq [OF this]
  show ?thesis
    unfolding isr_init_def Let_def pic_init_eq gates res_bind_simps
    using assms(2)
    by (simp add: register_interrupt_handler_def set_idt_def EXCEPTION_BP_def IDT_ENTRIES_def
        sizeof_idt_gate_def)
qed

subsection \<open>What the handlers print\<close>

definition frame_text :: "stack_t \<Rightarrow> string" where
  "frame_text stack =
     ''  instruction_pointer = 0x'' @ numeral_of 16 (unat (instruction_pointer stack)) @ [NL] @
     ''  code_segment        = 0x'' @ numeral_of 16 (unat (code_segment stack)) @ [NL] @
     ''  cpu_flags           = 0x'' @ numeral_of 16 (unat (cpu_flags stack)) @ [NL] @
     ''  stack_pointer       = 0x'' @ numeral_of 16 (unat (stack_pointer stack)) @ [NL] @
     ''  stack_segment       = 0x'' @ numeral_of 16 (unat (stack_segment stack))"

definition frame_format :: string where
  "frame_format =
     ''  instruction_pointer = 0x%X'' @ [NL] @
     ''  code_segment        = 0x%X'' @ [NL] @
     ''  cpu_flags           = 0x%X'' @ [NL] @
     ''  stack_pointer       = 0x%X'' @ [NL] @
     ''  stack_segment       = 0x%X''"

definition frame_args :: "stack_t \<Rightarrow> va_slot list" where
  "frame_args stack = [VInt (instruction_pointer stack), VInt (code_segment stack),
     VInt (cpu_flags stack), VInt (stack_pointer stack), VInt (stack_segment stack)]"

lemma render_frame:
  "render (frame_format @ cs) (frame_args stack @ arg) =
    map_option (\<lambda>t. frame_text stack @ t) (render cs arg)"
proof -
  have "render (frame_format @ cs) (frame_args stack @ arg) =
    render (''  instruction_pointer = 0x'' @ CHR ''%'' # CHR ''X'' #
       ((NL # ''  code_segment        = 0x'') @ CHR ''%'' # CHR ''X'' #
       ((NL # ''  cpu_flags           = 0x'') @ CHR ''%'' # CHR ''X'' #
       ((NL # ''  stack_pointer       = 0x'') @ CHR ''%'' # CHR ''X'' #
       ((NL # ''  stack_segment       = 0x'') @ CHR ''%'' # CHR ''X'' # cs)))))
     (VInt (instruction_pointer stack) # VInt (code_segment stack) # VInt (cpu_flags stack) #
      VInt (stack_pointer stack) # VInt (stack_segment stack) # arg)"
    by (simp only: frame_args_def frame_format_def append.simps append_assoc)
  also have "\<dots> = map_option (\<lambda>t. frame_text stack @ t) (render cs arg)"
    by (subst render_hex, simp)+ (cases "render cs arg"; simp add: frame_text_def)
  finally show ?thesis .
qed

definition breakpoint_text :: "stack_t \<Rightarrow> string" where
  "breakpoint_text stack = ''Exception: BREAKPOINT'' @ [NL] @ frame_text stack @ [NL]"

lemma breakpoint_handler_eq:
  "breakpoint_handler hw stack s = Inr (fold (screen_write hw) (breakpoint_text stack) s)"
proof -
  have r: "render ((''Exception: BREAKPOINT'' @ [NL]) @ frame_format @ [NL]) (frame_args stack @ [])
    = Some (breakpoint_text stack)"
    by (subst render_literal, simp, subst render_frame) (simp add: breakpoint_text_def)
  have "breakpoint_handler hw stack s =
    printfk hw ((''Exception: BREAKPOINT'' @ [NL]) @ frame_format @ [NL]) (frame_args stack @ []) s"
    unfolding breakpoint_handler_def frame_format_def frame_args_def append_assoc append.simps ..
  also have "\<dots> = Inr (fold (screen_write hw) (breakpoint_text stack) s)"
    by (rule printfk_text [OF r]) (simp add: frame_format_def)
  finally show ?thesis .
qed

subsection \<open>Every handler returns\<close>

definition isr_effect :: "'d port_hw \<Rightarrow> isr_t \<Rightarrow> u64 \<Rightarrow> ('d, 'z) timer_state_scheme \<Rightarrow>
    ('d, 'z) timer_state_scheme" where
  "isr_effect hw h a s =
     (case h of
        Breakpoint_handler \<Rightarrow> fold (screen_write hw) (breakpoint_text (load_stack (mem s) a)) s
      | Timer_callback \<Rightarrow> s\<lparr>tick := tick s + 1\<rparr>
      | Keyboard_callback \<Rightarrow>
          (let (v, d) = hw_inb hw (dev s) 0x60
           in if 57 < v then s\<lparr>dev := d\<rparr> else fold (screen_write hw) (scancode_text v) (s\<lparr>dev := d\<rparr>)))"

lemma call_isr_eq: "call_isr hw h a s = Inr (isr_effect hw h a s)"
  by (cases h) (simp_all add: isr_effect_def breakpoint_handler_eq timer_callback_def
      keyboard_callback_eq case_prod_beta Let_def)

lemma isr_effect_fields [simp]:
  "idt (isr_effect hw h a s) = idt s"
  "cpu_idtr (isr_effect hw h a s) = cpu_idtr s"
  "cpu_if (isr_effect hw h a s) = cpu_if s"
  "interrupt_handlers (isr_effect hw h a s) = interrupt_handlers s"
  "tick (isr_effect hw h a s) = (if h = Timer_callback then tick s + 1 else tick s)"
  by (cases h; simp add: isr_effect_def case_prod_beta Let_def)+

definition eoi_bytes :: "u64 \<Rightarrow> (u16 \<times> u8) list" where
  "eoi_bytes n = (if 8 \<le> n then [(0xA0, 0x20)] else []) @ [(0x20, 0x20)]"

definition irq_effect :: "'d port_hw \<Rightarrow> u64 \<Rightarrow> u64 \<Rightarrow> ('d, 'z) timer_state_scheme \<Rightarrow>
    ('d, 'z) timer_state_scheme" where
  "irq_effect hw n rsp s =
     (let s1 = s\<lparr>cpu_if := False, dev := outs hw (eoi_bytes n) (dev s)\<rparr>
      in (case interrupt_handlers s ! (32 + unat n) of None \<Rightarrow> s1
          | Some h \<Rightarrow> isr_effect hw h (get_stack (32 + n) rsp) s1)\<lparr>cpu_if := cpu_if s\<rparr>)"

lemma unat_irq: "n < 224 \<Longrightarrow> unat (32 + n :: u64) = 32 + unat n"
proof -
  assume "n < 224"
  then have "unat n < 224" by (simp add: word_less_nat_alt)
  then show ?thesis by (subst unat_add_lem [THEN iffD1]) simp_all
qed

lemma irq_entry_eq:
  assumes "length (interrupt_handlers s) = 256" and "n < 224"
  shows "irq_entry hw n rsp s = Inr (irq_effect hw n rsp s)"
proof -
  have "unat n < 224" using assms(2) by (simp add: word_less_nat_alt)
  moreover have "40 \<le> 32 + n \<longleftrightarrow> 8 \<le> n"
    using \<open>unat n < 224\<close> by (simp add: word_le_nat_alt unat_irq [OF assms(2)])
  ultimately show ?thesis
    using assms(1)
    by (auto simp: irq_entry_def irq_handler_def Let_def unat_irq [OF assms(2)] call_isr_eq irq_effect_def
        eoi_bytes_def port_byte_out_def PIC1_def PIC2_def PIC_EOI_def split: option.split)
qed

lemma irq_effect_fields [simp]:
  "idt (irq_effect hw n rsp s) = idt s"
  "cpu_idtr (irq_effect hw n rsp s) = cpu_idtr s"
  "cpu_if (irq_effect hw n rsp s) = cpu_if s"
  "interrupt_handlers (irq_effect hw n rsp s) = interrupt_handlers s"
  "tick (irq_effect hw n rsp s) =
     (if interrupt_handlers s ! (32 + unat n) = Some Timer_callback then tick s + 1 else tick s)"
  by (auto simp: irq_effect_def Let_def split: option.split)

subsection \<open>Sequences of interrupt requests\<close>

text \<open>
  \<open>irq_run hw irqs s s'\<close>: the interrupt requests \<open>irqs\<close>, each a line number below 5 and the
  stack pointer of its stub, are taken one after the other from \<open>s\<close> and leave \<open>s'\<close>. The
  processor takes a request only while the interrupt flag is set.
\<close>

inductive irq_run :: "'d port_hw \<Rightarrow> (u64 \<times> u64) list \<Rightarrow> ('d, 'z) timer_state_scheme \<Rightarrow>
    ('d, 'z) timer_state_scheme \<Rightarrow> bool" for hw where
  irq_run_Nil: "irq_run hw [] s s"
| irq_run_Cons: "cpu_if s \<Longrightarrow> n < 5 \<Longrightarrow> (irq_entry hw n rsp s :: unit stop + _) = Inr s1 \<Longrightarrow>
    irq_run hw irqs s1 s2 \<Longrightarrow> irq_run hw ((n, rsp) # irqs) s s2"

inductive_simps irq_run_Nil_iff [simp]: "irq_run hw [] s s'"
inductive_cases irq_run_ConsE: "irq_run hw ((n, rsp) # irqs) s s'"

definition irq_ready :: "build \<Rightarrow> ('d, 'z) timer_state_scheme \<Rightarrow> bool" where
  "irq_ready bld s \<longleftrightarrow> tables_ok bld s \<and> cpu_if s
     \<and> interrupt_handlers s ! 32 = Some Timer_callback
     \<and> (\<forall>k < 256. k \<noteq> 32 \<longrightarrow> interrupt_handlers s ! k \<noteq> Some Timer_callback)"

lemma irq_effect_ready: "irq_ready bld s \<Longrightarrow> irq_ready bld (irq_effect hw n rsp s)"
  by (auto simp: irq_ready_def tables_ok_def)

lemma irq_effect_ticks:
  assumes "irq_ready bld s" and "n < 5"
  shows "tick (irq_effect hw n rsp s) = tick s + (if n = 0 then 1 else 0)"
proof (cases "n = 0")
  case False
  then have "32 + unat n \<noteq> 32" "32 + unat n < 256"
    using assms(2) by (simp_all add: word_less_nat_alt unat_eq_zero)
  with assms(1) have "interrupt_handlers s ! (32 + unat n) \<noteq> Some Timer_callback"
    unfolding irq_ready_def by blast
  with False show ?thesis by simp
qed (use assms in \<open>simp add: irq_ready_def\<close>)

lemma irq_ready_step:
  assumes "irq_ready bld s" and "n < 5"
  shows "(irq_entry hw n rsp s :: 's stop + _) = Inr (irq_effect hw n rsp s)"
  using assms order.strict_trans [of n 5 224]
  by (intro irq_entry_eq) (simp_all add: irq_ready_def tables_ok_def)

lemma irq_run_eq:
  assumes "irq_ready bld s" and "\<forall>(n, rsp) \<in> set irqs. n < 5"
  shows "irq_run hw irqs s s' \<longleftrightarrow> s' = fold (\<lambda>(n, rsp). irq_effect hw n rsp) irqs s"
  using assms
proof (induction irqs arbitrary: s)
  case (Cons q irqs)
  obtain n rsp where q: "q = (n, rsp)" by force
  from Cons.prems q have n: "n < 5" and rest: "\<forall>(n, rsp) \<in> set irqs. n < 5" by auto
  note step = irq_ready_step [OF Cons.prems(1) n, where hw = hw and rsp = rsp and ?'s = unit]
  note IH = Cons.IH [OF irq_effect_ready [OF Cons.prems(1), where hw = hw and n = n and rsp = rsp] rest]
  have "cpu_if s" using Cons.prems(1) by (simp add: irq_ready_def)
  then have "irq_run hw (q # irqs) s s' \<longleftrightarrow> irq_run hw irqs (irq_effect hw n rsp s) s'"
    unfolding q using n step by (auto elim!: irq_run_ConsE intro: irq_run_Cons)
  then show ?case using IH by (simp add: q)
qed auto

lemma fold_irq_effect:
  assumes "irq_ready bld s" and "\<forall>(n, rsp) \<in> set irqs. n < 5"
  shows "irq_ready bld (fold (\<lambda>(n, rsp). irq_effect hw n rsp) irqs s)
    \<and> tick (fold (\<lambda>(n, rsp). irq_effect hw n rsp) irqs s) =
        tick s + of_nat (length (filter (\<lambda>(n, rsp). n = 0) irqs))"
  using assms
proof (induction irqs arbitrary: s)
  case (Cons q irqs)
  obtain n rsp where q: "q = (n, rsp)" by force
  from Cons.prems q have n: "n < 5" and rest: "\<forall>(n, rsp) \<in> set irqs. n < 5" by auto
  show ?case
    using Cons.IH [OF irq_effect_ready [OF Cons.prems(1), where hw = hw and n = n and rsp = rsp] rest]
      irq_effect_ticks [OF Cons.prems(1) n, where hw = hw and rsp = rsp]
    by (auto simp: q)
qed simp

subsection \<open>An exception nobody handles\<close>

definition exception_text :: "build \<Rightarrow> nat \<Rightarrow> stack_t \<Rightarrow> string" where
  "exception_text bld k stack =
     [NL] @ ''PANIC in src/core/isr.c:'' @ numeral_of 10 (unat (isr_panic_line bld)) @
     '':isr_handler(): Received interrupt: '' @ numeral_of 10 k @ '' - '' @
     (exception_messages ! k) @ [NL, NL] @ frame_text stack @ [NL]"

definition exception_format :: string where
  "exception_format = (NL # ''PANIC in '') @ ''%s'' @ '':'' @ ''%d'' @ '':'' @ ''%s'' @
     ''(): Received interrupt: '' @ ''%d'' @ '' - '' @ ''%s'' @ [NL, NL] @ frame_format @ [NL] @ ''%s''"

lemma cstr_exception_message: "k < 32 \<Longrightarrow> cstr (exception_messages ! k) = exception_messages ! k"
proof -
  assume "k < 32"
  then have "exception_messages ! k \<in> set exception_messages"
    by (intro nth_mem) (simp add: exception_messages_def)
  moreover have "\<forall>m \<in> set exception_messages. NUL \<notin> set m"
    by (simp add: exception_messages_def)
  ultimately show ?thesis by simp
qed

lemma render_exception:
  assumes "unat (isr_panic_line bld) < 2 ^ 31" and "unat idn < 32"
  shows "render exception_format
    (VStr ''src/core/isr.c'' # VInt (isr_panic_line bld) # VStr ''isr_handler'' # VInt idn #
     VStr (exception_messages ! unat idn) # frame_args stack @ [VStr []]) =
    Some (exception_text bld (unat idn) stack)"
proof -
  have fmt: "exception_format = (NL # ''PANIC in '') @ CHR ''%'' # CHR ''s'' #
    ('':'' @ CHR ''%'' # CHR ''d'' # ('':'' @ CHR ''%'' # CHR ''s'' #
    (''(): Received interrupt: '' @ CHR ''%'' # CHR ''d'' # ('' - '' @ CHR ''%'' # CHR ''s'' #
    ([NL, NL] @ frame_format @ ([NL] @ CHR ''%'' # CHR ''s'' # []))))))"
    by (simp only: exception_format_def append.simps append_assoc)
  have idn: "unat idn < 2 ^ 31" using assms(2) by simp
  show ?thesis
    unfolding fmt
    by (subst render_str, simp, subst render_dec, simp, rule assms, subst render_str, simp,
        subst render_dec, simp, rule idn, subst render_str, simp, subst render_literal, simp,
        subst render_frame, subst render_str, simp)
      (simp add: exception_text_def cstr_exception_message [OF assms(2)])
qed

lemma PANIC_exception:
  "PANIC hw ''src/core/isr.c'' l ''isr_handler''
      (''Received interrupt: %d - %s'' @ [NL, NL] @
       ''  instruction_pointer = 0x%X'' @ [NL] @ ''  code_segment        = 0x%X'' @ [NL] @
       ''  cpu_flags           = 0x%X'' @ [NL] @ ''  stack_pointer       = 0x%X'' @ [NL] @
       ''  stack_segment       = 0x%X'')
      [VInt i, VStr m, VInt (instruction_pointer stack), VInt (code_segment stack),
       VInt (cpu_flags stack), VInt (stack_pointer stack), VInt (stack_segment stack)] s =
    kernel_panic hw exception_format (VStr ''src/core/isr.c'' # VInt l # VStr ''isr_handler'' #
      VInt i # VStr m # frame_args stack @ [VStr []]) s"
  unfolding PANIC_def exception_format_def frame_format_def frame_args_def append_assoc append.simps ..

lemma isr_handler_unhandled:
  assumes "length (interrupt_handlers s) = 256" and "unat idn < 32"
    and "interrupt_handlers s ! unat idn = None" and "unat (isr_panic_line bld) < 2 ^ 31"
  shows "isr_handler hw bld idn rsp s = Inl (Halted (irq_disable (fold (screen_write hw)
    (exception_text bld (unat idn) (load_stack (mem s) (get_stack idn rsp)) @ halt_text) s)))"
proof -
  have "length exception_messages = 32" by (simp add: exception_messages_def)
  moreover have "NUL \<notin> set exception_format" by (simp add: exception_format_def frame_format_def)
  ultimately show ?thesis
    unfolding isr_handler_def Let_def PANIC_exception
    using assms kernel_panic_eq [OF render_exception [OF assms(4,2)]] by simp
qed

subsection \<open>Initialisation makes the machine ready for interrupts\<close>

lemma irq_ready_established:
  assumes "length (idt s) = 256" and "length (interrupt_handlers s) = 256"
    and "\<forall>k < 256. interrupt_handlers s ! k \<noteq> Some Timer_callback" and "freq \<noteq> 0"
  shows "\<exists>s'. (res_bind (isr_init hw bld s) (\<lambda>s. timer_init hw freq (irq_init s)) :: 's stop + _) = Inr s'
    \<and> irq_ready bld s' \<and> tick s' = tick s"
  unfolding isr_init_eq [OF assms(1,2)] res_bind_simps
  by (subst timer_init_eq)
    (use assms in \<open>auto simp: irq_init_def irq_ready_def tables_ok_def install_init_gates nth_list_update\<close>)

subsection \<open>Properties\<close>

text \<open>
  C17. \<open>isr_init\<close> programs both interrupt controllers with the ten bytes in order, fills the
  32 exception gates and the five request gates with their stubs, registers the breakpoint
  handler, loads the table register with the table's base and limit, and changes no other
  gate, handler or part of the machine.
\<close>

theorem isr_init_builds_tables:
  assumes "length (idt s) = 256" and "length (interrupt_handlers s) = 256"
  shows "\<exists>s'. isr_init hw bld s = Inr s' \<and> tables_ok bld s'
    \<and> dev s' = outs hw [(0x20, 0x11), (0xA0, 0x11), (0x21, 0x20), (0xA1, 0x28), (0x21, 0x04),
        (0xA1, 0x02), (0x21, 0x01), (0xA1, 0x01), (0x21, 0x00), (0xA1, 0x00)] (dev s)
    \<and> (\<forall>k. 37 \<le> k \<and> k < 256 \<longrightarrow> idt s' ! k = idt s ! k)
    \<and> (\<forall>k < 256. k \<noteq> 3 \<longrightarrow> interrupt_handlers s' ! k = interrupt_handlers s ! k)
    \<and> mem s' = mem s \<and> cpu_if s' = cpu_if s \<and> tick s' = tick s"
  unfolding isr_init_eq [OF assms]
  using assms by (auto simp: tables_ok_def install_init_gates pic_bytes_def)

theorem isr_init_builds_tables_witness:
  "let s = \<lparr>dev = [], mem = (\<lambda>_. 0), screen_scheme = 7, framebuffer = 0xB8000, screen_col = 0,
        screen_row = 0, idt = replicate 256 (gate_for 0), idt_reg = \<lparr>length_field = 0, base_field = 0\<rparr>,
        cpu_idtr = None, cpu_if = False, interrupt_handlers = replicate 256 None, tick = 0\<rparr>;
       bld = \<lparr>addr_idt = 0x1000, addr_isr = (\<lambda>n. 0x2000 + of_nat n), addr_irq = (\<lambda>n. 0x3000 + of_nat n),
        isr_panic_line = 141, build_date = ''Jan  1 2018'', build_time = ''00:00:00''\<rparr>
   in \<exists>s'. isr_init (log_hw (\<lambda>_. 0)) bld s = Inr s' \<and> tables_ok bld s'
    \<and> dev s' = outs (log_hw (\<lambda>_. 0)) [(0x20, 0x11), (0xA0, 0x11), (0x21, 0x20), (0xA1, 0x28), (0x21, 0x04),
        (0xA1, 0x02), (0x21, 0x01), (0xA1, 0x01), (0x21, 0x00), (0xA1, 0x00)] (dev s)
    \<and> (\<forall>k. 37 \<le> k \<and> k < 256 \<longrightarrow> idt s' ! k = idt s ! k)
    \<and> (\<forall>k < 256. k \<noteq> 3 \<longrightarrow> interrupt_handlers s' ! k = interrupt_handlers s ! k)
    \<and> mem s' = mem s \<and> cpu_if s' = cpu_if s \<and> tick s' = tick s"
  unfolding Let_def by (rule isr_init_builds_tables) simp_all

text \<open>
  An interrupt request is acknowledged before its handler runs, at the slave controller
  too when it came from there, the registered handler runs with interrupts disabled and
  returns, a request without a handler is only acknowledged, and the stub restores the interrupt
  flag.
\<close>

theorem irq_entry_acknowledges:
  assumes "length (interrupt_handlers s) = 256" and "n < 224"
  shows "irq_entry hw n rsp s = Inr (
    (let s1 = s\<lparr>cpu_if := False,
          dev := outs hw (if 8 \<le> n then [(0xA0, 0x20), (0x20, 0x20)] else [(0x20, 0x20)]) (dev s)\<rparr>
     in (case interrupt_handlers s ! (32 + unat n) of
           None \<Rightarrow> s1 | Some h \<Rightarrow> isr_effect hw h (get_stack (32 + n) rsp) s1)\<lparr>cpu_if := cpu_if s\<rparr>))"
  by (subst irq_entry_eq [OF assms], cases "8 \<le> n") (simp_all add: irq_effect_def Let_def eoi_bytes_def)

theorem irq_entry_acknowledges_witness:
  "let s = \<lparr>dev = [], mem = (\<lambda>_. 0), screen_scheme = 7, framebuffer = 0xB8000, screen_col = 0,
        screen_row = 0, idt = [], idt_reg = \<lparr>length_field = 0, base_field = 0\<rparr>,
        cpu_idtr = None, cpu_if = True, interrupt_handlers = (replicate 256 None)[32 := Some Timer_callback],
        tick = 41\<rparr>
   in irq_entry (log_hw (\<lambda>_. 0)) 0 0 s = Inr (s\<lparr>dev := [(0x20, 0x20)], tick := 42\<rparr>)"
  unfolding Let_def by (subst irq_entry_acknowledges) (simp_all add: isr_effect_def)

text \<open>
  From a state with the tables in place, interrupts enabled and the timer registered
  for line 0 only, every sequence of requests on lines 0 to 4 runs to completion in exactly
  one way, keeps these conditions, and advances the tick counter by the number of requests on
  line 0, modulo \<open>2 ^ 32\<close>.
\<close>

theorem irq_run_counts_ticks:
  assumes "irq_ready bld s" and "\<forall>(n, rsp) \<in> set irqs. n < 5"
  shows "\<exists>s'. irq_run hw irqs s s' \<and> (\<forall>s''. irq_run hw irqs s s'' \<longrightarrow> s'' = s') \<and> irq_ready bld s'
    \<and> tick s' = tick s + of_nat (length (filter (\<lambda>(n, rsp). n = 0) irqs))"
  using irq_run_eq [OF assms] fold_irq_effect [OF assms] by blast

theorem irq_run_counts_ticks_witness:
  "\<exists>s s'. (res_bind (isr_init (log_hw (\<lambda>_. 60))
        \<lparr>addr_idt = 0x1000, addr_isr = of_nat, addr_irq = of_nat, isr_panic_line = 141,
          build_date = [], build_time = []\<rparr>
        \<lparr>dev = [], mem = (\<lambda>_. 0), screen_scheme = 7, framebuffer = 0xB8000, screen_col = 0,
          screen_row = 0, idt = replicate 256 (gate_for 0),
          idt_reg = \<lparr>length_field = 0, base_field = 0\<rparr>, cpu_idtr = None, cpu_if = False,
          interrupt_handlers = replicate 256 None, tick = 0xFFFFFFFF\<rparr>)
      (\<lambda>s. timer_init (log_hw (\<lambda>_. 60)) 50 (irq_init s)) :: unit stop + _) = Inr s
    \<and> irq_run (log_hw (\<lambda>_. 60)) [(0, 0), (1, 0), (4, 0), (0, 0)] s s' \<and> tick s' = 1"
proof -
  let ?bld = "\<lparr>addr_idt = 0x1000, addr_isr = of_nat, addr_irq = of_nat, isr_panic_line = 141,
          build_date = [], build_time = []\<rparr>"
  let ?s = "\<lparr>dev = [] :: (u16 \<times> u8) list, mem = (\<lambda>_. 0), screen_scheme = 7, framebuffer = 0xB8000, screen_col = 0,
          screen_row = 0, idt = replicate 256 (gate_for 0),
          idt_reg = \<lparr>length_field = 0, base_field = 0\<rparr>, cpu_idtr = None, cpu_if = False,
          interrupt_handlers = replicate 256 None, tick = 0xFFFFFFFF\<rparr>"
  have l: "length (idt ?s) = 256" "length (interrupt_handlers ?s) = 256" by simp_all
  have f: "\<forall>k < 256. interrupt_handlers ?s ! k \<noteq> Some Timer_callback" by simp
  have nz: "(50 :: int) \<noteq> 0" by simp
  obtain s where s: "(res_bind (isr_init (log_hw (\<lambda>_. 60)) ?bld ?s)
      (\<lambda>s. timer_init (log_hw (\<lambda>_. 60)) 50 (irq_init s)) :: unit stop + _) = Inr s"
    "irq_ready ?bld s" "tick s = tick ?s"
    using irq_ready_established [OF l f nz, of "log_hw (\<lambda>_. 60)" ?bld, where ?'s = unit]
    by blast
  have t: "tick s = 0xFFFFFFFF" using s(3) by simp
  let ?irqs = "[(0, 0), (1, 0), (4, 0), (0, 0)] :: (u64 \<times> u64) list"
  have q: "\<forall>(n, rsp) \<in> set ?irqs. n < 5" by simp
  from irq_run_counts_ticks [OF s(2) q, of "log_hw (\<lambda>_. 60)"]
  obtain s' where run: "irq_run (log_hw (\<lambda>_. 60)) ?irqs s s'"
    and "tick s' = tick s + of_nat (length (filter (\<lambda>(n, rsp). n = 0) ?irqs))" by blast
  then have "tick s' = 1" by (simp add: t)
  with s(1) run show ?thesis by (intro exI conjI)
qed

text \<open>
  An exception without a handler stops the machine: the panic message names the
  exception and shows the frame the processor pushed, past the error code where there is
  one, and the kernel halts with interrupts disabled.
\<close>

theorem unhandled_exception_halts:
  assumes "length (interrupt_handlers s) = 256" and "n < 32"
    and "interrupt_handlers s ! unat n = None" and "unat (isr_panic_line bld) < 2 ^ 31"
  shows "\<exists>s'. isr_entry hw bld n rsp s = Inl (Halted s') \<and> \<not> cpu_if s'
    \<and> mem s' = mem (fold (screen_write hw)
        (exception_text bld (unat n) (load_stack (mem s)
           (rsp + 120 + (if n \<in> {8, 10, 11, 12, 13, 14, 17} then 8 else 0))) @ halt_text)
        (s\<lparr>cpu_if := False\<rparr>))"
proof -
  have n: "unat n < 32" using assms(2) by (simp add: word_less_nat_alt)
  have stack: "get_stack n rsp = rsp + 120 + (if n \<in> {8, 10, 11, 12, 13, 14, 17} then 8 else 0)"
    by (simp add: get_stack_def NB_REGISTERS_PUSHED_BEFORE_CALL_def)
  show ?thesis
    unfolding isr_entry_def
    by (subst isr_handler_unhandled) (use assms n in \<open>simp_all add: irq_disable_def stack\<close>)
qed

theorem unhandled_exception_halts_witness:
  "let s = \<lparr>dev = [], mem = (\<lambda>_. 0), screen_scheme = 7, framebuffer = 0xB8000, screen_col = 0,
        screen_row = 0, idt = [], idt_reg = \<lparr>length_field = 0, base_field = 0\<rparr>,
        cpu_idtr = None, cpu_if = True, interrupt_handlers = replicate 256 None, tick = 0\<rparr>;
       bld = \<lparr>addr_idt = 0x1000, addr_isr = (\<lambda>n. 0), addr_irq = (\<lambda>n. 0),
        isr_panic_line = 141, build_date = ''Jan  1 2018'', build_time = ''00:00:00''\<rparr>
   in \<exists>s'. isr_entry (log_hw (\<lambda>_. 0)) bld 14 0x9000 s = Inl (Halted s') \<and> \<not> cpu_if s'
    \<and> mem s' = mem (fold (screen_write (log_hw (\<lambda>_. 0)))
        (exception_text bld 14 (load_stack (mem s) 0x9080) @ halt_text) (s\<lparr>cpu_if := False\<rparr>))"
  using unhandled_exception_halts [where hw = "log_hw (\<lambda>_. 0)" and n = 14 and rsp = "0x9000" and s =
    "\<lparr>dev = [], mem = (\<lambda>_. 0), screen_scheme = 7, framebuffer = 0xB8000, screen_col = 0,
        screen_row = 0, idt = [], idt_reg = \<lparr>length_field = 0, base_field = 0\<rparr>,
        cpu_idtr = None, cpu_if = True, interrupt_handlers = replicate 256 None, tick = 0\<rparr>" and bld =
    "\<lparr>addr_idt = 0x1000, addr_isr = (\<lambda>n. 0), addr_irq = (\<lambda>n. 0),
        isr_panic_line = 141, build_date = ''Jan  1 2018'', build_time = ''00:00:00''\<rparr>"]
  by (simp add: Let_def)

end
