(* ===== verification/Check.thy ===== *)
theory Check
  imports Isr
begin

text \<open>
  The self-check of the boot (\<open>src/src/core/check.c\<close>): it waits until the timer has interrupted
  the kernel. Interrupts are the doing of the hardware, so the model takes them from a
  schedule, a parameter: \<open>arrivals n\<close> lists the requests (line number and stack pointer) that
  come up during round \<open>n\<close> of the wait loop. Each is taken at once while the interrupt flag is
  set and is not delivered while it is clear.
\<close>

type_synonym irq = "u64 \<times> u64"

definition take_irq :: "'d port_hw \<Rightarrow> irq \<Rightarrow> ('d, 'z) timer_state_scheme \<Rightarrow>
    's stop + ('d, 'z) timer_state_scheme" where
  "take_irq hw q s = (if cpu_if s then irq_entry hw (fst q) (snd q) s else Inr s)"

definition take_irqs :: "'d port_hw \<Rightarrow> irq list \<Rightarrow> ('d, 'z) timer_state_scheme \<Rightarrow>
    's stop + ('d, 'z) timer_state_scheme" where
  "take_irqs hw irqs s = fold_res (take_irq hw) irqs s"

text \<open>The loop \<^verbatim>\<open>while (tick == timer_tick()) ;\<close> from round \<open>n\<close> on; \<open>None\<close> when it never ends.\<close>

partial_function (option) wait_for_tick :: "'d port_hw \<Rightarrow> (nat \<Rightarrow> irq list) \<Rightarrow> u32 \<Rightarrow> nat \<Rightarrow>
    ('d, 'z) timer_state_scheme \<Rightarrow> ('s stop + ('d, 'z) timer_state_scheme) option" where
  "wait_for_tick hw arrivals tick0 n s =
     (if tick0 = timer_tick s then
        if isl (take_irqs hw (arrivals n) s :: 's stop + _) then Some (take_irqs hw (arrivals n) s)
        else wait_for_tick hw arrivals tick0 (Suc n) (projr (take_irqs hw (arrivals n) s :: 's stop + _))
      else Some (Inr s))"

definition check_interrupts :: "'d port_hw \<Rightarrow> (nat \<Rightarrow> irq list) \<Rightarrow> ('d, 'z) timer_state_scheme \<Rightarrow>
    's stop + ('d, 'z) timer_state_scheme" where
  "check_interrupts hw arrivals s =
     res_bind (printfk hw ''- checking interrupts... '' [] s) (\<lambda>s.
     let tick0 = timer_tick s in
     res_bind (returning (wait_for_tick hw arrivals tick0 0 s)) (\<lambda>r.
     res_bind r (\<lambda>s. printfk hw (''OK'' @ [NL]) [] s)))"

subsection \<open>Requests taken one after the other\<close>

definition lines_ok :: "irq list \<Rightarrow> bool" where
  "lines_ok irqs = list_all (\<lambda>(n, rsp). n < 5) irqs"

definition timer_requests :: "irq list \<Rightarrow> nat" where
  "timer_requests irqs = length (filter (\<lambda>(n, rsp). n = 0) irqs)"

definition irq_effects :: "'d port_hw \<Rightarrow> irq list \<Rightarrow> ('d, 'z) timer_state_scheme \<Rightarrow>
    ('d, 'z) timer_state_scheme" where
  "irq_effects hw irqs s = fold (\<lambda>(n, rsp). irq_effect hw n rsp) irqs s"

lemma lines_ok_iff: "lines_ok irqs \<longleftrightarrow> (\<forall>(n, rsp) \<in> set irqs. n < 5)"
  by (simp add: lines_ok_def list_all_iff)

lemma irq_effects_ready:
  assumes "irq_ready bld s" and "lines_ok irqs"
  shows "irq_ready bld (irq_effects hw irqs s)"
    and "tick (irq_effects hw irqs s) = tick s + of_nat (timer_requests irqs)"
  using fold_irq_effect [OF assms [unfolded lines_ok_iff], of hw]
  by (simp_all add: irq_effects_def timer_requests_def)

lemma take_irqs_ready:
  assumes "irq_ready bld s" and "lines_ok irqs"
  shows "(take_irqs hw irqs s :: 's stop + _) = Inr (irq_effects hw irqs s)"
  using assms
proof (induction irqs arbitrary: s)
  case (Cons q irqs)
  obtain n rsp where q: "q = (n, rsp)" by force
  from Cons.prems have n: "n < 5" and rest: "lines_ok irqs" by (simp_all add: q lines_ok_def)
  have "cpu_if s" using Cons.prems(1) by (simp add: irq_ready_def)
  note IH = Cons.IH [OF irq_effect_ready [OF Cons.prems(1), of hw n rsp] rest, unfolded take_irqs_def]
  show ?case
    unfolding take_irqs_def
    by (simp add: q take_irq_def \<open>cpu_if s\<close> irq_ready_step [OF Cons.prems(1) n] irq_effects_def
        IH [unfolded irq_effects_def])
qed (simp add: take_irqs_def irq_effects_def)

lemma take_irqs_disabled: "\<not> cpu_if s \<Longrightarrow> take_irqs hw irqs s = Inr s"
  unfolding take_irqs_def by (induction irqs) (simp_all add: take_irq_def)

subsection \<open>The rounds of the wait loop\<close>

primrec round :: "'d port_hw \<Rightarrow> (nat \<Rightarrow> irq list) \<Rightarrow> nat \<Rightarrow> ('d, 'z) timer_state_scheme \<Rightarrow>
    ('d, 'z) timer_state_scheme" where
  "round hw arrivals 0 s = s"
| "round hw arrivals (Suc n) s = irq_effects hw (arrivals n) (round hw arrivals n s)"

definition requests_before :: "(nat \<Rightarrow> irq list) \<Rightarrow> nat \<Rightarrow> nat" where
  "requests_before arrivals n = (\<Sum>k<n. timer_requests (arrivals k))"

lemma round_ready:
  assumes "irq_ready bld s" and "\<forall>n. lines_ok (arrivals n)"
  shows "irq_ready bld (round hw arrivals n s)
    \<and> tick (round hw arrivals n s) = tick s + of_nat (requests_before arrivals n)"
proof (induction n)
  case (Suc n)
  with irq_effects_ready [of bld "round hw arrivals n s" "arrivals n" hw] assms(2)
  show ?case by (simp add: requests_before_def)
qed (use assms in \<open>simp add: requests_before_def\<close>)

text \<open>The tick counter seen by the loop has changed, modulo the width of the counter.\<close>

definition ticked :: "(nat \<Rightarrow> irq list) \<Rightarrow> nat \<Rightarrow> bool" where
  "ticked arrivals n \<longleftrightarrow> requests_before arrivals n mod 2 ^ 32 \<noteq> 0"

lemma of_nat_u32_0_iff: "(of_nat k :: u32) = 0 \<longleftrightarrow> k mod 2 ^ 32 = 0"
proof -
  have "(of_nat k :: u32) = 0 \<longleftrightarrow> 2 ^ 32 dvd k"
    by (simp add: word_of_nat_eq_0_iff)
  then show ?thesis by (simp only: dvd_eq_mod_eq_0)
qed

lemma round_tick:
  assumes "irq_ready bld s" and "\<forall>n. lines_ok (arrivals n)"
  shows "tick s = timer_tick (round hw arrivals n s) \<longleftrightarrow> \<not> ticked arrivals n"
  using round_ready [OF assms, of hw n] of_nat_u32_0_iff [of "requests_before arrivals n"]
  by (simp add: timer_tick_def ticked_def)

lemma wait_for_tick_step:
  assumes "irq_ready bld s" and "\<forall>n. lines_ok (arrivals n)"
  shows "(wait_for_tick hw arrivals (tick s) n (round hw arrivals n s) :: ('s stop + _) option) =
    (if ticked arrivals n then Some (Inr (round hw arrivals n s))
     else wait_for_tick hw arrivals (tick s) (Suc n) (round hw arrivals (Suc n) s))"
proof -
  have "irq_ready bld (round hw arrivals n s)" using round_ready [OF assms] by blast
  note irqs = take_irqs_ready [OF this assms(2) [rule_format, of n], of hw, where ?'s = 's]
  show ?thesis by (subst wait_for_tick.simps) (simp add: irqs round_tick [OF assms])
qed

lemma wait_for_tick_ends:
  assumes "irq_ready bld s" and "\<forall>n. lines_ok (arrivals n)"
    and "ticked arrivals m" and "\<And>k. k < m \<Longrightarrow> \<not> ticked arrivals k" and "n \<le> m"
  shows "(wait_for_tick hw arrivals (tick s) n (round hw arrivals n s) :: ('s stop + _) option) =
    Some (Inr (round hw arrivals m s))"
  using assms(5)
proof (induction "m - n" arbitrary: n)
  case 0
  then have "n = m" by simp
  with assms(3) show ?case by (subst wait_for_tick_step [OF assms(1,2)]) simp
next
  case (Suc d)
  then have "n < m" "d = m - Suc n" by simp_all
  with Suc(1) [of "Suc n"] assms(4) show ?case by (subst wait_for_tick_step [OF assms(1,2)]) simp
qed

text \<open>A loop whose rounds never change the counter does not end.\<close>

lemma wait_for_tick_never:
  fixes s :: "('d, 'z) timer_state_scheme" and I :: "nat \<Rightarrow> ('d, 'z) timer_state_scheme \<Rightarrow> bool"
  assumes "I n s"
    and step: "\<And>n s. I n s \<Longrightarrow> tick0 = timer_tick s \<and>
      (\<exists>s'. (take_irqs hw (arrivals n) s :: 's stop + _) = Inr s' \<and> I (Suc n) s')"
  shows "(wait_for_tick hw arrivals tick0 n s :: ('s stop + _) option) = None"
proof (rule ccontr)
  let ?P = "\<lambda>h a k0 m t r. h = hw \<and> a = arrivals \<and> k0 = tick0 \<longrightarrow> \<not> I m t"
  assume "(wait_for_tick hw arrivals tick0 n s :: ('s stop + _) option) \<noteq> None"
  then obtain r where r: "wait_for_tick hw arrivals tick0 n s = Some (r :: 's stop + _)" by auto
  have "?P hw arrivals tick0 n s r"
  proof (rule wait_for_tick.raw_induct [where P = ?P, OF _ r], intro impI notI)
    fix wait h a k0 m t and q :: "'s stop + ('d, 'z) timer_state_scheme"
    assume IH: "\<And>h a k0 m t r. wait h a k0 m t = Some r \<Longrightarrow> ?P h a k0 m t r"
      and body: "(if k0 = timer_tick t then
        if isl (take_irqs h (a m) t :: 's stop + _) then Some (take_irqs h (a m) t)
        else wait h a k0 (Suc m) (projr (take_irqs h (a m) t :: 's stop + _)) else Some (Inr t)) = Some q"
      and eq: "h = hw \<and> a = arrivals \<and> k0 = tick0" and I: "I m t"
    obtain t' where t': "(take_irqs hw (arrivals m) t :: 's stop + _) = Inr t'" "I (Suc m) t'" "tick0 = timer_tick t"
      using step [OF I] by blast
    with body eq have "wait hw arrivals tick0 (Suc m) t' = Some q" by simp
    from IH [OF this] t'(2) show False by simp
  qed
  with assms(1) show False by simp
qed

lemma wait_for_tick_hang:
  assumes "irq_ready bld s" and "\<forall>n. lines_ok (arrivals n)" and "\<forall>n. \<not> ticked arrivals n"
  shows "(wait_for_tick hw arrivals (tick s) 0 s :: ('s stop + _) option) = None"
proof (rule wait_for_tick_never [where I = "\<lambda>n t. t = round hw arrivals n s"])
  fix n t assume t: "t = round hw arrivals n s"
  have "irq_ready bld (round hw arrivals n s)" using round_ready [OF assms(1,2)] by blast
  note irqs = take_irqs_ready [OF this assms(2) [rule_format, of n], of hw, where ?'s = 's]
  show "tick s = timer_tick t \<and> (\<exists>s'. (take_irqs hw (arrivals n) t :: 's stop + _) = Inr s'
      \<and> s' = round hw arrivals (Suc n) s)"
    using irqs assms(3) round_tick [OF assms(1,2), of hw n] by (simp add: t)
qed simp

lemma wait_for_tick_disabled:
  assumes "\<not> cpu_if s"
  shows "(wait_for_tick hw arrivals (tick s) n s :: ('s stop + _) option) = None"
  by (rule wait_for_tick_never [where I = "\<lambda>n t. t = s"])
    (simp_all add: take_irqs_disabled [OF assms] timer_tick_def)

subsection \<open>The whole check\<close>

definition checking_text :: string where "checking_text = ''- checking interrupts... ''"
definition ok_text :: string where "ok_text = ''OK'' @ [NL]"

lemma printfk_check_texts:
  "printfk hw ''- checking interrupts... '' [] s = Inr (fold (screen_write hw) checking_text s)"
  "printfk hw (''OK'' @ [NL]) [] s = Inr (fold (screen_write hw) ok_text s)"
  by (rule printfk_text; simp add: checking_text_def ok_text_def)+

lemma irq_ready_print [simp]: "irq_ready bld (fold (screen_write hw) cs s) = irq_ready bld s"
  by (simp add: irq_ready_def tables_ok_def)

lemma check_interrupts_unfold:
  "check_interrupts hw arrivals s =
    res_bind (returning (wait_for_tick hw arrivals (tick s) 0 (fold (screen_write hw) checking_text s)))
      (\<lambda>r. res_bind r (\<lambda>s. Inr (fold (screen_write hw) ok_text s)))"
  unfolding check_interrupts_def printfk_check_texts res_bind_simps Let_def
  by (simp add: timer_tick_def)

lemma check_interrupts_eq:
  fixes s :: "('d, 'z) timer_state_scheme"
  assumes "irq_ready bld s" and "\<forall>n. lines_ok (arrivals n)"
    and "ticked arrivals m" and "\<And>k. k < m \<Longrightarrow> \<not> ticked arrivals k"
  shows "(check_interrupts hw arrivals s :: 's stop + _) = Inr (fold (screen_write hw) ok_text
    (round hw arrivals m (fold (screen_write hw) checking_text s)))"
proof -
  let ?s = "fold (screen_write hw) checking_text s"
  have ready: "irq_ready bld ?s" using assms(1) by simp
  have "(wait_for_tick hw arrivals (tick s) 0 ?s :: ('s stop + _) option) = Some (Inr (round hw arrivals m ?s))"
    using wait_for_tick_ends [OF ready assms(2-4), where n = 0 and hw = hw and ?'s = 's] by simp
  then show ?thesis unfolding check_interrupts_unfold by simp
qed

lemma check_interrupts_hang:
  fixes s :: "('d, 'z) timer_state_scheme"
  assumes "irq_ready bld s" and "\<forall>n. lines_ok (arrivals n)" and "\<forall>n. \<not> ticked arrivals n"
  shows "(check_interrupts hw arrivals s :: 's stop + _) = Inl Hang"
proof -
  have "irq_ready bld (fold (screen_write hw) checking_text s)" using assms(1) by simp
  from wait_for_tick_hang [OF this assms(2,3), of hw, where ?'s = 's] show ?thesis
    unfolding check_interrupts_unfold by simp
qed

lemma check_interrupts_disabled:
  fixes s :: "('d, 'z) timer_state_scheme"
  assumes "\<not> cpu_if s"
  shows "(check_interrupts hw arrivals s :: 's stop + _) = Inl Hang"
proof -
  have "\<not> cpu_if (fold (screen_write hw) checking_text s)" using assms by simp
  from wait_for_tick_disabled [OF this, of hw arrivals 0, where ?'s = 's] show ?thesis
    unfolding check_interrupts_unfold by simp
qed

subsection \<open>Properties\<close>

text \<open>
  C12. Once interrupts are set up, \<open>check_interrupts\<close> returns if and only if the number of timer
  requests seen by some round of its loop is not a multiple of \<open>2 ^ 32\<close>: then it leaves the
  tables in place with the tick counter changed. In particular one timer request lets it
  return. Without such a round, or with interrupts disabled, it waits forever.
\<close>

theorem check_interrupts_waits_for_timer:
  assumes "irq_ready bld s" and "\<forall>n. lines_ok (arrivals n)"
  shows "(if \<exists>n. (\<Sum>k<n. timer_requests (arrivals k)) mod 2 ^ 32 \<noteq> 0
      then \<exists>s'. check_interrupts hw arrivals s = Inr s' \<and> irq_ready bld s' \<and> tick s' \<noteq> tick s
      else check_interrupts hw arrivals s = Inl Hang)
    \<and> check_interrupts hw arrivals (s\<lparr>cpu_if := False\<rparr>) = Inl Hang"
proof -
  have "\<exists>s'. check_interrupts hw arrivals s = Inr s' \<and> irq_ready bld s' \<and> tick s' \<noteq> tick s" if "ticked arrivals n" for n
  proof -
    define m where "m = (LEAST n. ticked arrivals n)"
    have m: "ticked arrivals m" unfolding m_def using that by (rule LeastI)
    have "\<not> ticked arrivals k" if "k < m" for k using that not_less_Least unfolding m_def by blast
    note eq = check_interrupts_eq [OF assms m this]
    let ?s = "fold (screen_write hw) checking_text s"
    have s: "irq_ready bld ?s" using assms(1) by simp
    from round_ready [OF s assms(2), of hw m] round_tick [OF s assms(2), of hw m] m
    show ?thesis by (subst eq) (auto simp: timer_tick_def)
  qed
  moreover have "check_interrupts hw arrivals s = Inl Hang" if "\<forall>n. \<not> ticked arrivals n"
    by (rule check_interrupts_hang [OF assms that])
  ultimately show ?thesis
    unfolding ticked_def requests_before_def by (auto intro: check_interrupts_disabled)
qed

subsection \<open>A machine with its tables in place\<close>

definition sample_build :: build where
  "sample_build = \<lparr>addr_idt = 0x1000, addr_isr = (\<lambda>_. 0x2000), addr_irq = (\<lambda>_. 0x2000),
     isr_panic_line = 141, build_date = ''Jan  1 2018'', build_time = ''00:00:00''\<rparr>"

definition sample_ready :: "'d \<Rightarrow> 'd timer_state" where
  "sample_ready d = \<lparr>dev = d, mem = (\<lambda>_. 0), screen_scheme = 7, framebuffer = 0xB8000, screen_col = 0,
     screen_row = 0, idt = replicate 256 (gate_for 0x2000), idt_reg = \<lparr>length_field = 4095, base_field = 0x1000\<rparr>,
     cpu_idtr = Some \<lparr>length_field = 4095, base_field = 0x1000\<rparr>, cpu_if = True,
     interrupt_handlers = (replicate 256 None)[3 := Some Breakpoint_handler, 32 := Some Timer_callback],
     tick = 0xFFFFFFFF\<rparr>"

lemma sample_ready_ok: "irq_ready sample_build (sample_ready d)"
  by (auto simp: irq_ready_def tables_ok_def sample_build_def sample_ready_def nth_list_update)

theorem check_interrupts_waits_for_timer_witness:
  "\<exists>s'. check_interrupts (log_hw (\<lambda>_. 0)) (\<lambda>n. if n = 3 then [(1, 0), (0, 0)] else []) (sample_ready [])
     = Inr s' \<and> irq_ready sample_build s' \<and> tick s' \<noteq> tick (sample_ready ([] :: (u16 \<times> u8) list))"
proof -
  let ?a = "\<lambda>n :: nat. if n = 3 then [(1, 0), (0, 0)] else [] :: irq list"
  have "\<forall>n. lines_ok (?a n)" by (simp add: lines_ok_def)
  note waits = check_interrupts_waits_for_timer [OF sample_ready_ok this, of "log_hw (\<lambda>_. 0)" "[]"]
  have "(\<Sum>k<4. timer_requests (?a k)) = 1"
    by (simp add: timer_requests_def lessThan_nat_numeral lessThan_Suc)
  then have "\<exists>n. (\<Sum>k<n. timer_requests (?a k)) mod 2 ^ 32 \<noteq> 0" by (intro exI [of _ 4]) simp
  then show ?thesis by (rule conjunct1 [OF waits, unfolded if_bool_eq_conj, THEN conjunct1, rule_format])
qed

end
