(* ===== verification/Cmos.thy ===== *)
theory Cmos
  imports Ports
begin

text \<open>
  The real-time clock (\<open>src/src/core/cmos.c\<close>, \<open>cmos.h\<close>): the wait for the update flag, the
  two consecutive reads that have to agree, and the conversion of what the chip holds. Both
  loops may run forever on a faulty chip; that is the result \<open>Hang\<close>.
\<close>

definition CMOS_COMMAND_PORT :: u16 where "CMOS_COMMAND_PORT = 0x70"
definition CMOS_DATA_PORT :: u16 where "CMOS_DATA_PORT = 0x71"

definition CMOS_REG_SECONDS :: u8 where "CMOS_REG_SECONDS = 0x00"
definition CMOS_REG_MINUTES :: u8 where "CMOS_REG_MINUTES = 0x02"
definition CMOS_REG_HOURS :: u8 where "CMOS_REG_HOURS = 0x04"
definition CMOS_REG_WEEKDAYS :: u8 where "CMOS_REG_WEEKDAYS = 0x06"
definition CMOS_REG_DAY :: u8 where "CMOS_REG_DAY = 0x07"
definition CMOS_REG_MONTH :: u8 where "CMOS_REG_MONTH = 0x08"
definition CMOS_REG_YEAR :: u8 where "CMOS_REG_YEAR = 0x09"
definition CMOS_REG_CENTURY :: u8 where "CMOS_REG_CENTURY = 0x32"
definition CMOS_REG_STATUS_A :: u8 where "CMOS_REG_STATUS_A = 0x0A"
definition CMOS_REG_STATUS_B :: u8 where "CMOS_REG_STATUS_B = 0x0B"

lemmas cmos_reg_defs = CMOS_REG_SECONDS_def CMOS_REG_MINUTES_def CMOS_REG_HOURS_def
  CMOS_REG_WEEKDAYS_def CMOS_REG_DAY_def CMOS_REG_MONTH_def CMOS_REG_YEAR_def CMOS_REG_CENTURY_def
  CMOS_REG_STATUS_A_def CMOS_REG_STATUS_B_def

record cmos_rtc =
  seconds :: u8
  minutes :: u8
  hours :: u8
  weekdays :: u8
  day :: u8
  month :: u8
  year :: u16
  century :: u8

subsection \<open>Reading the chip\<close>

definition update_in_progress ::
  "'d port_hw \<Rightarrow> ('d, 'z) machine_scheme \<Rightarrow> bool \<times> ('d, 'z) machine_scheme" where
  "update_in_progress hw s =
     (let s = port_byte_out hw CMOS_COMMAND_PORT CMOS_REG_STATUS_A s;
          (v, s) = port_byte_in hw CMOS_DATA_PORT s
      in (v AND 0x80 \<noteq> 0, s))"

definition read_register ::
  "'d port_hw \<Rightarrow> u8 \<Rightarrow> ('d, 'z) machine_scheme \<Rightarrow> u8 \<times> ('d, 'z) machine_scheme" where
  "read_register hw reg s =
     port_byte_in hw CMOS_DATA_PORT (port_byte_out hw CMOS_COMMAND_PORT (push_bit 7 1 OR reg) s)"

text \<open>The eight reads that fill the structure, in the order of the statements.\<close>

definition read_rtc ::
  "'d port_hw \<Rightarrow> ('d, 'z) machine_scheme \<Rightarrow> cmos_rtc \<times> ('d, 'z) machine_scheme" where
  "read_rtc hw s =
     (let (sec, s) = read_register hw CMOS_REG_SECONDS s;
          (min, s) = read_register hw CMOS_REG_MINUTES s;
          (hou, s) = read_register hw CMOS_REG_HOURS s;
          (wee, s) = read_register hw CMOS_REG_WEEKDAYS s;
          (day, s) = read_register hw CMOS_REG_DAY s;
          (mon, s) = read_register hw CMOS_REG_MONTH s;
          (yea, s) = read_register hw CMOS_REG_YEAR s;
          (cen, s) = read_register hw CMOS_REG_CENTURY s
      in (\<lparr>seconds = sec, minutes = min, hours = hou, weekdays = wee, day = day, month = mon,
           year = ucast yea, century = cen\<rparr>, s))"

definition rtc_values_are_not_equal :: "cmos_rtc \<Rightarrow> cmos_rtc \<Rightarrow> bool" where
  "rtc_values_are_not_equal c1 c2 \<longleftrightarrow>
     seconds c1 \<noteq> seconds c2 \<or> minutes c1 \<noteq> minutes c2 \<or> hours c1 \<noteq> hours c2 \<or>
     weekdays c1 \<noteq> weekdays c2 \<or> day c1 \<noteq> day c2 \<or> month c1 \<noteq> month c2 \<or>
     year c1 \<noteq> year c2 \<or> century c1 \<noteq> century c2"

text \<open>The loop that reads until two consecutive reads agree.\<close>

partial_function (option) read_until_stable ::
  "'d port_hw \<Rightarrow> cmos_rtc \<Rightarrow> ('d, 'z) machine_scheme \<Rightarrow> (cmos_rtc \<times> ('d, 'z) machine_scheme) option" where
  "read_until_stable hw prev s =
     Option.bind (spin (update_in_progress hw) s) (\<lambda>s.
       if rtc_values_are_not_equal (fst (read_rtc hw s)) prev
       then read_until_stable hw (fst (read_rtc hw s)) (snd (read_rtc hw s))
       else Some (read_rtc hw s))"

subsection \<open>Conversion\<close>

text \<open>The arithmetic is at the width of \<^verbatim>\<open>int\<close>; no value of a byte overflows it.\<close>

definition bcd_to_binary :: "u8 \<Rightarrow> u8" where
  "bcd_to_binary v = (v AND 0x0F) + (v div 16) * 10"

definition bcd_hours :: "u8 \<Rightarrow> u8" where
  "bcd_hours v = ((v AND 0x0F) + ((v AND 0x70) div 16) * 10) OR (v AND 0x80)"

definition bcd_year :: "u16 \<Rightarrow> u16" where
  "bcd_year v = (v AND 0x0F) + (v div 16) * 10"

definition from_bcd :: "cmos_rtc \<Rightarrow> cmos_rtc" where
  "from_bcd rtc =
     rtc\<lparr>seconds := bcd_to_binary (seconds rtc), minutes := bcd_to_binary (minutes rtc),
        hours := bcd_hours (hours rtc), weekdays := bcd_to_binary (weekdays rtc),
        day := bcd_to_binary (day rtc), month := bcd_to_binary (month rtc),
        year := bcd_year (year rtc), century := bcd_to_binary (century rtc)\<rparr>"

definition convert_rtc :: "u8 \<Rightarrow> cmos_rtc \<Rightarrow> cmos_rtc" where
  "convert_rtc reg_b rtc =
     (let rtc = (if reg_b AND 0x04 = 0 then from_bcd rtc else rtc);
          rtc = (if reg_b AND 0x02 = 0 \<and> hours rtc AND 0x80 \<noteq> 0
                 then rtc\<lparr>hours := ((hours rtc AND 0x7F) + 12) mod 24\<rparr> else rtc)
      in rtc\<lparr>year := year rtc + ucast (century rtc) * 100\<rparr>)"

definition cmos_read_rtc ::
  "'d port_hw \<Rightarrow> ('d, 'z) machine_scheme \<Rightarrow> 's stop + cmos_rtc \<times> ('d, 'z) machine_scheme" where
  "cmos_read_rtc hw s =
     res_bind (returning (spin (update_in_progress hw) s)) (\<lambda>s.
     let (rtc, s) = read_rtc hw s in
     res_bind (returning (read_until_stable hw rtc s)) (\<lambda>(rtc, s).
     let (reg_b, s) = read_register hw CMOS_REG_STATUS_B s
     in Inr (convert_rtc reg_b rtc, s)))"

subsection \<open>Chips that hold still\<close>

text \<open>
  A chip in a state with \<open>I\<close> holds the registers \<open>regs\<close>: selecting a register other than
  status A, with the interrupt-disable bit 7 of the index set or not, and reading it gives its
  value, and polling status A finds the update flag clear after some number of polls. All of
  this keeps \<open>I\<close>.
\<close>

definition cmos_access :: "'d port_hw \<Rightarrow> u8 \<Rightarrow> 'd \<Rightarrow> u8 \<times> 'd" where
  "cmos_access hw v d = hw_inb hw (hw_outb hw d 0x70 v) 0x71"

definition status_a_polls :: "'d port_hw \<Rightarrow> nat \<Rightarrow> 'd \<Rightarrow> 'd" where
  "status_a_polls hw n d = ((\<lambda>d. snd (cmos_access hw 0x0A d)) ^^ n) d"

definition holds_still :: "'d port_hw \<Rightarrow> ('d \<Rightarrow> bool) \<Rightarrow> (u8 \<Rightarrow> u8) \<Rightarrow> bool" where
  "holds_still hw I regs \<longleftrightarrow>
     (\<forall>d v. I d \<longrightarrow> I (snd (cmos_access hw v d))) \<and>
     (\<forall>d v. I d \<and> v AND 0x7F \<noteq> 0x0A \<longrightarrow> fst (cmos_access hw v d) = regs (v AND 0x7F)) \<and>
     (\<forall>d. I d \<longrightarrow> (\<exists>n. fst (cmos_access hw 0x0A (status_a_polls hw n d)) AND 0x80 = 0))"

definition regs_rtc :: "(u8 \<Rightarrow> u8) \<Rightarrow> cmos_rtc" where
  "regs_rtc regs = \<lparr>seconds = regs 0, minutes = regs 2, hours = regs 4, weekdays = regs 6,
     day = regs 7, month = regs 8, year = ucast (regs 9), century = regs 0x32\<rparr>"

lemma update_in_progress_eq:
  "update_in_progress hw s =
    (fst (cmos_access hw 0x0A (dev s)) AND 0x80 \<noteq> 0, s\<lparr>dev := snd (cmos_access hw 0x0A (dev s))\<rparr>)"
  by (simp add: update_in_progress_def port_byte_out_def port_byte_in_def CMOS_COMMAND_PORT_def
      CMOS_DATA_PORT_def CMOS_REG_STATUS_A_def Let_def case_prod_beta cmos_access_def)

lemma read_register_eq:
  "read_register hw reg s =
    (fst (cmos_access hw (0x80 OR reg) (dev s)), s\<lparr>dev := snd (cmos_access hw (0x80 OR reg) (dev s))\<rparr>)"
  by (simp add: read_register_def port_byte_out_def port_byte_in_def CMOS_COMMAND_PORT_def
      CMOS_DATA_PORT_def Let_def case_prod_beta cmos_access_def)

interpretation update: device_poll "update_in_progress hw" "\<lambda>d. fst (cmos_access hw 0x0A d) AND 0x80 \<noteq> 0"
  "\<lambda>d. snd (cmos_access hw 0x0A d)" for hw :: "'d port_hw"
  by unfold_locales (rule update_in_progress_eq)

lemma holds_still_access:
  assumes "holds_still hw I regs" and "I d"
  shows "I (snd (cmos_access hw v d))"
    and "v AND 0x7F \<noteq> 0x0A \<Longrightarrow> fst (cmos_access hw v d) = regs (v AND 0x7F)"
  using assms by (auto simp: holds_still_def)

lemma holds_still_polls:
  "holds_still hw I regs \<Longrightarrow> I d \<Longrightarrow> I (status_a_polls hw n d)"
  by (induction n) (auto simp: status_a_polls_def holds_still_access)

lemma holds_still_wait:
  assumes still: "holds_still hw I regs" and "I (dev s)"
  shows "\<exists>d. spin (update_in_progress hw) s = Some (s\<lparr>dev := d\<rparr>) \<and> I d"
proof -
  obtain n where n: "fst (cmos_access hw 0x0A (status_a_polls hw n (dev s))) AND 0x80 = 0"
    using assms unfolding holds_still_def by blast
  then obtain m where "spin (update_in_progress hw) s = Some (s\<lparr>dev := status_a_polls hw (Suc m) (dev s)\<rparr>)"
    using update.spin_ends [of hw n s] by (auto simp: status_a_polls_def)
  with holds_still_polls [OF still assms(2)] show ?thesis by blast
qed

lemma holds_still_register:
  assumes "holds_still hw I regs" and "I (dev s)" and "(0x80 OR reg) AND 0x7F \<noteq> 0x0A"
  obtains d where "read_register hw reg s = (regs ((0x80 OR reg) AND 0x7F), s\<lparr>dev := d\<rparr>)" and "I d"
  using assms by (auto simp: read_register_eq holds_still_access)

lemma holds_still_read:
  assumes still: "holds_still hw I regs" and "I (dev s)"
  shows "\<exists>d. read_rtc hw s = (regs_rtc regs, s\<lparr>dev := d\<rparr>) \<and> I d"
  using assms(2)
  by (simp add: read_rtc_def read_register_eq cmos_reg_defs holds_still_access [OF still] Let_def regs_rtc_def)
    (blast intro: holds_still_access(1) [OF still])

lemma rtc_not_equal_iff: "rtc_values_are_not_equal c1 c2 \<longleftrightarrow> c1 \<noteq> c2"
  by (cases c1; cases c2) (auto simp: rtc_values_are_not_equal_def)

lemma holds_still_stable:
  assumes still: "holds_still hw I regs" and "I (dev s)"
  shows "\<exists>d. read_until_stable hw (regs_rtc regs) s = Some (regs_rtc regs, s\<lparr>dev := d\<rparr>) \<and> I d"
proof -
  obtain d where d: "spin (update_in_progress hw) s = Some (s\<lparr>dev := d\<rparr>)" "I d"
    using holds_still_wait [OF assms] by blast
  obtain d' where "read_rtc hw (s\<lparr>dev := d\<rparr>) = (regs_rtc regs, s\<lparr>dev := d'\<rparr>)" "I d'"
    using holds_still_read [OF still, of "s\<lparr>dev := d\<rparr>"] d(2) by auto
  with d(1) show ?thesis
    by (subst read_until_stable.simps) (auto simp: rtc_not_equal_iff)
qed

lemma holds_still_cmos_read_rtc:
  fixes s :: "('d, 'z) machine_scheme"
  assumes still: "holds_still hw I regs" and "I (dev s)"
  shows "\<exists>d. (cmos_read_rtc hw s :: 's stop + _) = Inr (convert_rtc (regs 0x0B) (regs_rtc regs), s\<lparr>dev := d\<rparr>)"
proof -
  obtain d1 where 1: "spin (update_in_progress hw) s = Some (s\<lparr>dev := d1\<rparr>)" "I d1"
    using holds_still_wait [OF assms] by blast
  obtain d2 where 2: "read_rtc hw (s\<lparr>dev := d1\<rparr>) = (regs_rtc regs, s\<lparr>dev := d2\<rparr>)" "I d2"
    using holds_still_read [OF still, of "s\<lparr>dev := d1\<rparr>"] 1(2) by auto
  obtain d3 where 3: "read_until_stable hw (regs_rtc regs) (s\<lparr>dev := d2\<rparr>) = Some (regs_rtc regs, s\<lparr>dev := d3\<rparr>)" "I d3"
    using holds_still_stable [OF still, of "s\<lparr>dev := d2\<rparr>"] 2(2) by auto
  show ?thesis
    using 1 2 3 by (auto simp: cmos_read_rtc_def read_register_eq cmos_reg_defs holds_still_access [OF still])
qed

subsection \<open>Two reads that agree\<close>

definition read_twice :: "'d port_hw \<Rightarrow> cmos_rtc \<Rightarrow> ('d, 'z) machine_scheme \<Rightarrow> bool" where
  "read_twice hw rtc s' \<longleftrightarrow> (\<exists>s1 s2. fst (read_rtc hw s1) = rtc
     \<and> spin (update_in_progress hw) (snd (read_rtc hw s1)) = Some s2 \<and> read_rtc hw s2 = (rtc, s'))"

lemma read_until_stable_twice:
  "read_until_stable hw prev s = Some p \<Longrightarrow> (\<exists>s0. read_rtc hw s0 = (prev, s)) \<longrightarrow> read_twice hw (fst p) (snd p)"
proof (rule read_until_stable.raw_induct
    [where P = "\<lambda>hw prev s p. (\<exists>s0. read_rtc hw s0 = (prev, s)) \<longrightarrow> read_twice hw (fst p) (snd p)"])
  fix loop and hw :: "'d port_hw" and prev and s :: "('d, 'z) machine_scheme" and p
  assume IH: "\<And>hw prev s p. loop hw prev s = Some p \<Longrightarrow>
      (\<exists>s0. read_rtc hw s0 = (prev, s)) \<longrightarrow> read_twice hw (fst p) (snd p)"
    and step: "Option.bind (spin (update_in_progress hw) s) (\<lambda>s.
      if rtc_values_are_not_equal (fst (read_rtc hw s)) prev
      then loop hw (fst (read_rtc hw s)) (snd (read_rtc hw s)) else Some (read_rtc hw s)) = Some p"
  obtain s2 where s2: "spin (update_in_progress hw) s = Some s2" using step by (auto simp: bind_eq_Some_conv)
  show "(\<exists>s0. read_rtc hw s0 = (prev, s)) \<longrightarrow> read_twice hw (fst p) (snd p)"
  proof (cases "fst (read_rtc hw s2) = prev")
    case True
    with step s2 have "read_rtc hw s2 = p" by (simp add: rtc_not_equal_iff)
    with True s2 show ?thesis unfolding read_twice_def by (metis fst_conv snd_conv prod.collapse)
  next
    case False
    with step s2 have "loop hw (fst (read_rtc hw s2)) (snd (read_rtc hw s2)) = Some p"
      by (simp add: rtc_not_equal_iff)
    from IH [OF this] show ?thesis by (metis prod.collapse)
  qed
qed

subsection \<open>Chips that keep time\<close>

text \<open>
  A quiet stretch of a chip: for the next \<open>n\<close> accesses, whatever they select, the update flag is
  clear and the registers hold still. A chip \<open>settles\<close> in a state from which every sequence of
  accesses comes to a quiet stretch of 32, after finitely many; one that \<open>keeps_time\<close> settles in
  every state. That is what the data sheet of the chip gives: once a second it raises the update
  flag, changes the registers and clears the flag, within about two milliseconds, and then it is
  quiet until the next second, for as long as hundreds of thousands of accesses take. What a
  register shows while the flag is set is left open.
\<close>

fun quiet :: "'d port_hw \<Rightarrow> (u8 \<Rightarrow> u8) \<Rightarrow> nat \<Rightarrow> 'd \<Rightarrow> bool" where
  "quiet hw regs 0 d \<longleftrightarrow> True"
| "quiet hw regs (Suc n) d \<longleftrightarrow> fst (cmos_access hw 0x0A d) AND 0x80 = 0
     \<and> (\<forall>v. v AND 0x7F \<noteq> 0x0A \<longrightarrow> fst (cmos_access hw v d) = regs (v AND 0x7F))
     \<and> (\<forall>v. quiet hw regs n (snd (cmos_access hw v d)))"

inductive settles :: "'d port_hw \<Rightarrow> 'd \<Rightarrow> bool" for hw :: "'d port_hw" where
  now: "quiet hw regs 32 d \<Longrightarrow> settles hw d"
| later: "(\<And>v. settles hw (snd (cmos_access hw v d))) \<Longrightarrow> settles hw d"

definition keeps_time :: "'d port_hw \<Rightarrow> bool" where
  "keeps_time hw \<longleftrightarrow> (\<forall>d. settles hw d)"

lemma quiet_mono: "quiet hw regs n d \<Longrightarrow> k \<le> n \<Longrightarrow> quiet hw regs k d"
proof (induction n arbitrary: d k)
  case (Suc n)
  then show ?case by (cases k) auto
qed simp

lemma quiet_SucD:
  assumes "quiet hw regs (Suc n) d"
  shows "fst (cmos_access hw 0x0A d) AND 0x80 = 0" and "quiet hw regs n (snd (cmos_access hw v d))"
    and "v AND 0x7F \<noteq> 0x0A \<Longrightarrow> fst (cmos_access hw v d) = regs (v AND 0x7F)"
  using assms by auto

text \<open>The eight registers, one access after the other.\<close>

definition rtc_accesses :: "u8 list" where
  "rtc_accesses = [0x80, 0x82, 0x84, 0x86, 0x87, 0x88, 0x89, 0xB2]"

definition after_accesses :: "'d port_hw \<Rightarrow> u8 list \<Rightarrow> 'd \<Rightarrow> 'd" where
  "after_accesses hw vs d = fold (\<lambda>v d. snd (cmos_access hw v d)) vs d"

lemma after_accesses_simps [simp]:
  "after_accesses hw [] d = d" "after_accesses hw (v # vs) d = after_accesses hw vs (snd (cmos_access hw v d))"
  by (simp_all add: after_accesses_def)

lemma snd_read_rtc: "snd (read_rtc hw s) = s\<lparr>dev := after_accesses hw rtc_accesses (dev s)\<rparr>"
  by (simp add: read_rtc_def read_register_eq cmos_reg_defs rtc_accesses_def Let_def)

lemma quiet_after: "quiet hw regs (length vs + n) d \<Longrightarrow> quiet hw regs n (after_accesses hw vs d)"
  by (induction vs arbitrary: d) auto

lemma quiet_read:
  assumes "quiet hw regs 8 (dev s)"
  shows "fst (read_rtc hw s) = regs_rtc regs"
proof -
  have "quiet hw regs (Suc (Suc (Suc (Suc (Suc (Suc (Suc (Suc 0)))))))) (dev s)"
    using assms by (simp add: eval_nat_numeral)
  then show ?thesis
    by (simp add: read_rtc_def read_register_eq cmos_reg_defs Let_def regs_rtc_def)
qed

lemma read_until_stable_step:
  "read_until_stable hw prev s =
    (let d = snd (cmos_access hw 0x0A (dev s)); p = read_rtc hw (s\<lparr>dev := d\<rparr>) in
     if fst (cmos_access hw 0x0A (dev s)) AND 0x80 \<noteq> 0 then read_until_stable hw prev (s\<lparr>dev := d\<rparr>)
     else if fst p = prev then Some p else read_until_stable hw (fst p) (snd p))"
proof (cases "fst (cmos_access hw 0x0A (dev s)) AND 0x80 = 0")
  case True
  then show ?thesis
    by (subst read_until_stable.simps, subst spin_unfold)
      (simp add: update_in_progress_eq rtc_not_equal_iff Let_def)
next
  case False
  then have "spin (update_in_progress hw) s = spin (update_in_progress hw) (s\<lparr>dev := snd (cmos_access hw 0x0A (dev s))\<rparr>)"
    by (subst spin_unfold) (simp add: update_in_progress_eq)
  with False show ?thesis
    by (subst (1 2) read_until_stable.simps) (simp add: Let_def)
qed

lemma quiet_stable:
  assumes "quiet hw regs 24 (dev s)"
  shows "\<exists>rtc d. read_until_stable hw prev s = Some (rtc, s\<lparr>dev := d\<rparr>)"
proof -
  let ?d = "\<lambda>d. snd (cmos_access hw 0x0A d)" let ?r = "after_accesses hw rtc_accesses"
  let ?d1 = "?d (dev s)" let ?d2 = "?r ?d1" let ?d3 = "?d ?d2"
  have len: "length rtc_accesses = 8" by (simp add: rtc_accesses_def)
  have q0: "quiet hw regs (Suc 23) (dev s)" using assms by simp
  have q1: "quiet hw regs 23 ?d1" by (rule quiet_SucD(2) [OF q0])
  have q2: "quiet hw regs (Suc 14) ?d2" using quiet_after [of hw regs rtc_accesses 15 ?d1] q1 len by simp
  have q3: "quiet hw regs 14 ?d3" by (rule quiet_SucD(2) [OF q2])
  have r1: "read_rtc hw (s\<lparr>dev := ?d1\<rparr>) = (regs_rtc regs, s\<lparr>dev := ?d2\<rparr>)"
    using quiet_read [of hw regs "s\<lparr>dev := ?d1\<rparr>"] quiet_mono [OF q1, of 8] snd_read_rtc [of hw "s\<lparr>dev := ?d1\<rparr>"]
    by (simp add: prod_eq_iff)
  have r2: "read_rtc hw (s\<lparr>dev := ?d3\<rparr>) = (regs_rtc regs, s\<lparr>dev := ?r ?d3\<rparr>)"
    using quiet_read [of hw regs "s\<lparr>dev := ?d3\<rparr>"] quiet_mono [OF q3, of 8] snd_read_rtc [of hw "s\<lparr>dev := ?d3\<rparr>"]
    by (simp add: prod_eq_iff)
  have "read_until_stable hw (regs_rtc regs) (s\<lparr>dev := ?d2\<rparr>) = Some (regs_rtc regs, s\<lparr>dev := ?r ?d3\<rparr>)"
    by (subst read_until_stable_step) (simp add: Let_def quiet_SucD(1) [OF q2] r2)
  then show ?thesis
    by (subst read_until_stable_step) (auto simp: Let_def quiet_SucD(1) [OF q0] r1)
qed

lemma settles_stable:
  "settles hw d \<Longrightarrow> length vs \<le> 8 \<Longrightarrow> dev s = after_accesses hw vs d \<Longrightarrow>
    \<exists>rtc d'. read_until_stable hw prev s = Some (rtc, s\<lparr>dev := d'\<rparr>)"
proof (induction arbitrary: vs prev s rule: settles.induct)
  case (now regs d)
  have "quiet hw regs (32 - length vs) (dev s)"
    using now quiet_after [of hw regs vs "32 - length vs" d] by simp
  then have "quiet hw regs 24 (dev s)" by (rule quiet_mono) (use now in simp)
  then show ?case by (rule quiet_stable)
next
  case (later d)
  show ?case
  proof (cases vs)
    case (Cons v ws)
    then show ?thesis using later.IH [of ws s v] later.prems by simp
  next
    case Nil
    let ?d = "snd (cmos_access hw 0x0A d)"
    have d: "dev s = d" using Nil later.prems by simp
    have "\<exists>rtc d'. read_until_stable hw prev (s\<lparr>dev := ?d\<rparr>) = Some (rtc, s\<lparr>dev := d'\<rparr>)" for prev
      using later.IH [of "[]" "s\<lparr>dev := ?d\<rparr>" "0x0A"] by simp
    moreover have "\<exists>rtc d'. read_until_stable hw prev (s\<lparr>dev := after_accesses hw rtc_accesses ?d\<rparr>) = Some (rtc, s\<lparr>dev := d'\<rparr>)" for prev
      using later.IH [of rtc_accesses "s\<lparr>dev := after_accesses hw rtc_accesses ?d\<rparr>" "0x0A"] by (simp add: rtc_accesses_def)
    ultimately show ?thesis
      by (subst read_until_stable_step) (auto simp: Let_def d snd_read_rtc prod_eq_iff)
  qed
qed

lemma keeps_time_stable:
  "keeps_time hw \<Longrightarrow> \<exists>rtc d. read_until_stable hw prev s = Some (rtc, s\<lparr>dev := d\<rparr>)"
  using settles_stable [of hw "dev s" "[]" s prev] by (simp add: keeps_time_def)

lemma keeps_time_wait:
  assumes "keeps_time hw"
  shows "\<exists>d. spin (update_in_progress hw) s = Some (s\<lparr>dev := d\<rparr>)"
proof -
  obtain s' where "spin (update_in_progress hw) s = Some s'"
    using keeps_time_stable [OF assms, of undefined s] by (subst (asm) read_until_stable.simps) (auto simp: bind_eq_Some_conv)
  then show ?thesis by (auto simp: update.spin_device split: if_splits)
qed

text \<open>
  On a chip that keeps time \<open>cmos_read_rtc\<close> returns: no update of the registers can keep the loop
  that waits for two equal reads from ending.
\<close>

lemma keeps_time_cmos_read_rtc:
  fixes s :: "('d, 'z) machine_scheme"
  assumes "keeps_time hw"
  shows "\<exists>rtc d. (cmos_read_rtc hw s :: 's stop + _) = Inr (rtc, s\<lparr>dev := d\<rparr>)"
proof -
  obtain d1 where 1: "spin (update_in_progress hw) s = Some (s\<lparr>dev := d1\<rparr>)"
    using keeps_time_wait [OF assms] by blast
  let ?p = "read_rtc hw (s\<lparr>dev := d1\<rparr>)"
  obtain rtc d2 where 2: "read_until_stable hw (fst ?p) (snd ?p) = Some (rtc, s\<lparr>dev := d2\<rparr>)"
    using keeps_time_stable [OF assms, of "fst ?p" "snd ?p"] by (auto simp: snd_read_rtc)
  show ?thesis using 1 2 by (auto simp: cmos_read_rtc_def case_prod_beta read_register_eq)
qed

text \<open>
  A chip for the witnesses that ticks: its state is the selected register and the number of
  reads so far. The seconds advance every 64 reads, and during the last four of them the update
  flag is set and the registers show nothing of use.
\<close>

definition ticking_chip :: "(u8 \<times> nat) port_hw" where
  "ticking_chip = \<lparr>hw_inb = \<lambda>d p. if p = 0x71 then
       (if fst d AND 0x7F = 0x0A then (if snd d mod 64 < 60 then 0 else 0x80)
        else if snd d mod 64 < 60 then (if fst d AND 0x7F = 0 then of_nat (snd d div 64) else 0) else 0xFF,
        (fst d, Suc (snd d))) else (0, d),
     hw_outb = \<lambda>d p v. if p = 0x70 then (v, snd d) else d,
     hw_inw = \<lambda>d p. (0, d), hw_outw = \<lambda>d p v. d\<rparr>"

lemma ticking_access:
  "cmos_access ticking_chip v d =
    (if v AND 0x7F = 0x0A then (if snd d mod 64 < 60 then 0 else 0x80)
     else if snd d mod 64 < 60 then (if v AND 0x7F = 0 then of_nat (snd d div 64) else 0) else 0xFF, (v, Suc (snd d)))"
  by (simp add: cmos_access_def ticking_chip_def)

lemma ticking_quiet:
  "snd d mod 64 + n \<le> 60 \<Longrightarrow> snd d div 64 = q \<Longrightarrow>
    quiet ticking_chip (\<lambda>r. if r = 0 then of_nat q else 0) n d"
proof (induction n arbitrary: d)
  case (Suc n)
  then have "snd d mod 64 < 60" by simp
  moreover from this have "Suc (snd d) mod 64 = Suc (snd d mod 64)" "Suc (snd d) div 64 = q"
    using Suc.prems by (simp_all add: mod_Suc div_Suc)
  ultimately show ?case using Suc.prems Suc.IH by (simp add: ticking_access)
qed simp

lemma ticking_settles: "settles ticking_chip d"
proof (induction "63 - snd d mod 64" arbitrary: d rule: less_induct)
  case less
  have m: "snd d mod 64 < 64" by simp
  have start: "settles ticking_chip d" if "snd d mod 64 = 0" for d
    by (rule settles.now [OF ticking_quiet]) (use that in simp_all)
  show ?case
  proof (rule settles.later)
    fix v
    have step: "snd (cmos_access ticking_chip v d) = (v, Suc (snd d))" by (simp add: ticking_access)
    show "settles ticking_chip (snd (cmos_access ticking_chip v d))"
    proof (cases "snd d mod 64 = 63")
      case True
      then show ?thesis by (intro start) (simp add: step mod_Suc)
    next
      case False
      then have "63 - Suc (snd d) mod 64 < 63 - snd d mod 64" using m by (simp add: mod_Suc)
      then show ?thesis unfolding step by (intro less) simp
    qed
  qed
qed

lemma ticking_keeps_time: "keeps_time ticking_chip"
  by (simp add: keeps_time_def ticking_settles)

subsection \<open>Dates in the formats of the chip\<close>

text \<open>
  A date and time as numbers, and the registers of a chip that shows it: in binary or in
  decimal digits (status B bit 2), with hours from 0 to 23 or from 1 to 12 with the
  afternoon flag in bit 7 (status B bit 1).
\<close>

record datetime =
  sec' :: nat
  min' :: nat
  hour' :: nat
  wday' :: nat
  mday' :: nat
  mon' :: nat
  year' :: nat

definition datetime_ok :: "datetime \<Rightarrow> bool" where
  "datetime_ok t \<longleftrightarrow> sec' t < 60 \<and> min' t < 60 \<and> hour' t < 24 \<and> wday' t < 8 \<and> mday' t < 32 \<and> mon' t < 13
     \<and> year' t < 10000"

definition enc :: "bool \<Rightarrow> nat \<Rightarrow> u8" where
  "enc bin n = (if bin then of_nat n else of_nat (16 * (n div 10) + n mod 10))"

definition enc_hours :: "bool \<Rightarrow> bool \<Rightarrow> nat \<Rightarrow> u8" where
  "enc_hours bin h24 h =
     (if h24 then enc bin h
      else enc bin (if h mod 12 = 0 then 12 else h mod 12) OR (if 12 \<le> h then 0x80 else 0))"

definition displays :: "bool \<Rightarrow> bool \<Rightarrow> datetime \<Rightarrow> (u8 \<Rightarrow> u8) \<Rightarrow> bool" where
  "displays bin h24 t regs \<longleftrightarrow>
     regs 0 = enc bin (sec' t) \<and> regs 2 = enc bin (min' t) \<and> regs 4 = enc_hours bin h24 (hour' t)
     \<and> regs 6 = enc bin (wday' t) \<and> regs 7 = enc bin (mday' t) \<and> regs 8 = enc bin (mon' t)
     \<and> regs 9 = enc bin (year' t mod 100) \<and> regs 0x32 = enc bin (year' t div 100)
     \<and> (regs 0x0B AND 0x04 \<noteq> 0 \<longleftrightarrow> bin) \<and> (regs 0x0B AND 0x02 \<noteq> 0 \<longleftrightarrow> h24)"

definition rtc_of :: "datetime \<Rightarrow> cmos_rtc" where
  "rtc_of t = \<lparr>seconds = of_nat (sec' t), minutes = of_nat (min' t), hours = of_nat (hour' t),
     weekdays = of_nat (wday' t), day = of_nat (mday' t), month = of_nat (mon' t),
     year = of_nat (year' t), century = of_nat (year' t div 100)\<rparr>"

text \<open>The hours that the code gets right: with a 12-hour clock, all but the two twelve o'clocks.\<close>

definition hour_read :: "bool \<Rightarrow> nat \<Rightarrow> nat" where
  "hour_read h24 h = (if h24 then h else if h = 0 then 12 else if h = 12 then 0 else h)"

lemma all_below_100: "(\<forall>n < 100. P n) \<longleftrightarrow> (\<forall>n \<in> set [0..<100]. P n)"
  by auto

lemma bcd_enc: "n < 100 \<Longrightarrow> bcd_to_binary (enc False n) = of_nat n"
proof -
  have "\<forall>n \<in> set [0..<100]. bcd_to_binary (enc False n) = of_nat n" by code_simp
  then show "n < 100 \<Longrightarrow> bcd_to_binary (enc False n) = of_nat n" by auto
qed

lemma bcd_year_enc: "n < 100 \<Longrightarrow> bcd_year (ucast (enc False n)) = of_nat n"
proof -
  have "\<forall>n \<in> set [0..<100]. bcd_year (ucast (enc False n)) = of_nat n" by code_simp
  then show "n < 100 \<Longrightarrow> bcd_year (ucast (enc False n)) = of_nat n" by auto
qed

lemma enc_True [simp]: "enc True n = of_nat n"
  by (simp add: enc_def)

definition hours_of :: "bool \<Rightarrow> bool \<Rightarrow> u8 \<Rightarrow> u8" where
  "hours_of bin h24 v =
     (let v = (if bin then v else bcd_hours v)
      in if \<not> h24 \<and> v AND 0x80 \<noteq> 0 then ((v AND 0x7F) + 12) mod 24 else v)"

lemma hours_of_enc: "h < 24 \<Longrightarrow> hours_of bin h24 (enc_hours bin h24 h) = of_nat (hour_read h24 h)"
proof -
  have "\<forall>bin \<in> set [False, True]. \<forall>h24 \<in> set [False, True]. \<forall>h \<in> set [0..<24].
    hours_of bin h24 (enc_hours bin h24 h) = of_nat (hour_read h24 h)" by code_simp
  then show "h < 24 \<Longrightarrow> hours_of bin h24 (enc_hours bin h24 h) = of_nat (hour_read h24 h)"
    by (cases bin; cases h24) auto
qed

lemma full_year:
  assumes "y < 10000"
  shows "(of_nat (y mod 100) :: u16) + ucast (of_nat (y div 100) :: u8) * 100 = of_nat y"
proof -
  have "y div 100 < 256" using assms by simp
  then have "(ucast (of_nat (y div 100) :: u8) :: u16) = of_nat (y div 100)"
    by (simp add: word_eq_iff_unsigned [where ?'a = nat] unsigned_ucast_eq unat_of_nat take_bit_nat_eq_self)
  then have "(of_nat (y mod 100) :: u16) + ucast (of_nat (y div 100) :: u8) * 100 =
      of_nat (y mod 100 + y div 100 * 100)" by (simp only: of_nat_add of_nat_mult of_nat_numeral)
  then show ?thesis by simp
qed

lemma convert_rtc_eq:
  assumes "rb AND 0x04 \<noteq> 0 \<longleftrightarrow> bin" and "rb AND 0x02 \<noteq> 0 \<longleftrightarrow> h24"
  shows "convert_rtc rb rtc = (let conv = (\<lambda>v. if bin then v else bcd_to_binary v) in
    \<lparr>seconds = conv (seconds rtc), minutes = conv (minutes rtc), hours = hours_of bin h24 (hours rtc),
     weekdays = conv (weekdays rtc), day = conv (day rtc), month = conv (month rtc),
     year = (if bin then year rtc else bcd_year (year rtc)) + ucast (conv (century rtc)) * 100,
     century = conv (century rtc)\<rparr>)"
  using assms by (cases bin; cases h24; cases rtc) (simp_all add: convert_rtc_def from_bcd_def hours_of_def Let_def)

lemma conv_enc: "n < 100 \<Longrightarrow> (if bin then enc bin n else bcd_to_binary (enc bin n)) = of_nat n"
  by (cases bin) (simp_all add: bcd_enc)

lemma conv_year_enc: "n < 100 \<Longrightarrow> (if bin then ucast (enc bin n) else bcd_year (ucast (enc bin n))) = (of_nat n :: u16)"
  by (cases bin) (simp_all add: bcd_year_enc word_eq_iff_unsigned [where ?'a = nat] unsigned_ucast_eq unat_of_nat
      take_bit_nat_eq_self)

lemma convert_rtc_displays:
  assumes ok: "datetime_ok t" and shown: "displays bin h24 t regs"
  shows "convert_rtc (regs 0x0B) (regs_rtc regs) = (rtc_of t)\<lparr>hours := of_nat (hour_read h24 (hour' t))\<rparr>"
proof -
  have mode: "regs 0x0B AND 0x04 \<noteq> 0 \<longleftrightarrow> bin" "regs 0x0B AND 0x02 \<noteq> 0 \<longleftrightarrow> h24"
    using shown by (simp_all add: displays_def)
  have regs: "regs_rtc regs = \<lparr>seconds = enc bin (sec' t), minutes = enc bin (min' t), hours = enc_hours bin h24 (hour' t),
      weekdays = enc bin (wday' t), day = enc bin (mday' t), month = enc bin (mon' t),
      year = ucast (enc bin (year' t mod 100)), century = enc bin (year' t div 100)\<rparr>"
    using shown by (simp add: displays_def regs_rtc_def)
  have small: "sec' t < 100" "min' t < 100" "wday' t < 100" "mday' t < 100" "mon' t < 100"
    "year' t mod 100 < 100" "year' t div 100 < 100" "hour' t < 24" "year' t < 10000"
    using ok by (simp_all add: datetime_ok_def div_less_iff_less_mult)
  show ?thesis
    unfolding convert_rtc_eq [OF mode] regs Let_def cmos_rtc.select_convs
    by (simp only: conv_enc conv_year_enc small hours_of_enc full_year rtc_of_def cmos_rtc.update_convs)
qed


subsection \<open>Properties\<close>

text \<open>
  C21. On a chip that holds still and whose update flag clears in finite time,
  \<open>cmos_read_rtc\<close> returns, and in every one of the four formats it returns the date and time
  the chip shows, with the century joined to the year; the exception are the two twelve
  o'clocks of a 12-hour clock (\<open>hour_read\<close>).
\<close>

theorem cmos_read_rtc_correct:
  fixes s :: "('d, 'z) machine_scheme"
  assumes "holds_still hw I regs" and "I (dev s)" and "datetime_ok t" and "displays bin h24 t regs"
  shows "\<exists>d. (cmos_read_rtc hw s :: 's stop + _) =
    Inr ((rtc_of t)\<lparr>hours := of_nat (hour_read h24 (hour' t))\<rparr>, s\<lparr>dev := d\<rparr>)"
  using holds_still_cmos_read_rtc [OF assms(1,2)] convert_rtc_displays [OF assms(3,4)] by simp

text \<open>A chip for the witnesses: the selected register, and registers that never change.\<close>

definition rtc_chip :: "(u8 \<Rightarrow> u8) \<Rightarrow> u8 port_hw" where
  "rtc_chip regs = \<lparr>hw_inb = \<lambda>d p. (regs (d AND 0x7F), d), hw_outb = \<lambda>d p v. v,
     hw_inw = \<lambda>d p. (0, d), hw_outw = \<lambda>d p v. d\<rparr>"

lemma rtc_chip_still: "regs 0x0A AND 0x80 = 0 \<Longrightarrow> holds_still (rtc_chip regs) (\<lambda>_. True) regs"
  by (simp add: holds_still_def rtc_chip_def cmos_access_def)

theorem cmos_read_rtc_correct_witness:
  "\<exists>d. (cmos_read_rtc (rtc_chip (\<lambda>r. if r = 4 then 0x91 else if r = 9 then 0x18 else if r = 0x32 then 0x20
      else if r = 0x0A \<or> r = 0x0B then 0 else 0x05)) \<lparr>dev = 0, mem = (\<lambda>_. 0)\<rparr> :: unit stop + _) =
    Inr (\<lparr>seconds = 5, minutes = 5, hours = 23, weekdays = 5, day = 5, month = 5, year = 2018, century = 20\<rparr>,
      \<lparr>dev = d, mem = (\<lambda>_. 0)\<rparr>)"
proof -
  let ?regs = "\<lambda>r :: u8. if r = 4 then 0x91 else if r = 9 then 0x18 else if r = 0x32 then 0x20
      else if r = 0x0A \<or> r = 0x0B then 0 else (0x05 :: u8)"
  let ?t = "\<lparr>sec' = 5, min' = 5, hour' = 23, wday' = 5, mday' = 5, mon' = 5, year' = 2018\<rparr>"
  have "holds_still (rtc_chip ?regs) (\<lambda>_. True) ?regs" by (rule rtc_chip_still) simp
  moreover have "datetime_ok ?t" by (simp add: datetime_ok_def)
  moreover have "displays False False ?t ?regs" by (simp add: displays_def enc_def enc_hours_def)
  ultimately show ?thesis
    using cmos_read_rtc_correct [of "rtc_chip ?regs" "\<lambda>_. True" ?regs "\<lparr>dev = 0, mem = (\<lambda>_. 0)\<rparr>" ?t False False,
        where ?'s = unit]
    by (simp add: rtc_of_def hour_read_def)
qed

text \<open>
  C22. Whatever the chip does, a date that \<open>cmos_read_rtc\<close> returns comes from two consecutive
  reads of all eight registers that gave the same values, the second after the update flag
  was found clear.
\<close>

theorem cmos_read_rtc_consistent:
  fixes s :: "('d, 'z) machine_scheme"
  assumes "(cmos_read_rtc hw s :: 's stop + _) = Inr (rtc, s')"
  shows "\<exists>s1 s2 s3 snap. fst (read_rtc hw s1) = snap
    \<and> spin (update_in_progress hw) (snd (read_rtc hw s1)) = Some s2 \<and> read_rtc hw s2 = (snap, s3)
    \<and> rtc = convert_rtc (fst (read_register hw CMOS_REG_STATUS_B s3)) snap
    \<and> s' = snd (read_register hw CMOS_REG_STATUS_B s3)"
proof -
  obtain s0 p where p: "read_until_stable hw (fst (read_rtc hw s0)) (snd (read_rtc hw s0)) = Some p"
    "rtc = convert_rtc (fst (read_register hw CMOS_REG_STATUS_B (snd p))) (fst p)"
    "s' = snd (read_register hw CMOS_REG_STATUS_B (snd p))"
    using assms by (auto simp: cmos_read_rtc_def res_bind_Inr_iff case_prod_beta Let_def)
  have "read_twice hw (fst p) (snd p)"
    using read_until_stable_twice [OF p(1)] by (metis prod.collapse)
  with p(2,3) show ?thesis unfolding read_twice_def by blast
qed

theorem cmos_read_rtc_consistent_witness:
  "\<exists>rtc s'. (cmos_read_rtc (rtc_chip (\<lambda>_. 0)) \<lparr>dev = 0, mem = (\<lambda>_. 0)\<rparr> :: unit stop + _) = Inr (rtc, s')
    \<and> (\<exists>s1 s2 s3 snap. fst (read_rtc (rtc_chip (\<lambda>_. 0)) s1) = snap
    \<and> spin (update_in_progress (rtc_chip (\<lambda>_. 0))) (snd (read_rtc (rtc_chip (\<lambda>_. 0)) s1)) = Some s2
    \<and> read_rtc (rtc_chip (\<lambda>_. 0)) s2 = (snap, s3)
    \<and> rtc = convert_rtc (fst (read_register (rtc_chip (\<lambda>_. 0)) CMOS_REG_STATUS_B s3)) snap
    \<and> s' = snd (read_register (rtc_chip (\<lambda>_. 0)) CMOS_REG_STATUS_B s3))"
proof -
  have "holds_still (rtc_chip (\<lambda>_. 0)) (\<lambda>_. True) (\<lambda>_. 0)" by (rule rtc_chip_still) simp
  from holds_still_cmos_read_rtc [OF this, of "\<lparr>dev = 0, mem = (\<lambda>_. 0)\<rparr>", where ?'s = unit]
  obtain rtc s' where "(cmos_read_rtc (rtc_chip (\<lambda>_. 0)) \<lparr>dev = 0, mem = (\<lambda>_. 0)\<rparr> :: unit stop + _) = Inr (rtc, s')"
    by blast
  with cmos_read_rtc_consistent [OF this] show ?thesis by blast
qed

text \<open>
  C23. On a chip that keeps time, whose registers and update flag change once a second and are quiet
  in between, \<open>cmos_read_rtc\<close> returns, wherever in the second it is called: it waits for an update to
  end, and a read that an update falls into is followed by two that agree.
\<close>

theorem cmos_read_rtc_returns:
  fixes s :: "('d, 'z) machine_scheme"
  assumes "keeps_time hw"
  shows "\<exists>rtc d. (cmos_read_rtc hw s :: 's stop + _) = Inr (rtc, s\<lparr>dev := d\<rparr>)"
  by (rule keeps_time_cmos_read_rtc [OF assms])

theorem cmos_read_rtc_returns_witness:
  "fst (cmos_access ticking_chip 0x0A (0, 62)) AND 0x80 \<noteq> 0
    \<and> (\<exists>rtc d. (cmos_read_rtc ticking_chip \<lparr>dev = (0, 62), mem = (\<lambda>_. 0)\<rparr> :: unit stop + _) =
      Inr (rtc, \<lparr>dev = d, mem = (\<lambda>_. 0)\<rparr>))"
  using cmos_read_rtc_returns [OF ticking_keeps_time, of "\<lparr>dev = (0, 62), mem = (\<lambda>_. 0)\<rparr>", where ?'s = unit]
  by (simp add: ticking_access)

text \<open>
  A 12-hour clock is read wrongly at its two twelve o'clocks: noon, shown as 12 with the
  afternoon flag, is returned as hour 0, and midnight, shown as 12 without it, as hour 12.
\<close>

theorem twelve_o_clock_misread:
  "\<forall>bin. hours (convert_rtc (if bin then 0x04 else 0x00) ((rtc_of t)\<lparr>hours := enc_hours bin False 12\<rparr>)) = 0
    \<and> hours (convert_rtc (if bin then 0x04 else 0x00) ((rtc_of t)\<lparr>hours := enc_hours bin False 0\<rparr>)) = 12"
  by (simp add: convert_rtc_def from_bcd_def rtc_of_def enc_hours_def enc_def bcd_hours_def all_bool_eq Let_def)

end
