(* ===== verification/Boot.thy ===== *)
theory Boot
  imports Printfk
begin

text \<open>
  The information the boot loader passes (\<open>src/src/core/boot.c\<close>, \<open>boot.h\<close>). The structures
  are read from memory where they lie, field by field, at the offsets of the packed structs; a
  walk over tags or entries whose size fields do not advance it never ends, which is \<open>None\<close>.
  \<^verbatim>\<open>DEBUG\<close> expands to nothing, as in the default build.
\<close>

definition MULTIBOOT2_MAGIC_VALUE :: u64 where "MULTIBOOT2_MAGIC_VALUE = 0x36d76289"
definition MULTIBOOT_TAG_TYPE_END :: u32 where "MULTIBOOT_TAG_TYPE_END = 0"
definition MULTIBOOT_TAG_TYPE_MMAP :: u32 where "MULTIBOOT_TAG_TYPE_MMAP = 6"
definition MULTIBOOT_TAG_TYPE_ELF_SECTIONS :: u32 where "MULTIBOOT_TAG_TYPE_ELF_SECTIONS = 9"
definition MULTIBOOT_MEMORY_RESERVED :: u32 where "MULTIBOOT_MEMORY_RESERVED = 2"
definition MULTIBOOT_ELF_SECTION_TYPE_NULL :: u32 where "MULTIBOOT_ELF_SECTION_TYPE_NULL = 0"

subsection \<open>The structures in memory\<close>

definition tag_type :: "bytes \<Rightarrow> u64 \<Rightarrow> u32" where "tag_type m tag = load32 m tag"
definition tag_size :: "bytes \<Rightarrow> u64 \<Rightarrow> u32" where "tag_size m tag = load32 m (tag + 4)"

definition mbi_tags :: "u64 \<Rightarrow> u64" where "mbi_tags mbi = mbi + 8"

definition mmap_entry_size :: "bytes \<Rightarrow> u64 \<Rightarrow> u32" where "mmap_entry_size m tag = load32 m (tag + 8)"
definition mmap_entries :: "u64 \<Rightarrow> u64" where "mmap_entries tag = tag + 16"
definition entry_addr :: "bytes \<Rightarrow> u64 \<Rightarrow> u64" where "entry_addr m e = load64 m e"
definition entry_len :: "bytes \<Rightarrow> u64 \<Rightarrow> u64" where "entry_len m e = load64 m (e + 8)"
definition entry_type :: "bytes \<Rightarrow> u64 \<Rightarrow> u32" where "entry_type m e = load32 m (e + 16)"

definition elf_num :: "bytes \<Rightarrow> u64 \<Rightarrow> u32" where "elf_num m tag = load32 m (tag + 8)"
definition elf_section_size :: "bytes \<Rightarrow> u64 \<Rightarrow> u32" where "elf_section_size m tag = load32 m (tag + 12)"
definition elf_sections :: "u64 \<Rightarrow> u64" where "elf_sections tag = tag + 20"
definition section_type :: "bytes \<Rightarrow> u64 \<Rightarrow> u32" where "section_type m e = load32 m (e + 4)"
definition section_addr :: "bytes \<Rightarrow> u64 \<Rightarrow> u64" where "section_addr m e = load64 m (e + 16)"
definition section_size :: "bytes \<Rightarrow> u64 \<Rightarrow> u64" where "section_size m e = load64 m (e + 32)"

record reserved_areas =
  kernel_start :: u64
  kernel_end :: u64
  multiboot_start :: u64
  multiboot_end :: u64

subsection \<open>Operations\<close>

definition multiboot_is_valid :: "'d port_hw \<Rightarrow> u64 \<Rightarrow> u64 \<Rightarrow> ('d, 'z) screen_state_scheme \<Rightarrow>
    's stop + bool \<times> ('d, 'z) screen_state_scheme" where
  "multiboot_is_valid hw magic addr s =
     (if magic \<noteq> MULTIBOOT2_MAGIC_VALUE then
        res_bind (printfk hw ''Invalid magic value: 0x%x'' [VInt magic] s) (\<lambda>s. Inr (False, s))
      else if addr AND 7 \<noteq> 0 then
        res_bind (printfk hw ''Unaligned MBI: 0x%x'' [VInt addr] s) (\<lambda>s. Inr (False, s))
      else Inr (True, s))"

text \<open>The step from a tag to the next: the size is rounded up to 8 at 32 bits.\<close>

definition next_tag :: "bytes \<Rightarrow> u64 \<Rightarrow> u64" where
  "next_tag m tag = tag + ucast ((tag_size m tag + 7) AND NOT 7)"

partial_function (option) find_multiboot_tag :: "bytes \<Rightarrow> u64 \<Rightarrow> u16 \<Rightarrow> u64 option" where
  "find_multiboot_tag m tag type =
     (if tag_type m tag = MULTIBOOT_TAG_TYPE_END then Some 0
      else if tag_type m tag = ucast type then Some tag
      else find_multiboot_tag m (next_tag m tag) type)"

text \<open>The loop over the entries of a memory map, whose body only calls \<^verbatim>\<open>DEBUG\<close>.\<close>

partial_function (option) mmap_debug_loop :: "bytes \<Rightarrow> u64 \<Rightarrow> u64 \<Rightarrow> unit option" where
  "mmap_debug_loop m tag mmap =
     (if mmap < tag + ucast (tag_size m tag)
      then mmap_debug_loop m tag (mmap + ucast (mmap_entry_size m tag))
      else Some ())"

definition elf_section :: "bytes \<Rightarrow> u64 \<Rightarrow> reserved_areas \<Rightarrow> reserved_areas" where
  "elf_section m elf r =
     (if section_type m elf = MULTIBOOT_ELF_SECTION_TYPE_NULL then r
      else
        let r = (if section_addr m elf < kernel_start r then r\<lparr>kernel_start := section_addr m elf\<rparr> else r)
        in if section_addr m elf + section_size m elf > kernel_end r
           then let r = r\<lparr>kernel_end := section_addr m elf\<rparr>
                in r\<lparr>kernel_end := kernel_end r + section_size m elf\<rparr>
           else r)"

text \<open>The loop over the section headers; the first argument counts the headers still to read.\<close>

primrec elf_loop :: "nat \<Rightarrow> bytes \<Rightarrow> u64 \<Rightarrow> u64 \<Rightarrow> reserved_areas \<Rightarrow> reserved_areas" where
  "elf_loop 0 m tag elf r = r"
| "elf_loop (Suc n) m tag elf r =
     elf_loop n m tag (elf + ucast (elf_section_size m tag)) (elf_section m elf r)"

definition read_tag :: "bytes \<Rightarrow> u64 \<Rightarrow> reserved_areas \<Rightarrow> reserved_areas option" where
  "read_tag m tag r =
     (if tag_type m tag = MULTIBOOT_TAG_TYPE_MMAP
      then Option.bind (mmap_debug_loop m tag (mmap_entries tag)) (\<lambda>_. Some r)
      else if tag_type m tag = MULTIBOOT_TAG_TYPE_ELF_SECTIONS
      then Some (elf_loop (unat (elf_num m tag)) m tag (elf_sections tag) r)
      else Some r)"

partial_function (option) read_tags :: "bytes \<Rightarrow> u64 \<Rightarrow> reserved_areas \<Rightarrow> (u64 \<times> reserved_areas) option" where
  "read_tags m tag r =
     (if tag_type m tag = MULTIBOOT_TAG_TYPE_END then Some (tag, r)
      else Option.bind (read_tag m tag r) (\<lambda>r. read_tags m (next_tag m tag) r))"

definition read_multiboot_info :: "bytes \<Rightarrow> u64 \<Rightarrow> 's stop + reserved_areas" where
  "read_multiboot_info m mbi =
     res_bind (returning (read_tags m (mbi_tags mbi)
       \<lparr>kernel_start = - 1, kernel_end = 0, multiboot_start = mbi, multiboot_end = 0\<rparr>)) (\<lambda>(tag, r).
     Inr (r\<lparr>multiboot_end := next_tag m tag\<rparr>))"

subsection \<open>The walk over the tags\<close>

text \<open>
  Where the specification of the loader puts the tag after one: its size rounded up to a multiple
  of 8 further on. (At 32 bits, a size of less than 8 below \<open>2 ^ 32\<close> is rounded to 0.)
\<close>

definition tag_after :: "bytes \<Rightarrow> u64 \<Rightarrow> u64" where
  "tag_after m t = t + of_nat (8 * ((unat (tag_size m t) + 7) div 8) mod 2 ^ 32)"

text \<open>
  \<open>tags_at m a ts e\<close>: the tags from address \<open>a\<close> on lie at the addresses \<open>ts\<close>, and the end tag
  at \<open>e\<close>.
\<close>

fun tags_at :: "bytes \<Rightarrow> u64 \<Rightarrow> u64 list \<Rightarrow> u64 \<Rightarrow> bool" where
  "tags_at m a [] e \<longleftrightarrow> e = a \<and> tag_type m a = MULTIBOOT_TAG_TYPE_END"
| "tags_at m a (t # ts) e \<longleftrightarrow>
     t = a \<and> tag_type m a \<noteq> MULTIBOOT_TAG_TYPE_END \<and> tags_at m (tag_after m a) ts e"

lemma unat_ucast_u32 [simp]: "unat (ucast (x :: u32) :: u64) = unat x"
proof -
  have "unat x < 2 ^ 32" using unsigned_less [of x, where ?'a = nat] by simp
  then show ?thesis by (simp add: unsigned_ucast_eq take_bit_nat_eq_self)
qed

lemma and_NOT_7: "(v :: u32) AND NOT 7 = 8 * (v div 8)"
proof -
  have "v AND NOT 7 = push_bit 3 (drop_bit 3 v)"
  proof (rule bit_eqI)
    fix k assume k: "possible_bit TYPE(u32) k"
    have "bit (7 :: u32) k \<longleftrightarrow> k < 3"
      using k bit_mask_iff [of 3 k, where ?'a = u32] by (simp add: mask_eq_exp_minus_1)
    then have "bit (NOT 7 :: u32) k \<longleftrightarrow> 3 \<le> k" using k by (simp only: bit_not_iff) (simp add: not_less)
    with k show "bit (v AND NOT 7) k = bit (push_bit 3 (drop_bit 3 v)) k"
      by (auto simp: bit_and_iff bit_not_iff bit_push_bit_iff bit_drop_bit_eq)
  qed
  then show ?thesis by (simp add: push_bit_eq_mult drop_bit_eq_div mult.commute)
qed

lemma round_up_8: "unat (((v :: u32) + 7) AND NOT 7) = 8 * ((unat v + 7) div 8) mod 2 ^ 32"
proof -
  let ?w = "v + 7" and ?x = "unat v + 7"
  have "?x mod (8 * 2 ^ 29) = 8 * (?x div 8 mod 2 ^ 29) + ?x mod 8" by (rule mod_mult2_eq)
  then have "(?x mod 2 ^ 32) div 8 = ?x div 8 mod 2 ^ 29" by simp
  moreover have "unat ?w = ?x mod 2 ^ 32" by (simp add: unat_word_ariths)
  ultimately have d: "unat ?w div 8 = ?x div 8 mod 2 ^ 29" by simp
  have "8 * (unat ?w div 8) < 2 ^ 32"
    using unsigned_less [of ?w, where ?'a = nat] by (simp add: mult.commute)
  then have "unat (8 * (?w div 8)) = 8 * (unat ?w div 8)"
    by (subst unat_mult_lem [THEN iffD1]) (simp_all add: unat_div)
  also have "\<dots> = 8 * (?x div 8) mod (8 * 2 ^ 29)" unfolding d by (rule mult_mod_right)
  finally show ?thesis unfolding and_NOT_7 by simp
qed

text \<open>The code steps from a tag to the one after it.\<close>

lemma next_tag_after: "next_tag m t = tag_after m t"
proof -
  have "(ucast ((tag_size m t + 7) AND NOT 7) :: u64) = of_nat (unat ((tag_size m t + 7) AND NOT 7))"
    by (simp add: unsigned_ucast_eq)
  then show ?thesis unfolding next_tag_def tag_after_def round_up_8 by simp
qed

lemma find_multiboot_tag_walk:
  "tags_at m a ts e \<Longrightarrow> find_multiboot_tag m a ty =
    Some (case find (\<lambda>t. tag_type m t = ucast ty) ts of None \<Rightarrow> 0 | Some t \<Rightarrow> t)"
  by (induction ts arbitrary: a) (subst find_multiboot_tag.simps, auto simp: next_tag_after)+

subsection \<open>Memory maps\<close>

text \<open>
  A map whose walk ends: entries of a size above zero, and no wrap-around at the end of the
  address space.
\<close>

definition mmap_ok :: "bytes \<Rightarrow> u64 \<Rightarrow> bool" where
  "mmap_ok m tag \<longleftrightarrow> 0 < mmap_entry_size m tag
     \<and> unat tag + unat (tag_size m tag) + unat (mmap_entry_size m tag) < 2 ^ 64"

lemma mmap_ok_step:
  assumes "mmap_ok m tag" and "x < tag + ucast (tag_size m tag)"
  shows "unat (x + ucast (mmap_entry_size m tag)) = unat x + unat (mmap_entry_size m tag)"
    and "unat (tag + ucast (tag_size m tag)) = unat tag + unat (tag_size m tag)"
proof -
  have t: "unat (tag + ucast (tag_size m tag)) = unat tag + unat (tag_size m tag)"
    using assms(1) by (subst unat_add_lem [THEN iffD1]) (simp_all add: mmap_ok_def)
  then show "unat (tag + ucast (tag_size m tag)) = unat tag + unat (tag_size m tag)" .
  have "unat x < unat tag + unat (tag_size m tag)" using assms(2) t by (simp add: word_less_nat_alt)
  then show "unat (x + ucast (mmap_entry_size m tag)) = unat x + unat (mmap_entry_size m tag)"
    using assms(1) by (subst unat_add_lem [THEN iffD1]) (simp_all add: mmap_ok_def)
qed

lemma mmap_debug_loop_ends:
  assumes "mmap_ok m tag"
  shows "mmap_debug_loop m tag x = Some ()"
proof (induction "unat tag + unat (tag_size m tag) - unat x" arbitrary: x rule: less_induct)
  case less
  show ?case
  proof (cases "x < tag + ucast (tag_size m tag)")
    case True
    have "0 < unat (mmap_entry_size m tag)" using assms by (simp add: mmap_ok_def word_less_nat_alt)
    moreover have "unat x < unat tag + unat (tag_size m tag)"
      using True mmap_ok_step(2) [OF assms True] by (simp add: word_less_nat_alt)
    ultimately have "mmap_debug_loop m tag (x + ucast (mmap_entry_size m tag)) = Some ()"
      using mmap_ok_step(1) [OF assms True] by (intro less) simp
    with True show ?thesis by (subst mmap_debug_loop.simps) simp
  qed (subst mmap_debug_loop.simps, simp)
qed

subsection \<open>The extent of the kernel\<close>

definition sections_of :: "bytes \<Rightarrow> u64 \<Rightarrow> u64 list" where
  "sections_of m tag =
     map (\<lambda>i. elf_sections tag + of_nat i * ucast (elf_section_size m tag)) [0..<unat (elf_num m tag)]"

definition live_sections :: "bytes \<Rightarrow> u64 list \<Rightarrow> u64 list" where
  "live_sections m ts = filter (\<lambda>e. section_type m e \<noteq> MULTIBOOT_ELF_SECTION_TYPE_NULL)
     (concat (map (sections_of m) (filter (\<lambda>t. tag_type m t = MULTIBOOT_TAG_TYPE_ELF_SECTIONS) ts)))"

lemma elf_loop_fold:
  "elf_loop n m tag elf r =
    fold (elf_section m) (map (\<lambda>i. elf + of_nat i * ucast (elf_section_size m tag)) [0..<n]) r"
proof (induction n arbitrary: elf r)
  case (Suc n)
  have "map (\<lambda>i. elf + of_nat i * ucast (elf_section_size m tag)) [0..<Suc n] =
    elf # map (\<lambda>i. elf + ucast (elf_section_size m tag) + of_nat i * ucast (elf_section_size m tag)) [0..<n]"
    unfolding upt_conv_Cons [OF zero_less_Suc] by (simp add: map_Suc_upt [symmetric] algebra_simps del: upt_Suc)
  then show ?case by (simp add: Suc.IH del: upt_Suc)
qed simp

text \<open>
  A memory map is walkable when one of the addresses that its entries lead to, the size of an
  entry apart and modulo \<open>2 ^ 64\<close>, is not below the end of its tag.
\<close>

definition walkable :: "bytes \<Rightarrow> u64 \<Rightarrow> bool" where
  "walkable m tag \<longleftrightarrow> tag_type m tag = MULTIBOOT_TAG_TYPE_MMAP \<longrightarrow>
     (\<exists>n. tag + ucast (tag_size m tag) \<le> mmap_entries tag + of_nat n * ucast (mmap_entry_size m tag))"

lemma mmap_debug_loop_reaches:
  "tag + ucast (tag_size m tag) \<le> x + of_nat n * ucast (mmap_entry_size m tag) \<Longrightarrow> mmap_debug_loop m tag x = Some ()"
proof (induction n arbitrary: x)
  case 0
  then show ?case by (subst mmap_debug_loop.simps) (simp add: leD)
next
  case (Suc n)
  then have "mmap_debug_loop m tag (x + ucast (mmap_entry_size m tag)) = Some ()"
    by (intro Suc.IH) (simp add: algebra_simps)
  then show ?case by (subst mmap_debug_loop.simps) simp
qed

lemma mmap_debug_loop_returned:
  "mmap_debug_loop m tag x = Some u \<Longrightarrow>
    \<exists>n. tag + ucast (tag_size m tag) \<le> x + of_nat n * ucast (mmap_entry_size m tag)"
proof (rule mmap_debug_loop.raw_induct [where P = "\<lambda>m tag x u.
    \<exists>n. tag + ucast (tag_size m tag) \<le> x + of_nat n * ucast (mmap_entry_size m tag)"])
  fix loop m tag x u
  assume IH: "\<And>m tag x u. loop m tag x = Some u \<Longrightarrow>
      \<exists>n. tag + ucast (tag_size m tag) \<le> x + of_nat n * ucast (mmap_entry_size m tag)"
    and step: "(if x < tag + ucast (tag_size m tag) then loop m tag (x + ucast (mmap_entry_size m tag)) else Some ()) = Some u"
  show "\<exists>n. tag + ucast (tag_size m tag) \<le> x + of_nat n * ucast (mmap_entry_size m tag)"
  proof (cases "x < tag + ucast (tag_size m tag)")
    case True
    with IH [of m tag "x + ucast (mmap_entry_size m tag)" u] step obtain n where
      "tag + ucast (tag_size m tag) \<le> (x + ucast (mmap_entry_size m tag)) + of_nat n * ucast (mmap_entry_size m tag)"
      by auto
    then show ?thesis by (intro exI [of _ "Suc n"]) (simp add: algebra_simps)
  qed (intro exI [of _ 0], simp)
qed

lemma walkable_loop:
  "walkable m tag \<longleftrightarrow> (tag_type m tag = MULTIBOOT_TAG_TYPE_MMAP \<longrightarrow> mmap_debug_loop m tag (mmap_entries tag) = Some ())"
  unfolding walkable_def using mmap_debug_loop_reaches mmap_debug_loop_returned by blast

lemma mmap_ok_walkable: "mmap_ok m tag \<Longrightarrow> walkable m tag"
  by (simp add: walkable_loop mmap_debug_loop_ends)

lemma read_tag_sections:
  "walkable m tag \<Longrightarrow> read_tag m tag r =
    Some (if tag_type m tag = MULTIBOOT_TAG_TYPE_ELF_SECTIONS
          then fold (elf_section m) (sections_of m tag) r else r)"
  by (auto simp: read_tag_def walkable_loop elf_loop_fold sections_of_def MULTIBOOT_TAG_TYPE_MMAP_def
      MULTIBOOT_TAG_TYPE_ELF_SECTIONS_def)

lemma read_tags_walk:
  assumes "tags_at m a ts e" and "\<forall>t \<in> set ts. walkable m t"
  shows "read_tags m a r = Some (e, fold (elf_section m)
    (concat (map (sections_of m) (filter (\<lambda>t. tag_type m t = MULTIBOOT_TAG_TYPE_ELF_SECTIONS) ts))) r)"
  using assms
proof (induction ts arbitrary: a r)
  case Nil
  then show ?case by (subst read_tags.simps) simp
next
  case (Cons t ts)
  then have "read_tag m a r = Some (if tag_type m a = MULTIBOOT_TAG_TYPE_ELF_SECTIONS
          then fold (elf_section m) (sections_of m a) r else r)"
    by (intro read_tag_sections) auto
  with Cons show ?case by (subst read_tags.simps) (auto simp: next_tag_after)
qed

lemma read_tag_walkable: "read_tag m tag r = Some r' \<Longrightarrow> walkable m tag"
  by (auto simp: read_tag_def walkable_loop bind_eq_Some_conv)

lemma read_tags_tags_at:
  "read_tags m a r = Some p \<Longrightarrow> \<exists>ts. tags_at m a ts (fst p) \<and> (\<forall>t \<in> set ts. walkable m t)"
proof (rule read_tags.raw_induct
    [where P = "\<lambda>m a r p. \<exists>ts. tags_at m a ts (fst p) \<and> (\<forall>t \<in> set ts. walkable m t)"])
  fix loop m a r p
  assume IH: "\<And>m a r p. loop m a r = Some p \<Longrightarrow> \<exists>ts. tags_at m a ts (fst p) \<and> (\<forall>t \<in> set ts. walkable m t)"
    and step: "(if tag_type m a = MULTIBOOT_TAG_TYPE_END then Some (a, r)
      else Option.bind (read_tag m a r) (\<lambda>r. loop m (next_tag m a) r)) = Some p"
  show "\<exists>ts. tags_at m a ts (fst p) \<and> (\<forall>t \<in> set ts. walkable m t)"
  proof (cases "tag_type m a = MULTIBOOT_TAG_TYPE_END")
    case True
    with step have "tags_at m a [] (fst p)" by auto
    then show ?thesis by (intro exI [of _ "[]"]) simp
  next
    case False
    with step obtain r' where r': "read_tag m a r = Some r'" "loop m (next_tag m a) r' = Some p"
      by (auto simp: bind_eq_Some_conv)
    obtain ts where "tags_at m (next_tag m a) ts (fst p)" "\<forall>t \<in> set ts. walkable m t"
      using IH [OF r'(2)] by blast
    with False read_tag_walkable [OF r'(1)]
    have "tags_at m a (a # ts) (fst p) \<and> (\<forall>t \<in> set (a # ts). walkable m t)" by (simp add: next_tag_after)
    then show ?thesis ..
  qed
qed

lemma fold_elf_section_null:
  "fold (elf_section m) es r =
    fold (elf_section m) (filter (\<lambda>e. section_type m e \<noteq> MULTIBOOT_ELF_SECTION_TYPE_NULL) es) r"
  by (induction es arbitrary: r) (auto simp: elf_section_def)

lemma fold_elf_section_bounds:
  assumes "\<forall>e \<in> set es. section_type m e \<noteq> MULTIBOOT_ELF_SECTION_TYPE_NULL"
  shows "fold (elf_section m) es r = r\<lparr>
    kernel_start := fold min (map (section_addr m) es) (kernel_start r),
    kernel_end := fold max (map (\<lambda>e. section_addr m e + section_size m e) es) (kernel_end r)\<rparr>"
  using assms
proof (induction es arbitrary: r)
  case (Cons e es)
  have "elf_section m e r = r\<lparr>kernel_start := min (section_addr m e) (kernel_start r),
      kernel_end := max (section_addr m e + section_size m e) (kernel_end r)\<rparr>"
    using Cons.prems by (cases r) (auto simp: elf_section_def Let_def min_def max_def)
  with Cons show ?case by simp
qed simp

lemma read_multiboot_info_eq:
  assumes "tags_at m (mbi_tags mbi) ts e"
    and "\<forall>t \<in> set ts. walkable m t"
  shows "read_multiboot_info m mbi = Inr \<lparr>
    kernel_start = Min (insert (- 1) (section_addr m ` set (live_sections m ts))),
    kernel_end = Max (insert 0 ((\<lambda>e. section_addr m e + section_size m e) ` set (live_sections m ts))),
    multiboot_start = mbi, multiboot_end = tag_after m e\<rparr>"
proof -
  have "\<forall>e \<in> set (live_sections m ts). section_type m e \<noteq> MULTIBOOT_ELF_SECTION_TYPE_NULL"
    by (simp add: live_sections_def)
  note bounds = fold_elf_section_bounds [OF this]
  have "fold min (map (section_addr m) (live_sections m ts)) (- 1) =
      Min (insert (- 1) (section_addr m ` set (live_sections m ts)))"
    using Min.set_eq_fold [of "- 1" "map (section_addr m) (live_sections m ts)"] by simp
  moreover have "fold max (map (\<lambda>e. section_addr m e + section_size m e) (live_sections m ts)) 0 =
      Max (insert 0 ((\<lambda>e. section_addr m e + section_size m e) ` set (live_sections m ts)))"
    using Max.set_eq_fold [of 0 "map (\<lambda>e. section_addr m e + section_size m e) (live_sections m ts)"] by simp
  ultimately show ?thesis
    unfolding read_multiboot_info_def read_tags_walk [OF assms]
    by (subst fold_elf_section_null) (simp add: bounds next_tag_after flip: live_sections_def)
qed

subsection \<open>Encoded boot information\<close>

text \<open>
  The other direction: a list of tags, each a type and a payload, as the bytes a boot loader
  puts in memory, every tag padded to a multiple of 8 bytes.
\<close>

definition le32 :: "u32 \<Rightarrow> u8 list" where
  "le32 v = [ucast v, ucast (drop_bit 8 v), ucast (drop_bit 16 v), ucast (drop_bit 24 v)]"

definition bytes_at :: "bytes \<Rightarrow> u64 \<Rightarrow> u8 list \<Rightarrow> bool" where
  "bytes_at m a xs \<longleftrightarrow> (\<forall>i < length xs. m (a + of_nat i) = xs ! i)"

definition encode_tag :: "u32 \<times> u8 list \<Rightarrow> u8 list" where
  "encode_tag t = le32 (fst t) @ le32 (of_nat (8 + length (snd t))) @ snd t @
     replicate ((8 - length (snd t) mod 8) mod 8) 0"

definition encode_tags :: "(u32 \<times> u8 list) list \<Rightarrow> u8 list" where
  "encode_tags ts = concat (map encode_tag ts) @ le32 MULTIBOOT_TAG_TYPE_END @ le32 8"

definition tag_ok :: "u32 \<times> u8 list \<Rightarrow> bool" where
  "tag_ok t \<longleftrightarrow> fst t \<noteq> MULTIBOOT_TAG_TYPE_END \<and> int (length (snd t)) < 2 ^ 32 - 15"

fun tag_addresses :: "u64 \<Rightarrow> (u32 \<times> u8 list) list \<Rightarrow> u64 list" where
  "tag_addresses a [] = []"
| "tag_addresses a (t # ts) = a # tag_addresses (a + of_nat (length (encode_tag t))) ts"

lemma length_le32 [simp]: "length (le32 v) = 4"
  by (simp add: le32_def)

lemma bytes_at_append:
  "bytes_at m a (xs @ ys) \<longleftrightarrow> bytes_at m a xs \<and> bytes_at m (a + of_nat (length xs)) ys"
proof -
  have "(\<forall>i < length (xs @ ys). m (a + of_nat i) = (xs @ ys) ! i) \<longleftrightarrow>
    (\<forall>i < length xs. m (a + of_nat i) = xs ! i) \<and>
    (\<forall>i < length ys. m (a + of_nat (length xs + i)) = (xs @ ys) ! (length xs + i))" (is "?l \<longleftrightarrow> ?r")
  proof
    assume ?l
    then show ?r by (auto simp: nth_append simp del: of_nat_add)
  next
    assume r: ?r
    show ?l
    proof (intro allI impI)
      fix i assume "i < length (xs @ ys)"
      then show "m (a + of_nat i) = (xs @ ys) ! i"
        using r by (cases "i < length xs") (auto simp: nth_append dest: spec [of _ "i - length xs"])
    qed
  qed
  then show ?thesis by (simp add: bytes_at_def add.assoc)
qed

lemma load32_le32: "bytes_at m a (le32 v) \<Longrightarrow> load32 m a = v"
proof -
  assume at: "bytes_at m a (le32 v)"
  have byte: "m (a + of_nat i) = le32 v ! i" if "i < 4" for i
    using at that by (simp add: bytes_at_def)
  have "m a = ucast v" "m (a + 1) = ucast (drop_bit 8 v)" "m (a + 2) = ucast (drop_bit 16 v)"
    "m (a + 3) = ucast (drop_bit 24 v)"
    using byte [of 0] byte [of 1] byte [of 2] byte [of 3] by (simp_all add: le32_def)
  then have "load32 m a = load32 (store32 m a v) a"
    by (simp only: load32_def store32_def) simp
  then show ?thesis by simp
qed

lemma pad_to_8: "8 + l + (8 - l mod 8) mod 8 = 8 * ((8 + l + 7) div (8 :: nat))"
proof -
  define q r where "q = l div 8" and "r = l mod 8"
  then have l: "l = 8 * q + r" "r < 8" by simp_all
  have "8 + l + 7 = (r + 7) + 8 * (q + 1)" using l(1) by simp
  then have "(8 + l + 7) div 8 = (r + 7) div 8 + (q + 1)" by (simp only: div_mult_self2)
  moreover have "(r + 7) div 8 = (if r = 0 then 0 else 1)"
    using l(2) by (auto intro: div_nat_eqI)
  moreover have "(8 - r) mod 8 = (if r = 0 then 0 else 8 - r)" using l(2) by simp
  ultimately show ?thesis unfolding r_def [symmetric] using l by auto
qed

lemma length_encode_tag: "length (encode_tag t) = 8 * ((8 + length (snd t) + 7) div 8)"
proof -
  have "length (encode_tag t) = 8 + length (snd t) + (8 - length (snd t) mod 8) mod 8"
    by (simp add: encode_tag_def)
  also have "\<dots> = 8 * ((8 + length (snd t) + 7) div 8)" by (rule pad_to_8)
  finally show ?thesis .
qed

lemma encoded_tag:
  assumes "bytes_at m a (encode_tag t)" and "tag_ok t"
  shows "tag_type m a = fst t" and "unat (tag_size m a) = 8 + length (snd t)"
    and "tag_after m a = a + of_nat (length (encode_tag t))" and "bytes_at m (a + 8) (snd t)"
proof -
  have parts: "bytes_at m a (le32 (fst t))" "bytes_at m (a + 4) (le32 (of_nat (8 + length (snd t))))"
    and "bytes_at m (a + 8) (snd t)"
    using assms(1) by (simp_all add: encode_tag_def bytes_at_append add.assoc)
  then show "tag_type m a = fst t" "bytes_at m (a + 8) (snd t)"
    by (simp_all add: tag_type_def load32_le32)
  have len: "8 + length (snd t) + 7 < 2 ^ 32" using assms(2) by (simp add: tag_ok_def)
  have size: "tag_size m a = of_nat (8 + length (snd t))"
    using parts(2) by (simp only: tag_size_def load32_le32)
  then show "unat (tag_size m a) = 8 + length (snd t)" using len by (simp only: unat_of_nat) simp
  then show "tag_after m a = a + of_nat (length (encode_tag t))"
    using len by (simp add: tag_after_def length_encode_tag)
qed

lemma tags_at_encoded:
  assumes "bytes_at m a (encode_tags ts)" and "\<forall>t \<in> set ts. tag_ok t"
  shows "tags_at m a (tag_addresses a ts) (a + of_nat (length (concat (map encode_tag ts))))"
  using assms
proof (induction ts arbitrary: a)
  case Nil
  then show ?case by (simp add: encode_tags_def bytes_at_append tag_type_def load32_le32)
next
  case (Cons t ts)
  have "bytes_at m a (encode_tag t)" "bytes_at m (a + of_nat (length (encode_tag t))) (encode_tags ts)"
    using Cons.prems(1) by (simp_all add: encode_tags_def bytes_at_append)
  note at = this
  have ok: "tag_ok t" "\<forall>t \<in> set ts. tag_ok t" using Cons.prems(2) by simp_all
  show ?case
    using encoded_tag(1,3) [OF at(1) ok(1)] Cons.IH [OF at(2) ok(2)] ok(1)
    by (simp add: tag_ok_def add.assoc)
qed

lemma encoded_tag_types:
  assumes "bytes_at m a (encode_tags ts)" and "\<forall>t \<in> set ts. tag_ok t"
  shows "map (tag_type m) (tag_addresses a ts) = map fst ts"
  using assms
proof (induction ts arbitrary: a)
  case (Cons t ts)
  have "bytes_at m a (encode_tag t)" "bytes_at m (a + of_nat (length (encode_tag t))) (encode_tags ts)"
    using Cons.prems(1) by (simp_all add: encode_tags_def bytes_at_append)
  with encoded_tag(1) [of m a t] Cons show ?case by auto
qed simp

lemma find_first:
  assumes "length as = length ts" and "\<And>i. i < length as \<Longrightarrow> P (as ! i) \<longleftrightarrow> Q (ts ! i)"
    and "ts = pre @ t # post" and "\<forall>u \<in> set pre. \<not> Q u" and "Q t"
  shows "find P as = Some (as ! length pre)"
proof -
  have "\<forall>j < length pre. \<not> P (as ! j)" using assms by (auto simp: nth_append)
  moreover have "P (as ! length pre)" "length pre < length as" using assms by auto
  ultimately show ?thesis by (auto simp: find_Some_iff)
qed

lemma length_tag_addresses [simp]: "length (tag_addresses a ts) = length ts"
  by (induction ts arbitrary: a) simp_all

lemma nth_tag_addresses:
  "tag_addresses a (pre @ t # post) ! length pre = a + of_nat (length (concat (map encode_tag pre)))"
  by (induction pre arbitrary: a) (simp_all add: add.assoc)

lemma addr_AND_7: "(a :: u64) AND 7 = 0 \<longleftrightarrow> 8 dvd unat a"
proof -
  have "a AND 7 = take_bit 3 a" by (simp add: take_bit_eq_mask mask_eq_exp_minus_1)
  moreover have "take_bit 3 a = 0 \<longleftrightarrow> unat (take_bit 3 a) = 0" by (simp only: unsigned_eq_0_iff)
  moreover have "unat (take_bit 3 a) = unat a mod 8"
    by (simp only: unsigned_take_bit_eq) (simp add: take_bit_eq_mod)
  ultimately show ?thesis by (simp add: dvd_eq_mod_eq_0)
qed

subsection \<open>Properties\<close>

text \<open>
  C24. On the bytes of an encoded list of tags, \<open>find_multiboot_tag\<close> returns the address of
  the first tag of the given type, where its payload lies, and the null pointer when there is
  none.
\<close>

theorem find_multiboot_tag_roundtrip:
  assumes "bytes_at m a (encode_tags ts)" and "\<forall>t \<in> set ts. tag_ok t"
  shows "(ts = pre @ (ucast ty, p) # post \<and> ucast ty \<notin> fst ` set pre \<longrightarrow>
      (let t = a + of_nat (length (concat (map encode_tag pre)))
       in find_multiboot_tag m a ty = Some t \<and> bytes_at m (t + 8) p))
    \<and> (ucast ty \<notin> fst ` set ts \<longrightarrow> find_multiboot_tag m a ty = Some 0)"
proof -
  note walk = find_multiboot_tag_walk [OF tags_at_encoded [OF assms], where ty = ty]
  have types: "tag_type m (tag_addresses a ts ! i) = fst (ts ! i)" if "i < length ts" for i
    using arg_cong [OF encoded_tag_types [OF assms], of "\<lambda>xs. xs ! i"] that by simp
  have "find_multiboot_tag m a ty = Some 0" if none: "ucast ty \<notin> fst ` set ts"
  proof -
    have "tag_type m t \<noteq> ucast ty" if "t \<in> set (tag_addresses a ts)" for t
      using that none types by (force simp: in_set_conv_nth)
    then show ?thesis unfolding walk by (simp add: find_None_iff [THEN iffD2])
  qed
  moreover have "find_multiboot_tag m a ty = Some t \<and> bytes_at m (t + 8) p"
    if ts: "ts = pre @ (ucast ty, p) # post" and "ucast ty \<notin> fst ` set pre"
      and t: "t = a + of_nat (length (concat (map encode_tag pre)))" for t
  proof -
    have "find (\<lambda>t. tag_type m t = ucast ty) (tag_addresses a ts) = Some (tag_addresses a ts ! length pre)"
      by (rule find_first [OF _ _ ts, where Q = "\<lambda>t. fst t = ucast ty"]) (use that types in force)+
    then have "find_multiboot_tag m a ty = Some t" unfolding walk by (simp add: ts nth_tag_addresses t)
    moreover have "bytes_at m t (encode_tag (ucast ty, p))"
      using assms(1) by (simp add: ts encode_tags_def bytes_at_append t)
    ultimately show ?thesis using encoded_tag(4) [of m t "(ucast ty, p)"] assms(2) ts by simp
  qed
  ultimately show ?thesis by (simp add: Let_def)
qed

theorem find_multiboot_tag_roundtrip_witness:
  "let m = (\<lambda>x :: u64. if x < 40 then (encode_tags [(1, [0x61]), (6, [7, 8])]) ! unat x else 0)
   in find_multiboot_tag m 0 6 = Some 16 \<and> bytes_at m 24 [7, 8] \<and> find_multiboot_tag m 0 9 = Some 0"
proof -
  let ?ts = "[(1, [0x61]), (6, [7, 8])] :: (u32 \<times> u8 list) list"
  let ?m = "\<lambda>x :: u64. if x < 40 then (encode_tags ?ts) ! unat x else 0"
  have len: "length (encode_tags ?ts) = 40" by (simp add: encode_tags_def encode_tag_def)
  have at: "bytes_at ?m 0 (encode_tags ?ts)"
    unfolding bytes_at_def len by (auto simp: word_less_nat_alt unat_of_nat)
  have ok: "\<forall>t \<in> set ?ts. tag_ok t" by (simp add: tag_ok_def MULTIBOOT_TAG_TYPE_END_def)
  show ?thesis
    using find_multiboot_tag_roundtrip [OF at ok, of "[(1, [0x61])]" 6 "[7, 8]" "[]"]
      find_multiboot_tag_roundtrip [OF at ok, of "[]" 9 "[]" "[]"]
    by (simp add: Let_def encode_tag_def)
qed

text \<open>
  C25. \<open>read_multiboot_info\<close> returns exactly on boot information in which the addresses that the
  loader's specification gives to the tags, each at the size of the one before it rounded up to 8, lead to an
  end tag (\<open>tags_at\<close>), and in every memory map on the way the addresses of the entries come to lie at
  or past the end of the tag (\<open>walkable\<close>; entries of size zero never do); on all other memory it
  loops forever.
\<close>

theorem read_multiboot_info_returns_iff:
  "((\<exists>r. (read_multiboot_info m mbi :: 's stop + _) = Inr r) \<longleftrightarrow>
     (\<exists>ts e. tags_at m (mbi_tags mbi) ts e \<and> list_all (walkable m) ts))
   \<and> ((read_multiboot_info m mbi :: 's stop + _) = Inl Hang \<longleftrightarrow>
     \<not> (\<exists>ts e. tags_at m (mbi_tags mbi) ts e \<and> list_all (walkable m) ts))"
proof (cases "read_tags m (mbi_tags mbi)
    \<lparr>kernel_start = - 1, kernel_end = 0, multiboot_start = mbi, multiboot_end = 0\<rparr>")
  case None
  then have "\<not> (\<exists>ts e. tags_at m (mbi_tags mbi) ts e \<and> (\<forall>t \<in> set ts. walkable m t))"
    using read_tags_walk by fastforce
  with None show ?thesis by (simp add: read_multiboot_info_def list_all_iff)
next
  case (Some p)
  with read_tags_tags_at [OF Some] show ?thesis by (auto simp: read_multiboot_info_def list_all_iff split: prod.split)
qed

text \<open>
  C26. The extent \<open>read_multiboot_info\<close> reports: the area of the boot information goes from
  its start to just past the end tag; the kernel's area goes from the lowest address of a
  used section of the ELF tags to the highest end of one, and so holds them all.
\<close>

theorem read_multiboot_info_extent:
  assumes "tags_at m (mbi_tags mbi) ts e" and "\<forall>t \<in> set ts. walkable m t"
  shows "\<exists>r. read_multiboot_info m mbi = Inr r \<and> multiboot_start r = mbi \<and> multiboot_end r = tag_after m e
    \<and> (\<forall>x \<in> set (live_sections m ts). kernel_start r \<le> section_addr m x
        \<and> section_addr m x + section_size m x \<le> kernel_end r)
    \<and> (live_sections m ts \<noteq> [] \<longrightarrow>
        kernel_start r \<in> section_addr m ` set (live_sections m ts)
        \<and> kernel_end r \<in> (\<lambda>x. section_addr m x + section_size m x) ` set (live_sections m ts))
    \<and> (live_sections m ts = [] \<longrightarrow> kernel_start r = - 1 \<and> kernel_end r = 0)"
proof -
  let ?A = "section_addr m ` set (live_sections m ts)"
  let ?E = "(\<lambda>x. section_addr m x + section_size m x) ` set (live_sections m ts)"
  have "Min (insert (- 1) ?A) = (if ?A = {} then - 1 else Min ?A)"
    by (auto simp: min_def intro!: antisym)
  moreover have "Max (insert 0 ?E) = (if ?E = {} then 0 else Max ?E)" by (simp add: max_def)
  ultimately show ?thesis
    unfolding read_multiboot_info_eq [OF assms]
    by (auto simp: Min_le Max_ge Min_in Max_in)
qed

text \<open>A block of boot information with one section header, for the witness.\<close>

definition sample_tags :: "(u32 \<times> u8 list) list" where
  "sample_tags = [(9, le32 1 @ le32 64 @ le32 0 @ le32 0 @ le32 1 @ replicate 8 0 @
     le32 0x100000 @ le32 0 @ replicate 8 0 @ le32 0x10 @ le32 0 @ replicate 24 0)]"

definition sample_mem :: bytes where
  "sample_mem x = (if x < 104 then (replicate 8 0 @ encode_tags sample_tags) ! unat x else 0)"

lemma sample_live: "live_sections sample_mem [8] = [28]"
  by code_simp

lemma sample_tags_at: "tags_at sample_mem (mbi_tags 0) [8] 96"
proof -
  have len: "length (encode_tags sample_tags) = 96" by code_simp
  have at: "bytes_at sample_mem 8 (encode_tags sample_tags)"
    unfolding bytes_at_def len
  proof (intro allI impI)
    fix i :: nat assume "i < 96"
    then have "unat (8 + of_nat i :: u64) = 8 + i"
      by (subst unat_add_lem [THEN iffD1]) (simp_all add: unat_of_nat)
    with \<open>i < 96\<close> show "sample_mem (8 + of_nat i) = encode_tags sample_tags ! i"
      by (simp add: sample_mem_def word_less_nat_alt nth_append)
  qed
  have ok: "\<forall>t \<in> set sample_tags. tag_ok t" by code_simp
  show ?thesis
    using tags_at_encoded [OF at ok] by (auto simp: sample_tags_def mbi_tags_def length_encode_tag)
qed

theorem read_multiboot_info_extent_witness:
  "\<exists>r. (read_multiboot_info sample_mem 0 :: unit stop + _) = Inr r \<and> multiboot_end r = 104
    \<and> kernel_start r = 0x100000 \<and> kernel_end r = 0x100010"
proof -
  have 2: "\<forall>t \<in> set [8]. walkable sample_mem t"
  proof -
    have "tag_type sample_mem 8 \<noteq> MULTIBOOT_TAG_TYPE_MMAP" by code_simp
    then show ?thesis by (simp add: walkable_def)
  qed
  have "next_tag sample_mem 96 = 104" "section_addr sample_mem 28 = 0x100000"
    "section_size sample_mem 28 = 0x10" by code_simp+
  with read_multiboot_info_extent [OF sample_tags_at 2] sample_live show ?thesis by (auto simp: next_tag_after)
qed

text \<open>
  \<open>multiboot_is_valid\<close> accepts exactly the boot loader's magic value with an address
  that is a multiple of 8, and then prints nothing.
\<close>

theorem multiboot_is_valid_iff:
  "(multiboot_is_valid hw magic addr s :: 's stop + _) = Inr (True, s') \<longleftrightarrow>
     magic = 0x36d76289 \<and> 8 dvd unat addr \<and> s' = s"
  by (auto simp: multiboot_is_valid_def MULTIBOOT2_MAGIC_VALUE_def addr_AND_7 res_bind_Inr_iff)

end
