(* ===== verification/Mmap.thy ===== *)
theory Mmap
  imports Boot
begin

text \<open>
  The frame allocator (\<open>src/src/mmu/mmap.c\<close>, \<open>mmap.h\<close>). It walks the memory map of the boot
  information in place, so every operation takes the memory \<open>m\<close> the kernel sees. A frame number
  is 32 bits wide, an address 64; each conversion between them is written out. A loop that
  need not end, and the recursion of \<open>mmap_allocate_frame\<close>, give an option.
\<close>

definition PAGE_SIZE :: u64 where "PAGE_SIZE = 4096"
definition MMAP_GET_NUM :: u8 where "MMAP_GET_NUM = 0"
definition MMAP_GET_ADDR :: u8 where "MMAP_GET_ADDR = 1"

type_synonym frame_t = u32
type_synonym physical_address_t = u64

text \<open>The globals of the file; \<open>g_\<close> keeps them apart from the fields of \<open>reserved_areas\<close>.\<close>

record mmap_globals =
  memory_area :: u64
  g_kernel_start :: physical_address_t
  g_kernel_end :: physical_address_t
  g_multiboot_start :: physical_address_t
  g_multiboot_end :: physical_address_t
  next_free_frame :: frame_t

subsection \<open>Operations\<close>

definition mmap_init :: "u64 \<Rightarrow> reserved_areas \<Rightarrow> mmap_globals \<Rightarrow> mmap_globals" where
  "mmap_init mmap reserved g =
     g\<lparr>memory_area := mmap, g_kernel_start := kernel_start reserved, g_kernel_end := kernel_end reserved,
       g_multiboot_start := multiboot_start reserved, g_multiboot_end := multiboot_end reserved,
       next_free_frame := 1\<rparr>"

text \<open>
  The loop over the pages of an entry: \<open>Inl\<close> is a \<^verbatim>\<open>return\<close> out of it, \<open>Inr\<close> its end, with
  \<open>cur_num\<close> and the request as they are then.
\<close>

partial_function (option) mmap_pages :: "bytes \<Rightarrow> u64 \<Rightarrow> u8 \<Rightarrow> u64 \<Rightarrow> u64 \<Rightarrow> frame_t \<Rightarrow> frame_t \<Rightarrow>
    (physical_address_t + frame_t \<times> frame_t) option" where
  "mmap_pages m entry mode entry_end i cur_num request =
     (if i + PAGE_SIZE < entry_end then
        if mode = MMAP_GET_NUM \<and> ucast request \<ge> i \<and> ucast request \<le> i + PAGE_SIZE
        then Some (Inl (ucast (cur_num + 1)))
        else if entry_type m entry = MULTIBOOT_MEMORY_RESERVED then
          (if mode = MMAP_GET_ADDR \<and> cur_num = request
           then mmap_pages m entry mode entry_end (i + PAGE_SIZE) (cur_num + 1) (request + 1)
           else mmap_pages m entry mode entry_end (i + PAGE_SIZE) (cur_num + 1) request)
        else if mode = MMAP_GET_ADDR \<and> cur_num = request then Some (Inl i)
        else mmap_pages m entry mode entry_end (i + PAGE_SIZE) (cur_num + 1) request
      else Some (Inr (cur_num, request)))"

partial_function (option) mmap_entries_loop :: "bytes \<Rightarrow> u64 \<Rightarrow> u8 \<Rightarrow> u64 \<Rightarrow> frame_t \<Rightarrow> frame_t \<Rightarrow>
    physical_address_t option" where
  "mmap_entries_loop m area mode entry cur_num request =
     (if entry < area + ucast (tag_size m area) then
        Option.bind (mmap_pages m entry mode (entry_addr m entry + entry_len m entry) (entry_addr m entry)
          cur_num request) (\<lambda>r.
        if isl r then Some (projl r)
        else mmap_entries_loop m area mode (entry + ucast (mmap_entry_size m area))
          (fst (projr r)) (snd (projr r)))
      else Some 0)"

definition mmap_read :: "bytes \<Rightarrow> mmap_globals \<Rightarrow> frame_t \<Rightarrow> u8 \<Rightarrow> physical_address_t option" where
  "mmap_read m g request mode =
     (if mode \<noteq> MMAP_GET_NUM \<and> mode \<noteq> MMAP_GET_ADDR then Some 0
      else mmap_entries_loop m (memory_area g) mode (mmap_entries (memory_area g)) 0 request)"

partial_function (option) mmap_allocate_frame :: "bytes \<Rightarrow> mmap_globals \<Rightarrow> (frame_t \<times> mmap_globals) option" where
  "mmap_allocate_frame m g =
     Option.bind (mmap_read m g (next_free_frame g) MMAP_GET_ADDR) (\<lambda>current_addr.
     if (current_addr \<ge> g_multiboot_start g \<and> current_addr \<le> g_multiboot_end g) \<or>
        (current_addr \<ge> g_kernel_start g \<and> current_addr \<le> g_kernel_end g)
     then mmap_allocate_frame m (g\<lparr>next_free_frame := next_free_frame g + 1\<rparr>)
     else
       Option.bind (mmap_read m g (ucast current_addr) MMAP_GET_NUM) (\<lambda>current_frame_num.
       Some (ucast current_frame_num, g\<lparr>next_free_frame := ucast current_frame_num + 1\<rparr>)))"

definition frame_containing_address :: "u64 \<Rightarrow> frame_t" where
  "frame_containing_address addr = ucast (addr div PAGE_SIZE)"

text \<open>The product is taken at the 32 bits of \<open>frame_t\<close>.\<close>

definition frame_starting_address :: "frame_t \<Rightarrow> u64" where
  "frame_starting_address frame = ucast (frame * 4096)"

text \<open>
  The first argument is the store the loop performs: \<open>flat_store\<close> in the memory the kernel sees,
  or a store through the page tables.
\<close>

definition mmap_deallocate_frame :: "(u64 \<Rightarrow> u64 \<Rightarrow> 's \<Rightarrow> 'e + 's) \<Rightarrow> frame_t \<Rightarrow> 's \<Rightarrow> 'e + 's" where
  "mmap_deallocate_frame store frame s =
     (let addr = frame_starting_address frame
      in fold_res (\<lambda>i. store (addr + 8 * of_nat i) 0) [0..<unat PAGE_SIZE] s)"

definition flat_store :: "u64 \<Rightarrow> u64 \<Rightarrow> bytes \<Rightarrow> 'e + bytes" where
  "flat_store a v = (\<lambda>m. Inr (store64 m a v))"

subsection \<open>The map as a list of chunks\<close>

text \<open>
  \<open>entries_at m area x es\<close>: the entries of the map from address \<open>x\<close> on lie at \<open>es\<close>. The
  allocator numbers the pages of all entries in order; \<open>chunks m es\<close> lists their addresses and
  whether they are reserved. The last page of an entry is left out, as the loop does.
\<close>

fun entries_at :: "bytes \<Rightarrow> u64 \<Rightarrow> u64 \<Rightarrow> u64 list \<Rightarrow> bool" where
  "entries_at m area x [] \<longleftrightarrow> \<not> x < area + ucast (tag_size m area)"
| "entries_at m area x (e # es) \<longleftrightarrow> e = x \<and> x < area + ucast (tag_size m area)
     \<and> entries_at m area (x + ucast (mmap_entry_size m area)) es"

definition page_count :: "u64 \<Rightarrow> u64 \<Rightarrow> nat" where
  "page_count a e = (unat e - unat a - 1) div 4096"

definition pages_from :: "u64 \<Rightarrow> u64 \<Rightarrow> bool \<Rightarrow> (u64 \<times> bool) list" where
  "pages_from a e res = map (\<lambda>j. (a + 4096 * of_nat j, res)) [0..<page_count a e]"

definition chunks_of :: "bytes \<Rightarrow> u64 \<Rightarrow> (u64 \<times> bool) list" where
  "chunks_of m x = pages_from (entry_addr m x) (entry_addr m x + entry_len m x)
     (entry_type m x = MULTIBOOT_MEMORY_RESERVED)"

definition chunks :: "bytes \<Rightarrow> u64 list \<Rightarrow> (u64 \<times> bool) list" where
  "chunks m es = concat (map (chunks_of m) es)"

definition entry_ok :: "bytes \<Rightarrow> u64 \<Rightarrow> bool" where
  "entry_ok m x \<longleftrightarrow> unat (entry_addr m x) + unat (entry_len m x) + 4096 < 2 ^ 64"

definition map_ok :: "bytes \<Rightarrow> u64 \<Rightarrow> u64 list \<Rightarrow> bool" where
  "map_ok m area es \<longleftrightarrow> entries_at m area (mmap_entries area) es \<and> (\<forall>x \<in> set es. entry_ok m x)
     \<and> int (length (chunks m es)) < 2 ^ 32 - 1"

text \<open>Every map with entries of a size above zero that does not reach the top has such a list.\<close>

lemma entries_at_exist:
  assumes "mmap_ok m area"
  shows "\<exists>es. entries_at m area x es"
proof (induction "unat area + unat (tag_size m area) - unat x" arbitrary: x rule: less_induct)
  case less
  show ?case
  proof (cases "x < area + ucast (tag_size m area)")
    case True
    have "0 < unat (mmap_entry_size m area)" using assms by (simp add: mmap_ok_def word_less_nat_alt)
    moreover have "unat x < unat area + unat (tag_size m area)"
      using True mmap_ok_step(2) [OF assms True] by (simp add: word_less_nat_alt)
    ultimately have "unat area + unat (tag_size m area) - unat (x + ucast (mmap_entry_size m area))
        < unat area + unat (tag_size m area) - unat x"
      using mmap_ok_step(1) [OF assms True] by simp
    from less [OF this] obtain es where "entries_at m area (x + ucast (mmap_entry_size m area)) es" ..
    with True have "entries_at m area x (x # es)" by simp
    then show ?thesis ..
  next
    case False
    then have "entries_at m area x []" by simp
    then show ?thesis ..
  qed
qed

subsection \<open>The two loops scan the chunks\<close>

fun scan :: "u8 \<Rightarrow> (u64 \<times> bool) list \<Rightarrow> u32 \<Rightarrow> u32 \<Rightarrow> u64 + u32 \<times> u32" where
  "scan mode [] cur req = Inr (cur, req)"
| "scan mode ((i, res) # cs) cur req =
     (if mode = MMAP_GET_NUM \<and> ucast req \<ge> i \<and> ucast req \<le> i + 4096 then Inl (ucast (cur + 1))
      else if res then scan mode cs (cur + 1) (if mode = MMAP_GET_ADDR \<and> cur = req then req + 1 else req)
      else if mode = MMAP_GET_ADDR \<and> cur = req then Inl i
      else scan mode cs (cur + 1) req)"

lemma scan_append:
  "scan mode (xs @ ys) cur req =
    (case scan mode xs cur req of Inl v \<Rightarrow> Inl v | Inr (c, r) \<Rightarrow> scan mode ys c r)"
  by (induction mode xs cur req rule: scan.induct) auto

lemma unat_add_4096:
  fixes i e :: u64
  assumes "unat e + 4096 < 2 ^ 64" and "i \<le> e"
  shows "unat (i + 4096) = unat i + 4096"
  using assms by (subst unat_add_lem [THEN iffD1]) (simp_all add: word_le_nat_alt)

lemma pages_from_step:
  assumes "unat e + 4096 < 2 ^ 64" and "i \<le> e"
  shows "pages_from i e res = (if i + 4096 < e then (i, res) # pages_from (i + 4096) e res else [])"
proof (cases "i + 4096 < e")
  case True
  then have lt: "unat i + 4096 < unat e" using unat_add_4096 [OF assms] by (simp add: word_less_nat_alt)
  have "unat e - unat i - 1 = (unat e - unat (i + 4096) - 1) + 4096"
    using lt unat_add_4096 [OF assms] by simp
  then have "page_count i e = Suc (page_count (i + 4096) e)"
    by (simp only: page_count_def) simp
  moreover have "map (\<lambda>j. (i + 4096 * of_nat j, res)) [0..<Suc n] =
      (i, res) # map (\<lambda>j. (i + 4096 + 4096 * of_nat j, res)) [0..<n]" for n
    unfolding upt_conv_Cons [OF zero_less_Suc] by (simp add: map_Suc_upt [symmetric] algebra_simps del: upt_Suc)
  ultimately show ?thesis using True by (simp add: pages_from_def)
next
  case False
  then have "unat e - unat i - 1 < 4096"
    using unat_add_4096 [OF assms] by (simp add: word_less_nat_alt)
  with False show ?thesis by (simp add: pages_from_def page_count_def)
qed

lemma mmap_pages_scan:
  assumes "unat e + 4096 < 2 ^ 64" and "i \<le> e"
  shows "mmap_pages m x mode e i cur req =
    Some (scan mode (pages_from i e (entry_type m x = MULTIBOOT_MEMORY_RESERVED)) cur req)"
  using assms
proof (induction "page_count i e" arbitrary: i mode cur req)
  case 0
  then have "pages_from i e (entry_type m x = MULTIBOOT_MEMORY_RESERVED) = []" by (simp add: pages_from_def)
  moreover from this pages_from_step [OF 0(2,3)] have "\<not> i + 4096 < e" by (auto split: if_splits)
  ultimately show ?case by (subst mmap_pages.simps) (simp add: PAGE_SIZE_def)
next
  case (Suc n)
  have len: "length (pages_from i e b) = page_count i e" for i b by (simp add: pages_from_def)
  have lt: "i + 4096 < e"
    using pages_from_step [OF Suc.prems, of True] len [of i True] Suc.hyps(2) by (auto split: if_splits)
  then have "n = page_count (i + 4096) e"
    using pages_from_step [OF Suc.prems, of True] len [of i True] len [of "i + 4096" True] Suc.hyps(2) by simp
  with Suc.hyps(1) [of "i + 4096"] Suc.prems(1) lt
  have IH: "mmap_pages m x md e (i + 4096) c r =
    Some (scan md (pages_from (i + 4096) e (entry_type m x = MULTIBOOT_MEMORY_RESERVED)) c r)" for md c r
    by simp
  show ?case
    using lt by (subst mmap_pages.simps, subst pages_from_step [OF Suc.prems]) (auto simp: PAGE_SIZE_def IH)
qed

lemma entry_pages_scan:
  assumes "entry_ok m x"
  shows "mmap_pages m x mode (entry_addr m x + entry_len m x) (entry_addr m x) cur req =
    Some (scan mode (chunks_of m x) cur req)"
proof -
  have "unat (entry_addr m x + entry_len m x) = unat (entry_addr m x) + unat (entry_len m x)"
    using assms by (subst unat_add_lem [THEN iffD1]) (simp_all add: entry_ok_def)
  then show ?thesis
    unfolding chunks_of_def using assms
    by (intro mmap_pages_scan) (simp_all add: entry_ok_def word_le_nat_alt)
qed

lemma mmap_entries_scan:
  assumes "entries_at m area x es" and "\<forall>x \<in> set es. entry_ok m x"
  shows "mmap_entries_loop m area mode x cur req =
    Some (case scan mode (chunks m es) cur req of Inl v \<Rightarrow> v | Inr _ \<Rightarrow> 0)"
  using assms
proof (induction es arbitrary: x cur req)
  case Nil
  then show ?case by (subst mmap_entries_loop.simps) (simp add: chunks_def)
next
  case (Cons e es)
  then have x: "e = x" "x < area + ucast (tag_size m area)" "entry_ok m x"
    "entries_at m area (x + ucast (mmap_entry_size m area)) es" by auto
  have "mmap_entries_loop m area mode x cur req = Some (case scan mode (chunks_of m x) cur req of
      Inl v \<Rightarrow> v | Inr (c, r) \<Rightarrow> case scan mode (chunks m es) c r of Inl v \<Rightarrow> v | Inr _ \<Rightarrow> 0)"
    using x Cons.IH [OF x(4)] Cons.prems(2)
    by (subst mmap_entries_loop.simps) (simp add: entry_pages_scan split: sum.split prod.split)
  then show ?case by (simp add: chunks_def scan_append x(1) split: sum.split prod.split)
qed

lemma mmap_read_scan:
  assumes "map_ok m (memory_area g) es" and "mode = MMAP_GET_NUM \<or> mode = MMAP_GET_ADDR"
  shows "mmap_read m g req mode = Some (case scan mode (chunks m es) 0 req of Inl v \<Rightarrow> v | Inr _ \<Rightarrow> 0)"
  using assms by (auto simp: mmap_read_def map_ok_def mmap_entries_scan)

subsection \<open>What the two requests return\<close>

definition addr_of :: "(u64 \<times> bool) list \<Rightarrow> nat \<Rightarrow> u64" where
  "addr_of cs r = (case find (\<lambda>c. \<not> snd c) (drop r cs) of None \<Rightarrow> 0 | Some c \<Rightarrow> fst c)"

definition touches :: "u64 \<Rightarrow> u64 \<times> bool \<Rightarrow> bool" where
  "touches a c \<longleftrightarrow> fst c \<le> a \<and> a \<le> fst c + 4096"

definition num_of :: "(u64 \<times> bool) list \<Rightarrow> u64 \<Rightarrow> nat" where
  "num_of cs a =
     (let k = length (takeWhile (\<lambda>c. \<not> touches a c) cs) in if k < length cs then Suc k else 0)"

lemma num_of_simps:
  "num_of [] a = 0"
  "num_of (c # cs) a = (if touches a c then 1 else if num_of cs a = 0 then 0 else Suc (num_of cs a))"
  by (simp_all add: num_of_def Let_def)

lemma of_nat_u32_eq: "x < 2 ^ 32 \<Longrightarrow> y < 2 ^ 32 \<Longrightarrow> (of_nat x :: u32) = of_nat y \<longleftrightarrow> x = y"
  by (auto simp: word_eq_iff_unsigned [where ?'a = nat] unat_of_nat)

lemma scan_addr:
  assumes "c + d < 2 ^ 32" and "c + length cs < 2 ^ 32 - 1"
  shows "(case scan MMAP_GET_ADDR cs (of_nat c) (of_nat (c + d)) of Inl v \<Rightarrow> v | Inr _ \<Rightarrow> 0) = addr_of cs d"
  using assms
proof (induction cs arbitrary: c d)
  case (Cons x cs)
  obtain i res where x: "x = (i, res)" by force
  have next_c: "(of_nat c :: u32) + 1 = of_nat (Suc c)" by simp
  show ?case
  proof (cases d)
    case 0
    have "(of_nat (c + d) :: u32) + 1 = of_nat (Suc c + 0)" by (simp add: 0)
    then show ?thesis
      using Cons.IH [of "Suc c" 0] Cons.prems
      by (simp add: x 0 addr_of_def MMAP_GET_NUM_def MMAP_GET_ADDR_def next_c del: of_nat_Suc)
  next
    case (Suc d')
    have "(of_nat c :: u32) \<noteq> of_nat (c + d)"
      using Cons.prems Suc by (subst of_nat_u32_eq) simp_all
    then show ?thesis
      using Cons.IH [of "Suc c" d'] Cons.prems
      by (simp add: x Suc addr_of_def MMAP_GET_NUM_def MMAP_GET_ADDR_def next_c del: of_nat_Suc of_nat_add)
  qed
qed (simp add: addr_of_def)

lemma scan_num:
  assumes "c + length cs < 2 ^ 32"
  shows "(case scan MMAP_GET_NUM cs (of_nat c) req of Inl v \<Rightarrow> v | Inr _ \<Rightarrow> 0) =
    (if num_of cs (ucast req) = 0 then 0 else of_nat (c + num_of cs (ucast req)))"
  using assms
proof (induction cs arbitrary: c)
  case (Cons x cs)
  obtain i res where x: "x = (i, res)" by force
  have next_c: "(of_nat c :: u32) + 1 = of_nat (Suc c)" by simp
  have u: "(ucast (of_nat (Suc c) :: u32) :: u64) = of_nat (Suc c)"
    using Cons.prems by (simp only: word_eq_iff_unsigned [where ?'a = nat] unat_ucast_u32 unat_of_nat) simp
  show ?case
    using Cons.IH [of "Suc c"] Cons.prems
    by (simp add: x num_of_simps touches_def MMAP_GET_NUM_def MMAP_GET_ADDR_def next_c u del: of_nat_Suc of_nat_add)
qed (simp add: num_of_simps)

lemma num_of_le: "num_of cs a \<le> length cs"
  by (simp add: num_of_def Let_def Suc_le_eq)

lemma mmap_read_addr:
  assumes "map_ok m (memory_area g) es"
  shows "mmap_read m g req MMAP_GET_ADDR = Some (addr_of (chunks m es) (unat req))"
proof -
  have "unat req < 2 ^ 32" using unsigned_less [of req, where ?'a = nat] by simp
  moreover have "length (chunks m es) < 2 ^ 32 - 1" using assms by (simp add: map_ok_def)
  ultimately show ?thesis
    using mmap_read_scan [OF assms, of MMAP_GET_ADDR req] scan_addr [of 0 "unat req" "chunks m es"] by simp
qed

lemma mmap_read_num:
  assumes "map_ok m (memory_area g) es"
  shows "mmap_read m g req MMAP_GET_NUM = Some (of_nat (num_of (chunks m es) (ucast req)))"
proof -
  have "length (chunks m es) < 2 ^ 32 - 1" using assms by (simp add: map_ok_def)
  then show ?thesis
    using mmap_read_scan [OF assms, of MMAP_GET_NUM req] scan_num [of 0 "chunks m es" req] by simp
qed

subsection \<open>Allocation\<close>

definition blocked :: "mmap_globals \<Rightarrow> u64 \<Rightarrow> bool" where
  "blocked g a \<longleftrightarrow> (g_multiboot_start g \<le> a \<and> a \<le> g_multiboot_end g)
     \<or> (g_kernel_start g \<le> a \<and> a \<le> g_kernel_end g)"

definition usable :: "mmap_globals \<Rightarrow> u64 \<times> bool \<Rightarrow> bool" where
  "usable g c \<longleftrightarrow> \<not> snd c \<and> \<not> blocked g (fst c)"

definition pick :: "mmap_globals \<Rightarrow> (u64 \<times> bool) list \<Rightarrow> nat \<Rightarrow> u64" where
  "pick g cs r = (case find (usable g) (drop r cs) of None \<Rightarrow> 0 | Some c \<Rightarrow> fst c)"

lemma blocked_next [simp]: "blocked (g\<lparr>next_free_frame := f\<rparr>) a = blocked g a"
  by (simp add: blocked_def)

lemma usable_next [simp]: "usable (g\<lparr>next_free_frame := f\<rparr>) = usable g"
  by (simp add: fun_eq_iff usable_def)

lemma pick_next [simp]: "pick (g\<lparr>next_free_frame := f\<rparr>) cs r = pick g cs r"
  by (simp add: pick_def)

lemma find_refine:
  assumes "\<And>x. Q x \<Longrightarrow> P x"
  shows "find P xs = None \<Longrightarrow> find Q xs = None" and "find P xs = Some x \<Longrightarrow> Q x \<Longrightarrow> find Q xs = Some x"
  by (induction xs) (use assms in \<open>auto split: if_splits\<close>)

lemma pick_addr_of:
  assumes "\<not> blocked g (addr_of cs r)"
  shows "pick g cs r = addr_of cs r"
proof (cases "find (\<lambda>c. \<not> snd c) (drop r cs)")
  case None
  moreover from this have "find (usable g) (drop r cs) = None"
    by (rule find_refine(1) [rotated]) (simp add: usable_def)
  ultimately show ?thesis by (simp add: pick_def addr_of_def)
next
  case (Some c)
  then have "\<not> snd c" by (auto simp: find_Some_iff)
  with Some assms have "find (usable g) (drop r cs) = Some c"
    by (intro find_refine(2) [of "usable g", OF _ Some]) (auto simp: usable_def addr_of_def)
  with Some show ?thesis by (simp add: pick_def addr_of_def)
qed

lemma pick_Suc:
  assumes "blocked g (addr_of cs r)" and "\<not> blocked g 0"
  shows "r < length cs" and "pick g cs r = pick g cs (Suc r)"
proof -
  from assms show r: "r < length cs"
    by (rule_tac ccontr) (simp add: addr_of_def)
  show "pick g cs r = pick g cs (Suc r)"
    using assms by (auto simp: pick_def addr_of_def usable_def Cons_nth_drop_Suc [OF r, symmetric] split: if_splits)
qed

lemma mmap_allocate_frame_eq:
  assumes "map_ok m (memory_area g) es" and "\<not> blocked g 0"
  shows "mmap_allocate_frame m g = Some (
    let f = of_nat (num_of (chunks m es) (ucast (ucast (pick g (chunks m es) (unat (next_free_frame g))) :: u32)))
    in (f, g\<lparr>next_free_frame := f + 1\<rparr>))"
  using assms
proof (induction "length (chunks m es) - unat (next_free_frame g)" arbitrary: g rule: less_induct)
  case less
  let ?cs = "chunks m es" and ?r = "unat (next_free_frame g)"
  note addr = mmap_read_addr [OF less.prems(1), of "next_free_frame g"]
  show ?case
  proof (cases "blocked g (addr_of ?cs ?r)")
    case True
    have r: "?r < length ?cs" and pick: "pick g ?cs ?r = pick g ?cs (Suc ?r)"
      using pick_Suc [OF True less.prems(2)] by auto
    have "length ?cs < 2 ^ 32 - 1" using less.prems(1) by (simp add: map_ok_def)
    with r have s: "unat (next_free_frame g + 1) = Suc ?r"
      by (subst unat_add_lem [THEN iffD1]) simp_all
    have "mmap_allocate_frame m g = mmap_allocate_frame m (g\<lparr>next_free_frame := next_free_frame g + 1\<rparr>)"
      using True by (subst mmap_allocate_frame.simps) (simp add: addr flip: blocked_def)
    also have "\<dots> = Some (let f = of_nat (num_of ?cs (ucast (ucast (pick g ?cs ?r) :: u32)))
        in (f, g\<lparr>next_free_frame := f + 1\<rparr>))"
      using less.hyps [of "g\<lparr>next_free_frame := next_free_frame g + 1\<rparr>"] less.prems r s pick by (simp add: Let_def)
    finally show ?thesis .
  next
    case False
    have n: "mmap_read m g req MMAP_GET_NUM = Some (of_nat (num_of ?cs (ucast req)))" for req
      by (rule mmap_read_num [OF less.prems(1)])
    have "ucast (of_nat k :: u64) = (of_nat k :: u32)" for k
      by (simp add: word_eq_iff_unsigned [where ?'a = nat] unsigned_ucast_eq unsigned_of_nat)
    with False pick_addr_of [OF False] show ?thesis
      by (subst mmap_allocate_frame.simps) (simp add: addr n Let_def flip: blocked_def)
  qed
qed

subsection \<open>Maps in ascending order\<close>

text \<open>
  The maps that boot loaders pass: entries in ascending order that do not overlap, here with
  all chunks below 4 GiB, the addresses that fit a request of 32 bits.
\<close>

definition ascending :: "(u64 \<times> bool) list \<Rightarrow> bool" where
  "ascending cs \<longleftrightarrow> sorted_wrt (\<lambda>x y. uint (fst x) + 4096 \<le> uint (fst y)) cs
     \<and> (\<forall>c \<in> set cs. uint (fst c) + 4096 < 2 ^ 32)"

lemma ascendingD:
  assumes "ascending cs"
  shows "j < k \<Longrightarrow> k < length cs \<Longrightarrow> unat (fst (cs ! j)) + 4096 \<le> unat (fst (cs ! k))"
    and "k < length cs \<Longrightarrow> unat (fst (cs ! k)) + 4096 < 2 ^ 32"
proof -
  assume "j < k" "k < length cs"
  then have "uint (fst (cs ! j)) + 4096 \<le> uint (fst (cs ! k))"
    using assms by (simp add: ascending_def sorted_wrt_iff_nth_less)
  then have "int (unat (fst (cs ! j)) + 4096) \<le> int (unat (fst (cs ! k)))" by simp
  then show "unat (fst (cs ! j)) + 4096 \<le> unat (fst (cs ! k))" by (simp only: of_nat_le_iff)
next
  assume "k < length cs"
  then have "uint (fst (cs ! k)) + 4096 < 2 ^ 32" using assms by (simp add: ascending_def)
  then have "int (unat (fst (cs ! k)) + 4096) < int (2 ^ 32)" by simp
  then show "unat (fst (cs ! k)) + 4096 < 2 ^ 32" by (simp only: of_nat_less_iff)
qed

lemma num_ofI:
  assumes "k < length cs" and "\<And>j. j < k \<Longrightarrow> \<not> touches a (cs ! j)" and "touches a (cs ! k)"
  shows "num_of cs a = Suc k"
proof -
  have "takeWhile (\<lambda>c. \<not> touches a c) cs = take k cs"
    by (rule takeWhile_eq_take_P_nth) (use assms in auto)
  with assms(1) show ?thesis by (simp add: num_of_def)
qed

lemma touches_iff:
  assumes "ascending cs" and "j < length cs" and "k < length cs"
  shows "touches (fst (cs ! k)) (cs ! j) \<longleftrightarrow>
    unat (fst (cs ! j)) \<le> unat (fst (cs ! k)) \<and> unat (fst (cs ! k)) \<le> unat (fst (cs ! j)) + 4096"
proof -
  have "unat (fst (cs ! j) + 4096) = unat (fst (cs ! j)) + 4096"
    using ascendingD(2) [OF assms(1,2)] by (subst unat_add_lem [THEN iffD1]) simp_all
  then show ?thesis by (simp add: touches_def word_le_nat_alt)
qed

text \<open>
  The number the allocator gives to a chunk: its index when the chunk before it ends where it
  starts, and one more otherwise.
\<close>

definition follows :: "(u64 \<times> bool) list \<Rightarrow> nat \<Rightarrow> bool" where
  "follows cs k \<longleftrightarrow> 0 < k \<and> fst (cs ! (k - 1)) + 4096 = fst (cs ! k)"

lemma num_of_chunk:
  assumes asc: "ascending cs" and k: "k < length cs"
  shows "num_of cs (fst (cs ! k)) = (if follows cs k then k else Suc k)"
proof (cases "follows cs k")
  case True
  then have k1: "k = Suc (k - 1)" and eq: "fst (cs ! (k - 1)) + 4096 = fst (cs ! k)"
    by (simp_all add: follows_def)
  have "unat (fst (cs ! k)) = unat (fst (cs ! (k - 1))) + 4096"
    unfolding eq [symmetric] using ascendingD(2) [OF asc, of "k - 1"] less_imp_diff_less [OF k, of 1]
    by (subst unat_add_lem [THEN iffD1]) simp_all
  moreover have "unat (fst (cs ! j)) + 4096 \<le> unat (fst (cs ! (k - 1)))" if "j < k - 1" for j
    using ascendingD(1) [OF asc that] k by simp
  ultimately have "num_of cs (fst (cs ! k)) = Suc (k - 1)"
    using k k1 by (intro num_ofI) (fastforce simp: touches_iff [OF asc])+
  with k1 True show ?thesis by simp
next
  case False
  have "\<not> touches (fst (cs ! k)) (cs ! j)" if j: "j < k" for j
  proof
    assume "touches (fst (cs ! k)) (cs ! j)"
    then have eq: "unat (fst (cs ! k)) = unat (fst (cs ! j)) + 4096"
      using touches_iff [OF asc _ k, of j] ascendingD(1) [OF asc j k] j k by simp
    have "j = k - 1"
      using ascendingD(1) [OF asc, of j "k - 1"] ascendingD(1) [OF asc, of "k - 1" k] eq j k by fastforce
    moreover have "fst (cs ! j) + 4096 = fst (cs ! k)"
      using eq ascendingD(2) [OF asc, of j] j k
      by (subst word_eq_iff_unsigned [where ?'a = nat], subst unat_add_lem [THEN iffD1]) simp_all
    ultimately show False using False j by (simp add: follows_def)
  qed
  moreover have "touches (fst (cs ! k)) (cs ! k)" using touches_iff [OF asc k k] by simp
  ultimately show ?thesis using num_ofI [OF k] False by simp
qed

lemma request_of_chunk:
  assumes "ascending cs" and "k < length cs"
  shows "ucast (ucast (fst (cs ! k)) :: u32) = fst (cs ! k)"
proof -
  have "unat (fst (cs ! k)) < 2 ^ 32" using ascendingD(2) [OF assms] by simp
  then show ?thesis
    by (subst word_eq_iff_unsigned [where ?'a = nat]) (simp add: unsigned_ucast_eq unsigned_take_bit_eq take_bit_nat_eq_self)
qed

definition first_usable :: "mmap_globals \<Rightarrow> (u64 \<times> bool) list \<Rightarrow> nat \<Rightarrow> nat \<Rightarrow> bool" where
  "first_usable g cs r k \<longleftrightarrow> r \<le> k \<and> k < length cs \<and> usable g (cs ! k) \<and> (\<forall>j. r \<le> j \<and> j < k \<longrightarrow> \<not> usable g (cs ! j))"

lemma first_usable_pick: "first_usable g cs r k \<Longrightarrow> pick g cs r = fst (cs ! k)"
proof -
  assume k: "first_usable g cs r k"
  then have "find (usable g) (drop r cs) = Some (cs ! k)"
    unfolding find_Some_iff by (intro exI [of _ "k - r"]) (auto simp: first_usable_def)
  then show ?thesis by (simp add: pick_def)
qed

lemma first_usable_exists:
  assumes "\<exists>c \<in> set (drop r cs). usable g c"
  obtains k where "first_usable g cs r k"
proof -
  obtain c where "find (usable g) (drop r cs) = Some c"
    using assms by (cases "find (usable g) (drop r cs)") (auto simp: find_None_iff)
  then obtain i where i: "i < length (drop r cs)" "usable g (drop r cs ! i)"
    "\<forall>j < i. \<not> usable g (drop r cs ! j)" by (auto simp: find_Some_iff)
  have "first_usable g cs r (r + i)"
    unfolding first_usable_def
  proof (intro conjI allI impI)
    fix j assume "r \<le> j \<and> j < r + i"
    then have "j - r < i" "r + (j - r) = j" by auto
    with i(1) i(3) [rule_format, of "j - r"] show "\<not> usable g (cs ! j)" by simp
  qed (use i in auto)
  then show thesis by (rule that)
qed

lemma mmap_allocate_usable:
  assumes "map_ok m (memory_area g) es" and "\<not> blocked g 0" and asc: "ascending (chunks m es)"
    and k: "first_usable g (chunks m es) (unat (next_free_frame g)) k"
  shows "\<exists>f. mmap_allocate_frame m g = Some (f, g\<lparr>next_free_frame := f + 1\<rparr>)
    \<and> unat f = (if follows (chunks m es) k then k else Suc k)"
proof -
  let ?cs = "chunks m es"
  have k_len: "k < length ?cs" using k by (simp add: first_usable_def)
  have len: "length ?cs < 2 ^ 32 - 1" using assms(1) by (simp add: map_ok_def)
  have "num_of ?cs (ucast (ucast (pick g ?cs (unat (next_free_frame g))) :: u32)) = (if follows ?cs k then k else Suc k)"
    by (simp add: first_usable_pick [OF k] request_of_chunk [OF asc k_len] num_of_chunk [OF asc k_len])
  moreover have "unat (of_nat n :: u32) = n" if "n \<le> length ?cs" for n
    using that len by (simp add: unat_of_nat)
  ultimately show ?thesis
    using mmap_allocate_frame_eq [OF assms(1,2)] k_len by (auto simp: Let_def Suc_le_eq)
qed

subsection \<open>Runs of allocations\<close>

text \<open>Successive calls, each made while a usable chunk is left.\<close>

inductive alloc_run :: "bytes \<Rightarrow> u64 list \<Rightarrow> frame_t list \<Rightarrow> mmap_globals \<Rightarrow> mmap_globals \<Rightarrow> bool"
  for m es where
  alloc_run_Nil: "alloc_run m es [] g g"
| alloc_run_Cons: "\<exists>c \<in> set (drop (unat (next_free_frame g)) (chunks m es)). usable g c \<Longrightarrow>
    mmap_allocate_frame m g = Some (f, g1) \<Longrightarrow> alloc_run m es fs g1 g2 \<Longrightarrow> alloc_run m es (f # fs) g g2"

lemma alloc_run_increasing:
  assumes "alloc_run m es fs g g'" and "map_ok m (memory_area g) es" and "\<not> blocked g 0"
    and "ascending (chunks m es)"
  shows "sorted_wrt (<) fs \<and> (\<forall>f \<in> set fs. unat (next_free_frame g) \<le> unat f)"
  using assms
proof (induction rule: alloc_run.induct)
  case (alloc_run_Cons g f g1 fs g2)
  obtain k where k: "first_usable g (chunks m es) (unat (next_free_frame g)) k"
    using first_usable_exists [OF alloc_run_Cons.hyps(1)] .
  from mmap_allocate_usable [OF alloc_run_Cons.prems k] alloc_run_Cons.hyps(2)
  have g1: "g1 = g\<lparr>next_free_frame := f + 1\<rparr>" and f: "unat f = (if follows (chunks m es) k then k else Suc k)"
    by auto
  have r: "unat (next_free_frame g) \<le> unat f" "unat f \<le> length (chunks m es)"
    using f k by (auto simp: first_usable_def split: if_splits)
  moreover have "length (chunks m es) < 2 ^ 32 - 1" using alloc_run_Cons.prems(1) by (simp add: map_ok_def)
  ultimately have "unat (f + 1) = Suc (unat f)" by (subst unat_add_lem [THEN iffD1]) simp_all
  moreover have IH: "sorted_wrt (<) fs" "\<forall>f' \<in> set fs. unat (f + 1) \<le> unat f'"
    using alloc_run_Cons.IH alloc_run_Cons.prems by (simp_all add: g1)
  ultimately have "\<forall>f' \<in> set fs. f < f' \<and> unat (next_free_frame g) \<le> unat f'"
    using r by (fastforce simp: word_less_nat_alt)
  with IH(1) r(1) show ?case by simp
qed simp

subsection \<open>Frame numbers and frames\<close>

lemma u32_times_4096: "unat (f * 4096 :: u32) = (unat f mod 2 ^ 20) * 4096"
proof -
  have "unat (f * 4096) = unat f * 4096 mod 2 ^ 32"
    using unat_word_ariths(2) [of f 4096] by simp
  also have "\<dots> = (unat f * 4096) mod (2 ^ 20 * 4096)" by simp
  also have "\<dots> = (unat f mod 2 ^ 20) * 4096" by (rule mult_mod_left [symmetric])
  finally show ?thesis .
qed

lemma unat_frame_containing_address: "unat (frame_containing_address a) = unat a div 4096 mod 2 ^ 32"
  by (simp add: frame_containing_address_def PAGE_SIZE_def unsigned_ucast_eq unat_div take_bit_eq_mod)

lemma unat_frame_starting_address: "unat (frame_starting_address f) = (unat f mod 2 ^ 20) * 4096"
  unfolding frame_starting_address_def unat_ucast_u32 u32_times_4096 ..

text \<open>Clearing a run of 8-byte words.\<close>

lemma store64_zero: "store64 m a 0 x = (if within x a 8 then 0 else m x)"
proof (cases "within x a 8")
  case True
  then have "unat (x - a) < 8" by (simp add: within_def)
  then have "unat (x - a) \<in> {0, 1, 2, 3, 4, 5, 6, 7}" by auto
  then have "x \<in> {a, a + 1, a + 2, a + 3, a + 4, a + 5, a + 6, a + 7}"
    using unat_diff_eq_iff [of _ x a] by force
  with True show ?thesis by (auto simp: store64_def store32_def add.assoc)
qed (simp add: store64_frame)

lemma clear_words:
  assumes "8 * n \<le> 2 ^ 64"
  shows "fold (\<lambda>i m. store64 m (a + 8 * of_nat i) 0) [0..<n] m x = (if within x a (8 * n) then 0 else m x)"
  using assms
proof (induction n)
  case 0
  then show ?case by (simp add: within_def)
next
  case (Suc n)
  let ?clear = "\<lambda>i m. store64 m (a + 8 * of_nat i) 0"
  have w: "within x (a + of_nat (8 * n)) 8 \<longleftrightarrow> 8 * n \<le> unat (x - a) \<and> unat (x - a) < 8 * n + 8"
    by (rule within_add) (use Suc.prems in simp)
  have split: "within x a (8 * Suc n) \<longleftrightarrow> within x a (8 * n) \<or> within x (a + of_nat (8 * n)) 8"
    unfolding w unfolding within_def by (cases "unat (x - a) < 8 * n") (simp_all add: add.commute)
  have "fold ?clear [0..<Suc n] m = store64 (fold ?clear [0..<n] m) (a + of_nat (8 * n)) 0" by simp
  then have "fold ?clear [0..<Suc n] m x =
      (if within x (a + of_nat (8 * n)) 8 then 0 else fold ?clear [0..<n] m x)"
    by (simp only: store64_zero)
  also have "fold ?clear [0..<n] m x = (if within x a (8 * n) then 0 else m x)"
    by (rule Suc.IH) (use Suc.prems in simp)
  finally show ?case unfolding split by (simp only: if_splits) auto
qed

subsection \<open>A map for the witnesses\<close>

definition le64 :: "u64 \<Rightarrow> u8 list" where
  "le64 v = le32 (ucast v) @ le32 (ucast (drop_bit 32 v))"

definition sample_map :: bytes where
  "sample_map x = (if x < 88 then
     (le32 6 @ le32 88 @ le32 24 @ le32 0 @
      le64 0 @ le64 0x5000 @ le32 1 @ le32 0 @
      le64 0x5000 @ le64 0x3000 @ le32 2 @ le32 0 @
      le64 0x100000 @ le64 0x4000 @ le32 1 @ le32 0) ! unat x else 0)"

definition sample_globals :: "frame_t \<Rightarrow> mmap_globals" where
  "sample_globals f = \<lparr>memory_area = 0, g_kernel_start = 0x100000, g_kernel_end = 0x100FFF,
     g_multiboot_start = 0x2000, g_multiboot_end = 0x2FFF, next_free_frame = f\<rparr>"

lemma sample_entries:
  "entries_at sample_map 0 (mmap_entries 0) [16, 40, 64]"
  "entry_addr sample_map 16 = 0" "entry_len sample_map 16 = 0x5000" "entry_type sample_map 16 = 1"
  "entry_addr sample_map 40 = 0x5000" "entry_len sample_map 40 = 0x3000" "entry_type sample_map 40 = 2"
  "entry_addr sample_map 64 = 0x100000" "entry_len sample_map 64 = 0x4000" "entry_type sample_map 64 = 1"
  by code_simp+

lemma sample_chunks:
  "chunks sample_map [16, 40, 64] = [(0, False), (0x1000, False), (0x2000, False), (0x3000, False),
     (0x5000, True), (0x6000, True), (0x100000, False), (0x101000, False), (0x102000, False)]"
  by (simp add: chunks_def chunks_of_def pages_from_def page_count_def sample_entries
      MULTIBOOT_MEMORY_RESERVED_def upt_rec)

lemma sample_ok:
  "map_ok sample_map (memory_area (sample_globals f)) [16, 40, 64]"
  "\<not> blocked (sample_globals f) 0" "ascending (chunks sample_map [16, 40, 64])"
proof -
  show "map_ok sample_map (memory_area (sample_globals f)) [16, 40, 64]"
    using sample_entries(1)
    by (simp add: map_ok_def sample_globals_def sample_entries(2-) entry_ok_def sample_chunks del: entries_at.simps)
qed (simp_all add: sample_globals_def sample_chunks blocked_def ascending_def)

lemma addr_of_index: "k < length cs \<Longrightarrow> \<not> snd (cs ! k) \<Longrightarrow> addr_of cs k = fst (cs ! k)"
  by (simp add: addr_of_def Cons_nth_drop_Suc [symmetric])

lemma no_usable_pick: "\<forall>c \<in> set (drop r cs). \<not> usable g c \<Longrightarrow> pick g cs r = 0"
  by (simp add: pick_def find_None_iff [THEN iffD2])

subsection \<open>Properties\<close>

text \<open>
  C27. \<open>mmap_read\<close> returns on every map whose entries lead past its end. Asked for an address
  it gives the first chunk from the requested number on that is not reserved, or 0; asked for
  a number it gives one more than the index of the first chunk with the address between its
  start and its end, both included, or 0; any other mode gives 0.
\<close>

theorem mmap_read_meaning:
  assumes "map_ok m (memory_area g) es"
  shows "mmap_read m g req MMAP_GET_ADDR = Some (addr_of (chunks m es) (unat req))
    \<and> mmap_read m g req MMAP_GET_NUM = Some (of_nat (num_of (chunks m es) (ucast req)))
    \<and> (1 < mode \<longrightarrow> mmap_read m g req mode = Some 0)"
  using mmap_read_addr [OF assms] mmap_read_num [OF assms]
  by (auto simp: mmap_read_def MMAP_GET_NUM_def MMAP_GET_ADDR_def)

theorem mmap_read_meaning_witness:
  "mmap_read sample_map (sample_globals 1) 4 MMAP_GET_ADDR = Some 0x100000
    \<and> mmap_read sample_map (sample_globals 1) 0x101000 MMAP_GET_NUM = Some 7
    \<and> mmap_read sample_map (sample_globals 1) 0 7 = Some 0"
  using mmap_read_meaning [OF sample_ok(1), where req = 4]
    mmap_read_meaning [OF sample_ok(1), where req = "0x101000"]
    mmap_read_meaning [OF sample_ok(1), where req = 0 and mode = 7]
  by (simp add: sample_chunks addr_of_def num_of_simps touches_def)

text \<open>
  C28. On a map in ascending order below 4 GiB, with address 0 outside the reserved areas,
  \<open>mmap_allocate_frame\<close> always returns. While a chunk is left that is neither reserved by the
  map nor inside the kernel or the boot information, it takes the first one from
  \<open>next_free_frame\<close> on and returns its number, which is its index or one more; the next search
  starts after it.
\<close>

theorem mmap_allocate_frame_correct:
  assumes "map_ok m (memory_area g) es" and "\<not> blocked g 0" and "ascending (chunks m es)"
  shows "\<exists>f. mmap_allocate_frame m g = Some (f, g\<lparr>next_free_frame := f + 1\<rparr>)
    \<and> (\<forall>k. first_usable g (chunks m es) (unat (next_free_frame g)) k \<longrightarrow>
        unat f = (if follows (chunks m es) k then k else k + 1))"
proof (cases "\<exists>k. first_usable g (chunks m es) (unat (next_free_frame g)) k")
  case True
  then obtain k where k: "first_usable g (chunks m es) (unat (next_free_frame g)) k" ..
  have "k' = k" if "first_usable g (chunks m es) (unat (next_free_frame g)) k'" for k'
    using that k unfolding first_usable_def by (metis linorder_neqE_nat)
  with mmap_allocate_usable [OF assms k] show ?thesis by auto
next
  case False
  with mmap_allocate_frame_eq [OF assms(1,2)] show ?thesis by (auto simp: Let_def)
qed

theorem mmap_allocate_frame_correct_witness:
  "\<exists>f. mmap_allocate_frame sample_map (sample_globals 4) = Some (f, sample_globals (f + 1)) \<and> unat f = 7"
proof -
  have "first_usable (sample_globals 4) (chunks sample_map [16, 40, 64]) (unat (next_free_frame (sample_globals 4))) 7"
    unfolding first_usable_def
  proof (intro conjI allI impI)
    fix j assume "unat (next_free_frame (sample_globals 4)) \<le> j \<and> j < 7"
    then have "j = 4 \<or> j = 5 \<or> j = 6" by (auto simp: sample_globals_def)
    then show "\<not> usable (sample_globals 4) (chunks sample_map [16, 40, 64] ! j)"
      by (auto simp: sample_chunks sample_globals_def usable_def blocked_def)
  qed (simp_all add: sample_chunks sample_globals_def usable_def blocked_def)
  moreover have "follows (chunks sample_map [16, 40, 64]) 7"
    by (simp add: follows_def sample_chunks)
  ultimately show ?thesis
    using mmap_allocate_frame_correct [OF sample_ok(1,2) [of 4] sample_ok(3)] by (auto simp: sample_globals_def)
qed

text \<open>
  C29. No frame is handed out twice while usable chunks are left: the numbers of any run of
  allocations are strictly ascending, from \<open>next_free_frame\<close> on.
\<close>

theorem allocated_frames_ascend:
  assumes "alloc_run m es fs g g'" and "map_ok m (memory_area g) es" and "\<not> blocked g 0"
    and "ascending (chunks m es)"
  shows "sorted_wrt (<) fs \<and> distinct fs \<and> (\<forall>f \<in> set fs. next_free_frame g \<le> f)"
proof -
  have "sorted_wrt (<) fs" using alloc_run_increasing [OF assms] ..
  moreover from this have "distinct fs" by (simp add: strict_sorted_iff)
  ultimately show ?thesis using alloc_run_increasing [OF assms] by (auto simp: word_le_nat_alt)
qed

theorem allocated_frames_ascend_witness:
  "\<exists>f1 f2 g'. alloc_run sample_map [16, 40, 64] [f1, f2] (sample_globals 1) g' \<and> f1 < f2"
proof -
  have use: "\<exists>c \<in> set (drop (unat (next_free_frame g)) (chunks sample_map [16, 40, 64])). usable g c"
    if "g = sample_globals r" "unat r \<le> 8" for g r
  proof -
    have "chunks sample_map [16, 40, 64] ! 8 \<in> set (drop (unat r) (chunks sample_map [16, 40, 64]))"
      using that(2) by (auto simp: sample_chunks in_set_conv_nth intro!: exI [of _ "8 - unat r"])
    moreover have "usable g (chunks sample_map [16, 40, 64] ! 8)"
      by (simp add: that(1) sample_chunks sample_globals_def usable_def blocked_def)
    ultimately show ?thesis using that(1) by (auto simp: sample_globals_def)
  qed
  have first: "first_usable (sample_globals 1) (chunks sample_map [16, 40, 64]) (unat (next_free_frame (sample_globals 1))) 1"
    by (simp add: first_usable_def sample_chunks sample_globals_def usable_def blocked_def)
  have "follows (chunks sample_map [16, 40, 64]) 1" by (simp add: follows_def sample_chunks)
  then obtain f1 where f1: "mmap_allocate_frame sample_map (sample_globals 1) =
      Some (f1, (sample_globals 1)\<lparr>next_free_frame := f1 + 1\<rparr>)" "unat f1 = 1"
    using mmap_allocate_usable [OF sample_ok first] by auto
  then have g1: "(sample_globals 1)\<lparr>next_free_frame := f1 + 1\<rparr> = sample_globals 2"
    by (simp add: sample_globals_def word_eq_iff_unsigned [where ?'a = nat] unat_word_ariths)
  obtain f2 g2 where f2: "mmap_allocate_frame sample_map (sample_globals 2) = Some (f2, g2)"
    using mmap_allocate_frame_eq [OF sample_ok(1,2), of 2] by (auto simp: Let_def)
  have run: "alloc_run sample_map [16, 40, 64] [f1, f2] (sample_globals 1) g2"
    by (rule alloc_run_Cons [OF use [of _ 1] f1(1)], simp, simp, unfold g1,
        rule alloc_run_Cons [OF use [of _ 2] f2], simp, simp, rule alloc_run_Nil)
  with allocated_frames_ascend [OF run sample_ok] show ?thesis by (intro exI conjI) auto
qed

text \<open>
  C30. When no usable chunk is left and memory starts at address 0, \<open>mmap_allocate_frame\<close>
  does not report it: it returns frame 1, whoever owns it, and starts over after it.
\<close>

theorem mmap_allocate_frame_exhausted:
  assumes "map_ok m (memory_area g) es" and "\<not> blocked g 0"
    and "\<forall>c \<in> set (drop (unat (next_free_frame g)) (chunks m es)). \<not> usable g c"
    and "chunks m es = (0, res) # cs"
  shows "mmap_allocate_frame m g = Some (1, g\<lparr>next_free_frame := 2\<rparr>)"
proof -
  have "pick g (chunks m es) (unat (next_free_frame g)) = 0" by (rule no_usable_pick [OF assms(3)])
  moreover have "num_of (chunks m es) 0 = 1" by (simp add: assms(4) num_of_simps touches_def)
  ultimately show ?thesis using mmap_allocate_frame_eq [OF assms(1,2)] by (simp add: Let_def)
qed

theorem mmap_allocate_frame_exhausted_witness:
  "mmap_allocate_frame sample_map (sample_globals 9) = Some (1, (sample_globals 9)\<lparr>next_free_frame := 2\<rparr>)"
  by (rule mmap_allocate_frame_exhausted [OF sample_ok(1,2),
      where res = False and cs = "tl (chunks sample_map [16, 40, 64])"])
    (simp_all add: sample_chunks sample_globals_def usable_def blocked_def)

text \<open>
  C31. The number of an allocated frame leads back to the address of the chunk that was taken
  when the chunk before it ends where it starts; the first chunk of an area of memory gets the
  number of its successor, whose address is what \<open>mmap_read\<close> returns for it.
\<close>

theorem allocated_frame_address:
  assumes "map_ok m (memory_area g) es" and "\<not> blocked g 0" and "ascending (chunks m es)"
    and "first_usable g (chunks m es) (unat (next_free_frame g)) k"
  shows "\<exists>f g'. mmap_allocate_frame m g = Some (f, g') \<and> mmap_read m g' f MMAP_GET_ADDR =
    Some (if follows (chunks m es) k then fst (chunks m es ! k) else addr_of (chunks m es) (k + 1))"
proof -
  obtain f where f: "mmap_allocate_frame m g = Some (f, g\<lparr>next_free_frame := f + 1\<rparr>)"
    "unat f = (if follows (chunks m es) k then k else Suc k)"
    using mmap_allocate_usable [OF assms] by blast
  have "mmap_read m (g\<lparr>next_free_frame := f + 1\<rparr>) f MMAP_GET_ADDR = Some (addr_of (chunks m es) (unat f))"
    using assms(1) by (intro mmap_read_addr) simp
  moreover have "addr_of (chunks m es) k = fst (chunks m es ! k)"
    using assms(4) by (intro addr_of_index) (auto simp: first_usable_def usable_def)
  ultimately show ?thesis using f by auto
qed

theorem allocated_frame_address_witness:
  "\<exists>f g'. mmap_allocate_frame sample_map (sample_globals 0) = Some (f, g')
    \<and> mmap_read sample_map g' f MMAP_GET_ADDR = Some 0x1000"
proof -
  have "first_usable (sample_globals 0) (chunks sample_map [16, 40, 64]) (unat (next_free_frame (sample_globals 0))) 0"
    by (simp add: first_usable_def sample_chunks sample_globals_def usable_def blocked_def)
  from allocated_frame_address [OF sample_ok this] show ?thesis
    by (simp add: follows_def sample_chunks addr_of_def)
qed

text \<open>
  Frame numbers and addresses convert into each other below 4 GiB, and only there: from
  frame \<open>2 ^ 20\<close> on the start address wraps around.
\<close>

theorem frame_address_roundtrip:
  "(frame_containing_address (frame_starting_address f) = f \<longleftrightarrow> unat f < 2 ^ 20)
   \<and> (unat a < 2 ^ 32 \<longrightarrow> unat (frame_starting_address (frame_containing_address a)) = unat a - unat a mod 4096)"
proof
  have "unat (frame_containing_address (frame_starting_address f)) = unat f mod 2 ^ 20"
    by (simp add: unat_frame_containing_address unat_frame_starting_address)
  moreover have "unat f mod 2 ^ 20 = unat f \<longleftrightarrow> unat f < 2 ^ 20"
    by (metis mod_less mod_less_divisor zero_less_numeral zero_less_power)
  ultimately show "frame_containing_address (frame_starting_address f) = f \<longleftrightarrow> unat f < 2 ^ 20"
    by (subst word_eq_iff_unsigned [where ?'a = nat]) simp
next
  show "unat a < 2 ^ 32 \<longrightarrow> unat (frame_starting_address (frame_containing_address a)) = unat a - unat a mod 4096"
  proof
    assume a: "unat a < 2 ^ 32"
    then have "unat a div 4096 < 2 ^ 20" by (simp add: div_less_iff_less_mult)
    then show "unat (frame_starting_address (frame_containing_address a)) = unat a - unat a mod 4096"
      by (simp add: unat_frame_containing_address unat_frame_starting_address minus_mod_eq_div_mult)
  qed
qed

theorem frame_address_roundtrip_witness:
  "frame_containing_address (frame_starting_address 0xFFFFF) = 0xFFFFF
    \<and> frame_containing_address (frame_starting_address 0x100000) \<noteq> 0x100000
    \<and> unat (frame_starting_address (frame_containing_address 0xB8ABC)) = 0xB8000"
  using frame_address_roundtrip [of "0xFFFFF" "0xB8ABC"] frame_address_roundtrip [of "0x100000" 0] by simp

text \<open>
  \<open>mmap_deallocate_frame\<close> clears 32768 bytes from the start of the frame, the frame and
  the seven frames after it, and no other byte.
\<close>

theorem mmap_deallocate_frame_clears:
  "mmap_deallocate_frame flat_store f m =
    Inr (\<lambda>x. if within x (frame_starting_address f) 32768 then 0 else m x)"
proof -
  have "fold (\<lambda>i m. store64 m (frame_starting_address f + 8 * of_nat i) 0) [0..<4096] m =
      (\<lambda>x. if within x (frame_starting_address f) 32768 then 0 else m x)"
    using clear_words [of 4096 "frame_starting_address f" m] by (auto simp: fun_eq_iff simp del: upt_rec_numeral)
  then show ?thesis
    by (simp add: mmap_deallocate_frame_def flat_store_def Let_def PAGE_SIZE_def fold_res_Inr del: upt_rec_numeral)
qed

end
