(* ===== verification/Paging.thy ===== *)
theory Paging
  imports Mmap
begin

text \<open>
  Page tables (\<open>src/src/mmu/paging.c\<close>, \<open>paging.h\<close>). The kernel reads and writes its tables
  through the recursive entry of the level 4 table, that is through the translation they
  define; so the state is the physical memory with the address of the level 4 table, and every
  access of the code goes through \<open>hw_translate\<close>, the walk of the processor. An access to an
  address that is not mapped is a page fault. \<open>tlb\<close> is what the translation lookaside buffer
  remembers, by page number; that it never serves a stale entry to the accesses of this code is
  taken for granted, and \<open>unmap\<close> shows which entry the code drops.
\<close>

definition P4_TABLE :: u64 where "P4_TABLE = 0xfffffffffffff000"

type_synonym page_t = u64
type_synonym virtual_address_t = u64
type_synonym page_entry = u64
type_synonym page_table_t = u64

record paging_state =
  phys :: bytes
  cr3 :: u64
  mmap_vars :: mmap_globals
  tlb :: "u64 \<rightharpoonup> u64"

subsection \<open>The processor\<close>

definition entry_present :: "page_entry \<Rightarrow> bool" where "entry_present e = bit e 0"
definition entry_huge_page :: "page_entry \<Rightarrow> bool" where "entry_huge_page e = bit e 7"
definition entry_address :: "page_entry \<Rightarrow> u64" where "entry_address e = e AND 0x000ffffffffff000"

definition table_entry :: "bytes \<Rightarrow> u64 \<Rightarrow> u64 \<Rightarrow> page_entry" where
  "table_entry p base i = load64 p (base + 8 * i)"

definition va_index :: "nat \<Rightarrow> u64 \<Rightarrow> u64" where
  "va_index n v = drop_bit n v AND 511"

definition hw_translate :: "bytes \<Rightarrow> u64 \<Rightarrow> virtual_address_t \<Rightarrow> physical_address_t option" where
  "hw_translate p root v =
     (let e4 = table_entry p root (va_index 39 v) in
      if \<not> entry_present e4 then None else
      let e3 = table_entry p (entry_address e4) (va_index 30 v) in
      if \<not> entry_present e3 then None
      else if entry_huge_page e3 then Some ((e3 AND 0x000fffffc0000000) + (v AND 0x3fffffff)) else
      let e2 = table_entry p (entry_address e3) (va_index 21 v) in
      if \<not> entry_present e2 then None
      else if entry_huge_page e2 then Some ((e2 AND 0x000fffffffe00000) + (v AND 0x1fffff)) else
      let e1 = table_entry p (entry_address e2) (va_index 12 v) in
      if \<not> entry_present e1 then None
      else Some (entry_address e1 + (v AND 0xfff)))"

definition vload64 :: "u64 \<Rightarrow> paging_state \<Rightarrow> 's stop + u64" where
  "vload64 v s = (case hw_translate (phys s) (cr3 s) v of
     None \<Rightarrow> Inl (Fault Page_fault) | Some a \<Rightarrow> Inr (load64 (phys s) a))"

definition vstore64 :: "u64 \<Rightarrow> u64 \<Rightarrow> paging_state \<Rightarrow> 's stop + paging_state" where
  "vstore64 v x s = (case hw_translate (phys s) (cr3 s) v of
     None \<Rightarrow> Inl (Fault Page_fault) | Some a \<Rightarrow> Inr (s\<lparr>phys := store64 (phys s) a x\<rparr>))"

text \<open>\<^verbatim>\<open>invlpg\<close>: the processor forgets what it has remembered for the page of an address.\<close>

definition invlpg :: "u64 \<Rightarrow> paging_state \<Rightarrow> paging_state" where
  "invlpg v s = s\<lparr>tlb := (tlb s)(drop_bit 12 v := None)\<rparr>"

text \<open>
  The memory the frame allocator reads, byte by byte: the tag of the memory map, as long as its
  size field says and at least its 16-byte header. When one of these bytes is not mapped, the
  allocator ends in a page fault; a byte of \<open>view\<close> that is not mapped is never used.
\<close>

definition view :: "paging_state \<Rightarrow> bytes" where
  "view s v = (case hw_translate (phys s) (cr3 s) v of None \<Rightarrow> 0 | Some a \<Rightarrow> phys s a)"

definition mapped_bytes :: "paging_state \<Rightarrow> u64 \<Rightarrow> nat \<Rightarrow> bool" where
  "mapped_bytes s v n = list_all (\<lambda>i. hw_translate (phys s) (cr3 s) (v + of_nat i) \<noteq> None) [0..<n]"

definition map_mapped :: "paging_state \<Rightarrow> bool" where
  "map_mapped s \<longleftrightarrow> (let area = memory_area (mmap_vars s)
     in mapped_bytes s area 16 \<and> mapped_bytes s area (unat (tag_size (view s) area)))"

definition allocator_view :: "paging_state \<Rightarrow> 's stop + bytes" where
  "allocator_view s = (if map_mapped s then Inr (view s) else Inl (Fault Page_fault))"

subsection \<open>Entries and indices\<close>

text \<open>Bit fields of the union: assigning 1 or 0 to a one-bit field of the entry at an address.\<close>

definition set_field :: "nat \<Rightarrow> bool \<Rightarrow> page_entry \<Rightarrow> page_entry" where
  "set_field n b e = (if b then e OR push_bit n 1 else e AND NOT (push_bit n 1))"

definition assign_field :: "u64 \<Rightarrow> nat \<Rightarrow> bool \<Rightarrow> paging_state \<Rightarrow> 's stop + paging_state" where
  "assign_field a n b s = res_bind (vload64 a s) (\<lambda>e. vstore64 a (set_field n b e) s)"

definition set_addr_mask :: "u64 \<Rightarrow> u64 \<Rightarrow> paging_state \<Rightarrow> 's stop + paging_state" where
  "set_addr_mask entry addr s =
     res_bind (vload64 entry s) (\<lambda>e.
     res_bind (vstore64 entry (e AND 0xfff0000000000fff) s) (\<lambda>s.
     res_bind (vload64 entry s) (\<lambda>e.
     vstore64 entry (e OR (addr * PAGE_SIZE)) s)))"

text \<open>The four index functions take a 32-bit frame number.\<close>

definition p4_index :: "frame_t \<Rightarrow> u64" where "p4_index frame = ucast (drop_bit 27 frame AND 511)"
definition p3_index :: "frame_t \<Rightarrow> u64" where "p3_index frame = ucast (drop_bit 18 frame AND 511)"
definition p2_index :: "frame_t \<Rightarrow> u64" where "p2_index frame = ucast (drop_bit 9 frame AND 511)"
definition p1_index :: "frame_t \<Rightarrow> u64" where "p1_index frame = ucast (drop_bit 0 frame AND 511)"

definition pointed_frame :: "page_entry \<Rightarrow> frame_t" where
  "pointed_frame entry =
     (if entry_present entry then frame_containing_address (entry AND 0x000ffffffffff000) else 0)"

definition page_containing_address :: "u64 \<Rightarrow> page_t" where
  "page_containing_address addr = addr div PAGE_SIZE"

definition page_starting_address :: "page_t \<Rightarrow> u64" where
  "page_starting_address page = page * PAGE_SIZE"

subsection \<open>Walking the tables\<close>

definition next_table_address :: "page_table_t \<Rightarrow> u32 \<Rightarrow> paging_state \<Rightarrow> 's stop + page_table_t" where
  "next_table_address table index s =
     res_bind (vload64 (table + 8 * ucast index) s) (\<lambda>e.
     if entry_present e \<and> \<not> entry_huge_page e
     then Inr (push_bit 9 table OR ucast (push_bit 12 index)) else Inr 0)"

definition next_table_create :: "page_table_t \<Rightarrow> u64 \<Rightarrow> paging_state \<Rightarrow>
    's stop + page_table_t \<times> paging_state" where
  "next_table_create table index s =
     (let location = table + 8 * index in
      res_bind (vload64 location s) (\<lambda>e.
      res_bind
        (if entry_present e then Inr s
         else
           res_bind (allocator_view s) (\<lambda>m.
           res_bind (returning (mmap_allocate_frame m (mmap_vars s))) (\<lambda>(frame, g).
           let s = s\<lparr>mmap_vars := g\<rparr> in
           res_bind (returning (mmap_read m (mmap_vars s) frame MMAP_GET_ADDR)) (\<lambda>addr.
           res_bind (set_addr_mask location addr s) (\<lambda>s.
           res_bind (assign_field location 0 True s) (\<lambda>s.
           assign_field location 1 True s))))))
        (\<lambda>s. res_bind (next_table_address table (ucast index) s) (\<lambda>res. Inr (res, s)))))"

definition translate_page :: "page_t \<Rightarrow> paging_state \<Rightarrow> 's stop + frame_t" where
  "translate_page page s =
     res_bind (next_table_address P4_TABLE (ucast (p4_index (ucast page))) s) (\<lambda>p3.
     if p3 = 0 then Inr 0 else
     res_bind (next_table_address p3 (ucast (p3_index (ucast page))) s) (\<lambda>p2.
     if p2 = 0 then Inr 0 else
     res_bind (next_table_address p2 (ucast (p2_index (ucast page))) s) (\<lambda>p1.
     if p1 = 0 then Inr 0 else
     res_bind (vload64 (p1 + 8 * p1_index (ucast page)) s) (\<lambda>entry.
     Inr (pointed_frame entry)))))"

definition translate :: "virtual_address_t \<Rightarrow> paging_state \<Rightarrow> 's stop + physical_address_t" where
  "translate addr s =
     (let virt = page_containing_address addr;
          offset = virt mod PAGE_SIZE
      in res_bind (translate_page virt s) (\<lambda>frame.
         Inr (page_starting_address (ucast frame) + offset)))"

definition map_page_to_frame :: "page_t \<Rightarrow> frame_t \<Rightarrow> u8 \<Rightarrow> paging_state \<Rightarrow> 's stop + paging_state" where
  "map_page_to_frame page frame flags s =
     res_bind (next_table_create P4_TABLE (p4_index (ucast page)) s) (\<lambda>(p3, s).
     res_bind (next_table_create p3 (p3_index (ucast page)) s) (\<lambda>(p2, s).
     res_bind (next_table_create p2 (p2_index (ucast page)) s) (\<lambda>(p1, s).
     let location = p1 + 8 * p1_index (ucast page) in
     res_bind (set_addr_mask location (ucast frame) s) (\<lambda>s.
     res_bind (vstore64 location (ucast flags) s) (\<lambda>s.
     assign_field location 0 True s)))))"

definition identity_map :: "frame_t \<Rightarrow> u8 \<Rightarrow> paging_state \<Rightarrow> 's stop + paging_state" where
  "identity_map frame flags s =
     map_page_to_frame (page_containing_address (frame_starting_address frame)) frame flags s"

definition map_page :: "page_t \<Rightarrow> u8 \<Rightarrow> paging_state \<Rightarrow> 's stop + paging_state" where
  "map_page page flags s =
     res_bind (allocator_view s) (\<lambda>m.
     res_bind (returning (mmap_allocate_frame m (mmap_vars s))) (\<lambda>(frame, g).
     map_page_to_frame page frame flags (s\<lparr>mmap_vars := g\<rparr>)))"

definition unmap :: "page_t \<Rightarrow> paging_state \<Rightarrow> 's stop + paging_state" where
  "unmap page s =
     res_bind (next_table_address P4_TABLE (ucast (p4_index (ucast page))) s) (\<lambda>p3.
     res_bind (next_table_address p3 (ucast (p3_index (ucast page))) s) (\<lambda>p2.
     res_bind (next_table_address p2 (ucast (p2_index (ucast page))) s) (\<lambda>p1.
     let location = p1 + 8 * p1_index (ucast page) in
     res_bind (vload64 location s) (\<lambda>entry.
     if \<not> entry_present entry then Inr s
     else
       res_bind (assign_field location 0 False s) (\<lambda>s.
       res_bind (mmap_deallocate_frame vstore64 (pointed_frame entry) s) (\<lambda>s.
       Inr (invlpg (page_starting_address page) s)))))))"

subsection \<open>Addresses of tables\<close>

text \<open>
  A table address has its low 12 bits clear, and an index is below 512. The address the code
  computes for the next table shifts the three upper index fields up by one level and puts the
  index into the lowest one.
\<close>

definition aligned :: "u64 \<Rightarrow> bool" where "aligned t \<longleftrightarrow> t AND 0xfff = 0"
definition is_index :: "u64 \<Rightarrow> bool" where "is_index i \<longleftrightarrow> i AND 511 = i"

definition next_va :: "u64 \<Rightarrow> u64 \<Rightarrow> u64" where
  "next_va t i = push_bit 9 t OR push_bit 12 i"

lemma bit_masks [simp]:
  "bit (0xfff :: int) n \<longleftrightarrow> n < 12" "bit (511 :: int) n \<longleftrightarrow> n < 9" "bit (7 :: int) n \<longleftrightarrow> n < 3"
proof -
  have "(0xfff :: int) = mask 12" "(511 :: int) = mask 9" "(7 :: int) = mask 3"
    by (simp_all add: mask_eq_exp_minus_1)
  then show "bit (0xfff :: int) n \<longleftrightarrow> n < 12" "bit (511 :: int) n \<longleftrightarrow> n < 9" "bit (7 :: int) n \<longleftrightarrow> n < 3"
    by (simp_all only: bit_mask_iff) auto
qed

lemma bit_word_masks:
  "bit (0xfff :: u64) n \<longleftrightarrow> n < 12" "bit (511 :: u64) n \<longleftrightarrow> n < 9" "bit (511 :: u32) n \<longleftrightarrow> n < 9"
  by auto

lemma aligned_bit: "aligned t \<Longrightarrow> n < 12 \<Longrightarrow> \<not> bit t n"
  unfolding aligned_def by (metis bit_and_iff bit_0_eq bot_apply bot_bool_def bit_word_masks(1))

lemma alignedI: "(\<And>n. n < 12 \<Longrightarrow> \<not> bit t n) \<Longrightarrow> aligned t"
  unfolding aligned_def by (rule bit_eqI) (auto simp: bit_and_iff)

lemma index_bit: "is_index i \<Longrightarrow> 9 \<le> n \<Longrightarrow> \<not> bit i n"
  unfolding is_index_def by (metis bit_and_iff bit_word_masks(2) not_less)

lemma index_bitD: "bit i n \<Longrightarrow> is_index i \<Longrightarrow> n < 9"
  using index_bit not_less by blast

lemma aligned_bitD: "bit t n \<Longrightarrow> aligned t \<Longrightarrow> 12 \<le> n"
  using aligned_bit not_less by blast

lemma is_index_mask [simp]: "is_index (x AND 511)"
  by (simp add: is_index_def)

lemma va_index_is_index [simp]: "is_index (va_index n v)"
  by (simp add: va_index_def)

lemma aligned_next_va: "aligned t \<Longrightarrow> aligned (next_va t i)"
  by (rule alignedI) (auto simp: next_va_def bit_simps dest: aligned_bitD)

lemma va_index_next_va:
  assumes "aligned t" and "is_index i"
  shows "va_index 39 (next_va t i) = va_index 30 t" and "va_index 30 (next_va t i) = va_index 21 t"
    and "va_index 21 (next_va t i) = va_index 12 t" and "va_index 12 (next_va t i) = i"
  by (rule bit_eqI; use assms in \<open>auto simp: va_index_def next_va_def bit_simps
      dest: index_bitD aligned_bitD\<close>)+

text \<open>Entry \<open>i\<close> of the table at \<open>t\<close>: the sum has no carry.\<close>

lemma slot_OR:
  assumes "aligned t" and "is_index i"
  shows "t + 8 * i = t OR push_bit 3 i"
proof -
  have "t AND push_bit 3 i = 0"
    by (rule bit_eqI) (auto simp: bit_simps dest!: aligned_bitD [OF _ assms(1)] index_bitD [OF _ assms(2)])
  then have "t + push_bit 3 i = t OR push_bit 3 i" by (rule disjunctive_add_eq_or)
  moreover have "push_bit 3 i = 8 * i" by (simp add: push_bit_eq_mult)
  ultimately show ?thesis by simp
qed

lemma va_index_slot:
  assumes "aligned t" and "is_index i" and "12 \<le> n"
  shows "va_index n (t + 8 * i) = va_index n t"
  unfolding slot_OR [OF assms(1,2)]
  by (rule bit_eqI) (use assms(3) in \<open>auto simp: va_index_def bit_simps dest: index_bitD [OF _ assms(2)]\<close>)

lemma offset_slot:
  assumes "aligned t" and "is_index i"
  shows "(t + 8 * i) AND 0xfff = 8 * i"
proof -
  have "(t OR push_bit 3 i) AND 0xfff = push_bit 3 i"
    by (rule bit_eqI) (use assms in \<open>auto simp: bit_simps dest: aligned_bitD index_bitD\<close>)
  moreover have "push_bit 3 i = 8 * i" by (simp add: push_bit_eq_mult)
  ultimately show ?thesis by (simp add: slot_OR [OF assms])
qed

lemma P4_TABLE_va [simp]:
  "aligned P4_TABLE" "va_index 39 P4_TABLE = 511" "va_index 30 P4_TABLE = 511"
  "va_index 21 P4_TABLE = 511" "va_index 12 P4_TABLE = 511"
  by code_simp+

lemma index_511 [simp]: "is_index 511"
  by code_simp

lemma aligned_entry_address [simp]: "aligned (entry_address e)"
  by (simp add: aligned_def entry_address_def and.assoc)

text \<open>The top bit of a table address is set, so that it is not null.\<close>

lemma next_va_top: "bit t 63 \<Longrightarrow> bit t 54 \<Longrightarrow> bit (next_va t i) 63"
  by (simp add: next_va_def bit_simps)

subsection \<open>Paths through the tables\<close>

text \<open>
  \<open>path p b is\<close> is the table reached from the one at physical address \<open>b\<close> along the indices
  \<open>is\<close>, through entries that are present and not huge pages. With a recursive entry 511 in the
  root, an index 511 at the front changes nothing.
\<close>

fun path :: "bytes \<Rightarrow> u64 \<Rightarrow> u64 list \<Rightarrow> u64 option" where
  "path p b [] = Some b"
| "path p b (i # is) =
     (let e = table_entry p b i
      in if entry_present e \<and> \<not> entry_huge_page e then path p (entry_address e) is else None)"

definition recursive :: "bytes \<Rightarrow> u64 \<Rightarrow> bool" where
  "recursive p root \<longleftrightarrow> aligned root \<and> path p root [511] = Some root"

text \<open>The virtual address \<open>t\<close> is that of the table at physical address \<open>b\<close>.\<close>

definition table_at :: "paging_state \<Rightarrow> u64 \<Rightarrow> u64 \<Rightarrow> bool" where
  "table_at s t b \<longleftrightarrow> aligned t \<and>
     path (phys s) (cr3 s) [va_index 39 t, va_index 30 t, va_index 21 t, va_index 12 t] = Some b"

lemma recursive_path: "recursive p root \<Longrightarrow> path p root (511 # is) = path p root is"
  by (auto simp: recursive_def Let_def split: if_splits)

lemma path_append: "path p b (is @ js) = Option.bind (path p b is) (\<lambda>c. path p c js)"
  by (induction "is" arbitrary: b) (auto simp: Let_def)

lemma hw_translate_slot:
  assumes "table_at s t b" and "is_index i"
  shows "hw_translate (phys s) (cr3 s) (t + 8 * i) = Some (b + 8 * i)"
proof -
  have t: "aligned t" using assms(1) by (simp add: table_at_def)
  from assms(1) show ?thesis
    by (auto simp: hw_translate_def table_at_def va_index_slot [OF t assms(2)] offset_slot [OF t assms(2)] Let_def
        split: if_splits)
qed

lemma vload64_slot:
  "table_at s t b \<Longrightarrow> is_index i \<Longrightarrow> vload64 (t + 8 * i) s = Inr (table_entry (phys s) b i)"
  by (simp add: vload64_def hw_translate_slot table_entry_def)

lemma table_at_P4: "recursive (phys s) (cr3 s) \<Longrightarrow> table_at s P4_TABLE (cr3 s)"
  by (simp add: table_at_def recursive_path del: path.simps(2))

lemma table_at_next:
  assumes "recursive (phys s) (cr3 s)" and "table_at s t b" and "va_index 39 t = 511" and "is_index i"
    and "entry_present (table_entry (phys s) b i)" and "\<not> entry_huge_page (table_entry (phys s) b i)"
  shows "table_at s (next_va t i) (entry_address (table_entry (phys s) b i))"
proof -
  have t: "aligned t" using assms(2) by (simp add: table_at_def)
  have "path (phys s) (cr3 s) [va_index 30 t, va_index 21 t, va_index 12 t] = Some b"
    using assms(2) recursive_path [OF assms(1)] by (simp add: table_at_def assms(3) del: path.simps(2))
  then have "path (phys s) (cr3 s) ([va_index 30 t, va_index 21 t, va_index 12 t] @ [i]) =
      Some (entry_address (table_entry (phys s) b i))"
    unfolding path_append using assms(5,6) by simp
  then show ?thesis
    by (simp add: table_at_def va_index_next_va [OF t assms(4)] aligned_next_va [OF t] del: path.simps(2))
qed

lemma ucast_index:
  assumes "is_index i"
  shows "ucast (ucast i :: u32) = i" and "ucast (push_bit 12 (ucast i :: u32)) = push_bit 12 i"
  by (rule bit_eqI; auto simp: bit_simps dest: index_bitD [OF _ assms])+

lemma next_table_address_eq:
  assumes "table_at s t b" and "is_index i"
  shows "next_table_address t (ucast i) s = Inr (let e = table_entry (phys s) b i
    in if entry_present e \<and> \<not> entry_huge_page e then next_va t i else 0)"
  by (simp add: next_table_address_def ucast_index [OF assms(2)] vload64_slot [OF assms] next_va_def Let_def)

lemma next_va_nonzero:
  assumes "bit t 54"
  shows "next_va t i \<noteq> 0"
proof -
  have "bit (next_va t i) 63" using assms by (simp add: next_va_def bit_simps)
  then show ?thesis by auto
qed

lemma index_functions [simp]:
  "is_index (p4_index f)" "is_index (p3_index f)" "is_index (p2_index f)" "is_index (p1_index f)"
proof -
  have "is_index (ucast (x AND 511 :: u32))" for x
    unfolding is_index_def by (rule bit_eqI) (auto simp: bit_simps)
  then show "is_index (p4_index f)" "is_index (p3_index f)" "is_index (p2_index f)" "is_index (p1_index f)"
    by (simp_all only: p4_index_def p3_index_def p2_index_def p1_index_def)
qed

text \<open>The three tables below the root on the way to a page, at their virtual addresses.\<close>

definition va3 :: "frame_t \<Rightarrow> u64" where "va3 f = next_va P4_TABLE (p4_index f)"
definition va2 :: "frame_t \<Rightarrow> u64" where "va2 f = next_va (va3 f) (p3_index f)"
definition va1 :: "frame_t \<Rightarrow> u64" where "va1 f = next_va (va2 f) (p2_index f)"

lemma P4_bits: "11 < n \<Longrightarrow> n < 64 \<Longrightarrow> bit P4_TABLE n"
proof -
  assume n: "11 < n" "n < 64"
  have "P4_TABLE = NOT (mask 12)" by code_simp
  moreover have "bit (NOT (mask 12) :: u64) n" unfolding bit_not_iff bit_mask_iff using n by simp
  ultimately show ?thesis by metis
qed

lemma va_nonzero: "va3 f \<noteq> 0" "va2 f \<noteq> 0" "va1 f \<noteq> 0"
proof -
  have b3: "bit (va3 f) n" if "20 < n" "n < 64" for n
    using that P4_bits [of "n - 9"] by (simp add: va3_def next_va_def bit_simps)
  have b2: "bit (va2 f) n" if "29 < n" "n < 64" for n
    using that b3 [of "n - 9"] by (simp add: va2_def next_va_def bit_simps)
  show "va3 f \<noteq> 0" unfolding va3_def by (rule next_va_nonzero) (simp add: P4_bits)
  show "va2 f \<noteq> 0" unfolding va2_def by (rule next_va_nonzero) (simp add: b3)
  show "va1 f \<noteq> 0" unfolding va1_def by (rule next_va_nonzero) (simp add: b2)
qed

lemma va_indices [simp]:
  "aligned (va3 f)" "va_index 39 (va3 f) = 511" "va_index 30 (va3 f) = 511" "va_index 21 (va3 f) = 511"
  "aligned (va2 f)" "va_index 39 (va2 f) = 511" "va_index 30 (va2 f) = 511"
  by (simp_all add: va3_def va2_def va_index_next_va aligned_next_va)

subsection \<open>The software walk\<close>

lemma path_tables:
  assumes rec: "recursive (phys s) (cr3 s)"
    and p: "path (phys s) (cr3 s) [p4_index f, p3_index f, p2_index f] = Some b"
  obtains b3 b2 where "table_at s (va3 f) b3" and "table_at s (va2 f) b2" and "table_at s (va1 f) b"
    and "path (phys s) (cr3 s) [p4_index f] = Some b3" and "path (phys s) b3 [p3_index f] = Some b2"
    and "path (phys s) b2 [p2_index f] = Some b"
proof -
  let ?e4 = "table_entry (phys s) (cr3 s) (p4_index f)"
  let ?e3 = "table_entry (phys s) (entry_address ?e4) (p3_index f)"
  let ?e2 = "table_entry (phys s) (entry_address ?e3) (p2_index f)"
  have e: "entry_present ?e4" "\<not> entry_huge_page ?e4" "entry_present ?e3" "\<not> entry_huge_page ?e3"
    "entry_present ?e2" "\<not> entry_huge_page ?e2" "b = entry_address ?e2"
    using p by (auto simp: Let_def split: if_splits)
  have 3: "table_at s (va3 f) (entry_address ?e4)"
    unfolding va3_def by (rule table_at_next [OF rec table_at_P4 [OF rec]]) (use e in simp_all)
  have 2: "table_at s (va2 f) (entry_address ?e3)"
    unfolding va2_def by (rule table_at_next [OF rec 3]) (use e in simp_all)
  have 1: "table_at s (va1 f) (entry_address ?e2)"
    unfolding va1_def by (rule table_at_next [OF rec 2]) (use e in simp_all)
  show thesis
    by (rule that [OF 3 2]) (use 1 e in \<open>simp_all add: Let_def\<close>)
qed

lemma translate_page_eq:
  assumes rec: "recursive (phys s) (cr3 s)"
  shows "translate_page page s = Inr (let f = ucast page in
    case path (phys s) (cr3 s) [p4_index f, p3_index f, p2_index f] of
      None \<Rightarrow> 0 | Some b \<Rightarrow> pointed_frame (table_entry (phys s) b (p1_index f)))"
proof -
  let ?f = "ucast page :: frame_t"
  let ?e4 = "table_entry (phys s) (cr3 s) (p4_index ?f)"
  let ?e3 = "table_entry (phys s) (entry_address ?e4) (p3_index ?f)"
  let ?e2 = "table_entry (phys s) (entry_address ?e3) (p2_index ?f)"
  note 4 = table_at_P4 [OF rec]
  note n4 = next_table_address_eq [OF 4 index_functions(1)]
  show ?thesis
  proof (cases "entry_present ?e4 \<and> \<not> entry_huge_page ?e4")
    case True
    then have 3: "table_at s (va3 ?f) (entry_address ?e4)"
      unfolding va3_def by (intro table_at_next [OF rec 4]) simp_all
    note n3 = next_table_address_eq [OF 3 index_functions(2)]
    show ?thesis
    proof (cases "entry_present ?e3 \<and> \<not> entry_huge_page ?e3")
      case True3: True
      then have 2: "table_at s (va2 ?f) (entry_address ?e3)"
        unfolding va2_def by (intro table_at_next [OF rec 3]) simp_all
      note n2 = next_table_address_eq [OF 2 index_functions(3)]
      show ?thesis
      proof (cases "entry_present ?e2 \<and> \<not> entry_huge_page ?e2")
        case True2: True
        then have 1: "table_at s (va1 ?f) (entry_address ?e2)"
          unfolding va1_def by (intro table_at_next [OF rec 2]) simp_all
        note load = vload64_slot [OF 1 index_functions(4)]
        show ?thesis
          using True True3 True2 va_nonzero
          by (simp add: translate_page_def n4 n3 n2 load Let_def flip: va3_def va2_def va1_def)
      qed (use True True3 va_nonzero in \<open>auto simp: translate_page_def n4 n3 n2 Let_def simp flip: va3_def va2_def\<close>)
    qed (use True va_nonzero in \<open>auto simp: translate_page_def n4 n3 Let_def simp flip: va3_def\<close>)
  qed (auto simp: translate_page_def n4 Let_def)
qed

subsection \<open>The walk of the processor\<close>

definition no_huge :: "bytes \<Rightarrow> u64 \<Rightarrow> u64 \<Rightarrow> bool" where
  "no_huge p root v \<longleftrightarrow>
     (let e4 = table_entry p root (va_index 39 v);
          e3 = table_entry p (entry_address e4) (va_index 30 v);
          e2 = table_entry p (entry_address e3) (va_index 21 v)
      in \<not> entry_huge_page e4 \<and> (entry_present e4 \<longrightarrow> \<not> entry_huge_page e3 \<and>
           (entry_present e3 \<longrightarrow> \<not> entry_huge_page e2)))"

lemma hw_translate_path:
  assumes "no_huge p root v"
  shows "hw_translate p root v =
    (case path p root [va_index 39 v, va_index 30 v, va_index 21 v] of None \<Rightarrow> None
     | Some b \<Rightarrow> let e = table_entry p b (va_index 12 v)
                in if entry_present e then Some (entry_address e + (v AND 0xfff)) else None)"
  using assms by (simp add: hw_translate_def no_huge_def Let_def)

lemma huge_path: "\<not> no_huge p root v \<Longrightarrow> path p root [va_index 39 v, va_index 30 v, va_index 21 v] = None"
  by (auto simp: no_huge_def Let_def)

lemma page_indices:
  assumes "page < 2 ^ 32"
  shows "va_index 39 (page * 4096) = p4_index (ucast page)" and "va_index 30 (page * 4096) = p3_index (ucast page)"
    and "va_index 21 (page * 4096) = p2_index (ucast page)" and "va_index 12 (page * 4096) = p1_index (ucast page)"
    and "page * 4096 AND 0xfff = 0"
proof -
  have shift: "page * 4096 = push_bit 12 page" by (simp add: push_bit_eq_mult)
  have high: "n < 32" if "bit page n" for n
  proof (rule ccontr)
    assume "\<not> n < 32"
    then have "(2 :: nat) ^ 32 \<le> 2 ^ n" by (intro power_increasing) simp_all
    moreover have "unat page < 2 ^ 32" using assms by (simp add: word_less_nat_alt)
    ultimately have "\<not> bit (unat page) n" by (simp add: bit_iff_odd)
    with that show False by (simp add: bit_unsigned_iff bit_imp_le_length)
  qed
  show "va_index 39 (page * 4096) = p4_index (ucast page)"
    unfolding shift by (rule bit_eqI) (auto simp: va_index_def p4_index_def bit_simps dest: high)
  show "va_index 30 (page * 4096) = p3_index (ucast page)"
    unfolding shift by (rule bit_eqI) (auto simp: va_index_def p3_index_def bit_simps dest: high)
  show "va_index 21 (page * 4096) = p2_index (ucast page)"
    unfolding shift by (rule bit_eqI) (auto simp: va_index_def p2_index_def bit_simps dest: high)
  show "va_index 12 (page * 4096) = p1_index (ucast page)"
    unfolding shift by (rule bit_eqI) (auto simp: va_index_def p1_index_def bit_simps dest: high)
  show "page * 4096 AND 0xfff = 0"
    unfolding shift by (rule bit_eqI) (auto simp: bit_simps)
qed

lemma translate_page_hw:
  assumes rec: "recursive (phys s) (cr3 s)" and page: "page < 2 ^ 32"
  shows "translate_page page s = Inr (if no_huge (phys s) (cr3 s) (page * 4096) then
    (case hw_translate (phys s) (cr3 s) (page * 4096) of None \<Rightarrow> 0 | Some a \<Rightarrow> frame_containing_address a) else 0)"
proof -
  note eq = translate_page_eq [OF rec, of page]
  note huge_path [of "phys s" "cr3 s" "page * 4096"] hw_translate_path [of "phys s" "cr3 s" "page * 4096"]
  then show ?thesis
    unfolding page_indices [OF page] eq
    by (auto simp: Let_def pointed_frame_def entry_address_def split: option.split if_splits simp del: path.simps)
qed

subsection \<open>Stores to entries\<close>

lemma dvd_8_apart:
  fixes a b :: u64
  assumes "8 dvd unat a" and "8 dvd unat b" and "a \<noteq> b"
  shows "8 \<le> unat (a - b)"
proof -
  have "8 dvd unat (a - b)"
    using assms(1,2) by (auto simp: unat_sub_if_size word_size intro!: dvd_diff_nat dvd_add)
  moreover have "unat (a - b) \<noteq> 0" using assms(3) by (simp add: unat_eq_zero)
  ultimately show ?thesis by (auto dest: dvd_imp_le)
qed

lemma slot_dvd_8:
  assumes "aligned t" and "is_index i"
  shows "8 dvd unat (t + 8 * i)"
proof -
  have "(t OR push_bit 3 i) AND 7 = 0"
    by (rule bit_eqI) (auto simp: bit_simps dest!: aligned_bitD [OF _ assms(1)])
  then show ?thesis unfolding slot_OR [OF assms, symmetric] addr_AND_7 .
qed

lemma slot_eq_iff:
  assumes "aligned t" "is_index i" "aligned t'" "is_index i'" and "t + 8 * i = t' + 8 * i'"
  shows "t = t'" and "8 * i = 8 * i'"
  using assms offset_slot [OF assms(1,2)] offset_slot [OF assms(3,4)] by auto

lemma table_entry_store [simp]: "table_entry (store64 p (t + 8 * i) x) t i = x"
  by (simp add: table_entry_def)

lemma slots_apart:
  assumes "aligned t" "is_index i" "aligned t'" "is_index i'" and "t \<noteq> t' \<or> i \<noteq> i'"
  shows "8 \<le> unat (t + 8 * i - (t' + 8 * i'))"
proof (rule dvd_8_apart)
  show "t + 8 * i \<noteq> t' + 8 * i'"
  proof
    assume eq: "t + 8 * i = t' + 8 * i'"
    have "push_bit 3 i = push_bit 3 i'"
      using slot_eq_iff(2) [OF assms(1-4) eq] by (simp add: push_bit_eq_mult mult.commute)
    then have "drop_bit 3 (push_bit 3 i) = drop_bit 3 (push_bit 3 i')" by simp
    moreover have "drop_bit 3 (push_bit 3 j) = j" if "is_index j" for j
      by (rule bit_eqI) (auto simp: bit_simps dest: index_bitD [OF _ that])
    ultimately have "i = i'" using assms by simp
    with slot_eq_iff(1) [OF assms(1-4) eq] assms(5) show False by simp
  qed
qed (use assms in \<open>auto intro: slot_dvd_8\<close>)

lemma slot_frame:
  assumes "aligned t" "is_index i" "aligned t'" "is_index i'" and "t \<noteq> t' \<or> i \<noteq> i'"
    and "within x (t' + 8 * i') 8"
  shows "store64 p (t + 8 * i) v x = p x"
  by (rule store64_frame, rule apart_8 [OF slots_apart slots_apart assms(6)]) (use assms in auto)

lemma table_entry_store_other:
  assumes "aligned t" "is_index i" "aligned t'" "is_index i'" and "t \<noteq> t' \<or> i \<noteq> i'"
  shows "table_entry (store64 p (t + 8 * i) x) t' i' = table_entry p t' i'"
  unfolding table_entry_def by (rule load64_cong) (rule slot_frame [OF assms])

lemma store64_store64 [simp]: "store64 (store64 p a x) a y = store64 p a y"
  by (rule ext) (simp add: store64_def store32_def)

lemma vstore64_slot:
  "table_at s t b \<Longrightarrow> is_index i \<Longrightarrow> vstore64 (t + 8 * i) x s = Inr (s\<lparr>phys := store64 (phys s) (b + 8 * i) x\<rparr>)"
  by (simp add: vstore64_def hw_translate_slot)

text \<open>
  A slot whose table is reached without passing through the slot itself: the updates of the
  code to it go through one after the other.
\<close>

definition stable_slot :: "paging_state \<Rightarrow> u64 \<Rightarrow> u64 \<Rightarrow> u64 \<Rightarrow> bool" where
  "stable_slot s t b i \<longleftrightarrow> is_index i \<and> (\<forall>x. table_at (s\<lparr>phys := store64 (phys s) (b + 8 * i) x\<rparr>) t b)
     \<and> table_at s t b"

lemma set_addr_mask_slot:
  assumes "stable_slot s t b i"
  shows "set_addr_mask (t + 8 * i) addr s = Inr (s\<lparr>phys := store64 (phys s) (b + 8 * i)
    ((table_entry (phys s) b i AND 0xfff0000000000fff) OR (addr * 4096))\<rparr>)"
proof -
  have i: "is_index i" and t: "table_at s t b"
    and st: "\<And>x. table_at (s\<lparr>phys := store64 (phys s) (b + 8 * i) x\<rparr>) t b"
    using assms by (simp_all add: stable_slot_def)
  show ?thesis
    by (simp add: set_addr_mask_def vload64_slot [OF t i] vstore64_slot [OF t i] vload64_slot [OF st i]
        vstore64_slot [OF st i] PAGE_SIZE_def)
qed

lemma assign_field_slot:
  assumes "stable_slot s t b i"
  shows "assign_field (t + 8 * i) n v (s\<lparr>phys := store64 (phys s) (b + 8 * i) x\<rparr>) =
    Inr (s\<lparr>phys := store64 (phys s) (b + 8 * i) (set_field n v x)\<rparr>)"
proof -
  have i: "is_index i" and st: "\<And>x. table_at (s\<lparr>phys := store64 (phys s) (b + 8 * i) x\<rparr>) t b"
    using assms by (simp_all add: stable_slot_def)
  show ?thesis by (simp add: assign_field_def vload64_slot [OF st i] vstore64_slot [OF st i])
qed

lemma next_table_create_present:
  assumes "table_at s t b" and "is_index i"
    and "entry_present (table_entry (phys s) b i)" and "\<not> entry_huge_page (table_entry (phys s) b i)"
  shows "next_table_create t i s = Inr (next_va t i, s)"
  by (simp add: next_table_create_def vload64_slot [OF assms(1,2)] assms(3,4)
      next_table_address_eq [OF assms(1,2)] Let_def)

subsection \<open>Writing the last entry\<close>

text \<open>
  \<open>walk_to s f b\<close>: the tables on the way to the page with number \<open>f\<close> exist, the last one at
  \<open>b\<close>, and none of the upper ones is the last one.
\<close>

definition walk_to :: "paging_state \<Rightarrow> frame_t \<Rightarrow> u64 \<Rightarrow> bool" where
  "walk_to s f b \<longleftrightarrow> recursive (phys s) (cr3 s)
     \<and> path (phys s) (cr3 s) [p4_index f, p3_index f, p2_index f] = Some b
     \<and> b \<noteq> cr3 s \<and> path (phys s) (cr3 s) [p4_index f] \<noteq> Some b
     \<and> path (phys s) (cr3 s) [p4_index f, p3_index f] \<noteq> Some b"

lemma path_store_other:
  assumes "aligned b" and "is_index i" and "aligned c" and "b \<noteq> c" and "is_index j"
  shows "path (store64 p (b + 8 * i) x) c [j] = path p c [j]"
  by (simp add: table_entry_store_other [OF assms(1,2,3,5)] assms(4) Let_def)

lemma walk_to_store:
  assumes w: "walk_to s f b" and i: "is_index i"
  shows "walk_to (s\<lparr>phys := store64 (phys s) (b + 8 * i) x\<rparr>) f b"
proof -
  let ?p = "store64 (phys s) (b + 8 * i) x"
  have rec: "recursive (phys s) (cr3 s)"
    and p: "path (phys s) (cr3 s) [p4_index f, p3_index f, p2_index f] = Some b"
    using w by (simp_all add: walk_to_def del: path.simps)
  obtain b3 b2 where t: "path (phys s) (cr3 s) [p4_index f] = Some b3" "path (phys s) b3 [p3_index f] = Some b2"
    "path (phys s) b2 [p2_index f] = Some b"
    using path_tables [OF rec p] by blast
  have al: "aligned b3" "aligned b2" "aligned b" using t by (auto simp: Let_def split: if_splits)
  have p2: "path (phys s) (cr3 s) ([p4_index f] @ [p3_index f]) = Some b2"
    unfolding path_append using t by (simp del: path.simps)
  have ne: "b \<noteq> cr3 s" "b \<noteq> b3" "b \<noteq> b2"
    using w t(1) p2 by (auto simp: walk_to_def simp del: path.simps)
  have root: "aligned (cr3 s)" "path (phys s) (cr3 s) [511] = Some (cr3 s)"
    using rec by (simp_all add: recursive_def del: path.simps)
  note keep = path_store_other [OF al(3) i, where p = "phys s" and x = x]
  have 4: "path ?p (cr3 s) [p4_index f] = Some b3"
    using keep [OF root(1) ne(1) index_functions(1)] t(1) by (simp only:)
  have 3: "path ?p b3 [p3_index f] = Some b2"
    using keep [OF al(1) ne(2) index_functions(2)] t(2) by (simp only:)
  have 2: "path ?p b2 [p2_index f] = Some b"
    using keep [OF al(2) ne(3) index_functions(3)] t(3) by (simp only:)
  have 43: "path ?p (cr3 s) ([p4_index f] @ [p3_index f]) = Some b2"
    unfolding path_append 4 using 3 by (simp del: path.simps)
  have 432: "path ?p (cr3 s) (([p4_index f] @ [p3_index f]) @ [p2_index f]) = Some b"
    unfolding path_append [of _ _ "[p4_index f] @ [p3_index f]"] 43 using 2 by (simp del: path.simps)
  have "path ?p (cr3 s) [511] = Some (cr3 s)"
    using keep [OF root(1) ne(1) index_511] root(2) by (simp only:)
  with root(1) 4 43 432 ne show ?thesis
    by (simp add: walk_to_def recursive_def del: path.simps)
qed

lemma walk_to_table:
  assumes "walk_to s f b"
  shows "table_at s (va1 f) b"
  using assms by (auto simp: walk_to_def simp del: path.simps elim: path_tables)

lemma walk_to_stable:
  assumes "walk_to s f b"
  shows "stable_slot s (va1 f) b (p1_index f)"
  using walk_to_table [OF walk_to_store [OF assms index_functions(4)]] walk_to_table [OF assms]
  by (simp add: stable_slot_def)

lemma walk_to_create:
  assumes "walk_to s f b"
  shows "next_table_create P4_TABLE (p4_index f) s = Inr (va3 f, s)"
    and "next_table_create (va3 f) (p3_index f) s = Inr (va2 f, s)"
    and "next_table_create (va2 f) (p2_index f) s = Inr (va1 f, s)"
proof -
  have rec: "recursive (phys s) (cr3 s)"
    and p: "path (phys s) (cr3 s) [p4_index f, p3_index f, p2_index f] = Some b"
    using assms by (simp_all add: walk_to_def del: path.simps)
  obtain b3 b2 where t: "table_at s (va3 f) b3" "table_at s (va2 f) b2"
    "path (phys s) (cr3 s) [p4_index f] = Some b3" "path (phys s) b3 [p3_index f] = Some b2"
    "path (phys s) b2 [p2_index f] = Some b"
    using path_tables [OF rec p] by blast
  show "next_table_create P4_TABLE (p4_index f) s = Inr (va3 f, s)"
    unfolding va3_def
    by (rule next_table_create_present [OF table_at_P4 [OF rec]]) (use t(3) in \<open>auto simp: Let_def split: if_splits\<close>)
  show "next_table_create (va3 f) (p3_index f) s = Inr (va2 f, s)"
    unfolding va2_def
    by (rule next_table_create_present [OF t(1)]) (use t(4) in \<open>auto simp: Let_def split: if_splits\<close>)
  show "next_table_create (va2 f) (p2_index f) s = Inr (va1 f, s)"
    unfolding va1_def
    by (rule next_table_create_present [OF t(2)]) (use t(5) in \<open>auto simp: Let_def split: if_splits\<close>)
qed

lemma set_field_0: "set_field 0 True e = e OR 1"
  by (simp add: set_field_def)

lemma map_page_to_frame_eq:
  assumes w: "walk_to s (ucast page) b"
  shows "map_page_to_frame page frame flags s =
    Inr (s\<lparr>phys := store64 (phys s) (b + 8 * p1_index (ucast page)) (ucast flags OR 1)\<rparr>)"
proof -
  let ?f = "ucast page :: frame_t"
  note st = walk_to_stable [OF w]
  note vstore = vstore64_slot [OF walk_to_table [OF walk_to_store [OF w index_functions(4)]] index_functions(4)]
  show ?thesis
    by (simp add: map_page_to_frame_def walk_to_create [OF w] set_addr_mask_slot [OF st] assign_field_slot [OF st]
        vstore set_field_0 Let_def)
qed

subsection \<open>Address fields\<close>

lemma bit_address_mask [simp]: "bit (0x000ffffffffff000 :: int) n \<longleftrightarrow> 12 \<le> n \<and> n < 52"
proof -
  have "(0x000ffffffffff000 :: int) = push_bit 12 (mask 40)" by (simp add: mask_eq_exp_minus_1 push_bit_eq_mult)
  then show ?thesis by (simp only: bit_push_bit_iff bit_mask_iff) auto
qed

lemma bit_flags_mask [simp]: "bit (0xfff0000000000fff :: int) n \<longleftrightarrow> n < 12 \<or> (52 \<le> n \<and> n < 64)"
proof -
  have "(0xfff0000000000fff :: int) = mask 12 OR push_bit 52 (mask 12)"
    by (simp add: mask_eq_exp_minus_1 push_bit_eq_mult)
  then show ?thesis by (simp only: bit_or_iff bit_push_bit_iff bit_mask_iff) auto
qed

lemma times_4096: "(x :: u64) * 4096 = push_bit 12 x"
  by (simp add: push_bit_eq_mult)

lemma frame_field:
  fixes f :: u32
  shows "((e AND 0xfff0000000000fff) OR (ucast f * 4096)) AND 0x000ffffffffff000 = ucast f * (4096 :: u64)"
    and "((e AND 0xfff0000000000fff) OR (ucast f * 4096)) AND 0xfff = (e AND 0xfff :: u64)"
  unfolding times_4096 by (rule bit_eqI; auto simp: bit_simps dest: bit_imp_le_length)+

lemma frame_containing_page: "frame_containing_address (ucast f * 4096) = f"
proof -
  have "(ucast f * 4096 :: u64) div 4096 = drop_bit 12 (push_bit 12 (ucast f))"
    by (simp add: times_4096 drop_bit_eq_div)
  also have "\<dots> = ucast f" by (rule bit_eqI) (auto simp: bit_simps dest: bit_imp_le_length)
  finally have "(ucast f * 4096 :: u64) div 4096 = ucast f" .
  moreover have "ucast (ucast f :: u64) = f" by (rule bit_eqI) (auto simp: bit_simps dest: bit_imp_le_length)
  ultimately show ?thesis unfolding frame_containing_address_def PAGE_SIZE_def by metis
qed

lemma flags_address: "entry_address (ucast (flags :: u8) OR 1) = 0"
  unfolding entry_address_def by (rule bit_eqI) (auto simp: bit_simps bit_1_iff dest: bit_imp_le_length)

lemma entry_flags [simp]: "entry_present (e OR 1)" "entry_present (e OR 3)"
  "entry_huge_page (e OR 3) = entry_huge_page e"
  by (simp_all add: entry_present_def entry_huge_page_def bit_or_iff)

lemma page_not_huge: "\<not> entry_huge_page (addr * 4096)"
  unfolding times_4096 by (simp add: entry_huge_page_def bit_simps)

lemma small_address:
  assumes "addr < 2 ^ 40"
  shows "entry_address (addr * 4096 OR 3) = addr * 4096"
proof -
  have small: "n < 40" if "bit addr n" for n
  proof (rule ccontr)
    assume "\<not> n < 40"
    then have "(2 :: nat) ^ 40 \<le> 2 ^ n" by (intro power_increasing) simp_all
    moreover have "unat addr < 2 ^ 40" using assms by (simp add: word_less_nat_alt)
    ultimately have "\<not> bit (unat addr) n" by (simp add: bit_iff_odd)
    with that show False by (simp add: bit_unsigned_iff bit_imp_le_length)
  qed
  moreover have "bit (3 :: int) n \<longleftrightarrow> n < 2" for n
  proof -
    have "(3 :: int) = mask 2" by (simp add: mask_eq_exp_minus_1)
    then show ?thesis by (simp only: bit_mask_iff) auto
  qed
  ultimately show ?thesis
    unfolding entry_address_def times_4096 by (intro bit_eqI) (auto simp: bit_simps dest: small)
qed

subsection \<open>Creating a table\<close>

lemma table_at_vars [simp]: "table_at (s\<lparr>mmap_vars := g\<rparr>) t b = table_at s t b"
  by (simp add: table_at_def)

lemma stable_slot_vars [simp]: "stable_slot (s\<lparr>mmap_vars := g\<rparr>) t b i = stable_slot s t b i"
  by (simp add: stable_slot_def table_at_def)

lemma view_vars [simp]: "view (s\<lparr>mmap_vars := g\<rparr>) = view s"
  by (simp add: fun_eq_iff view_def split: option.split)

lemma next_table_create_absent:
  assumes st: "stable_slot s t b i" and e: "table_entry (phys s) b i = 0" and m: "map_mapped s"
    and f: "mmap_allocate_frame (view s) (mmap_vars s) = Some (f, g)"
    and a: "mmap_read (view s) g f MMAP_GET_ADDR = Some addr"
  shows "next_table_create t i s =
    Inr (next_va t i, s\<lparr>mmap_vars := g, phys := store64 (phys s) (b + 8 * i) (addr * 4096 OR 3)\<rparr>)"
proof -
  let ?s = "s\<lparr>mmap_vars := g\<rparr>" and ?e = "addr * 4096 OR 3"
  have i: "is_index i" and t: "table_at s t b" using st by (simp_all add: stable_slot_def)
  have st': "stable_slot ?s t b i" using st by simp
  note mask = set_addr_mask_slot [OF st', simplified] and field = assign_field_slot [OF st', simplified]
  have fields: "set_field (Suc 0) True (set_field 0 True (addr * 4096)) = ?e"
    by (simp add: set_field_def or.assoc)
  have t': "table_at (?s\<lparr>phys := store64 (phys s) (b + 8 * i) ?e\<rparr>) t b"
    using st' by (simp add: stable_slot_def)
  note next_table = next_table_address_eq [OF t' i, simplified]
  show ?thesis
    using e
    by (simp add: next_table_create_def vload64_slot [OF t i] entry_present_def allocator_view_def m f a mask field fields next_table
        page_not_huge Let_def)
qed

lemma stable_slot_P4:
  assumes rec: "recursive (phys s) (cr3 s)" and i: "is_index i" and "i \<noteq> 511"
  shows "stable_slot s P4_TABLE (cr3 s) i"
proof -
  have root: "aligned (cr3 s)" using rec by (simp add: recursive_def)
  have "recursive (store64 (phys s) (cr3 s + 8 * i) x) (cr3 s)" for x
    using rec
    by (auto simp: recursive_def table_entry_store_other [OF root i root index_511] assms(3) Let_def split: if_splits)
  then have "table_at (s\<lparr>phys := store64 (phys s) (cr3 s + 8 * i) x\<rparr>) P4_TABLE (cr3 s)" for x
    using table_at_P4 [of "s\<lparr>phys := store64 (phys s) (cr3 s + 8 * i) x\<rparr>"] by simp
  with i table_at_P4 [OF rec] show ?thesis by (simp add: stable_slot_def)
qed

subsection \<open>Tables for the witnesses\<close>

text \<open>
  A level 4 table at \<open>0x1000\<close> with its recursive entry, tables at \<open>0x2000\<close>, \<open>0x3000\<close> and
  \<open>0x4000\<close> for the first 2 MiB, page 0 on the frame at \<open>0x5000\<close> with the memory map of the
  allocator's witnesses, page 5 on the frame at \<open>0x7000\<close>.
\<close>

definition sample_tables :: bytes where
  "sample_tables =
     store64 (store64 (store64 (store64 (store64 (store64 (\<lambda>_. 0)
       0x1FF8 0x1003) 0x1000 0x2003) 0x2000 0x3003) 0x3000 0x4003) 0x4000 0x5003) 0x4028 0x7003"

definition sample_paging :: "frame_t \<Rightarrow> paging_state" where
  "sample_paging f = \<lparr>phys = (\<lambda>a. if 0x5000 \<le> a \<and> a < 0x6000 then sample_map (a - 0x5000) else sample_tables a),
     cr3 = 0x1000, mmap_vars = sample_globals f, tlb = (\<lambda>v. if v = 5 then Some 0x7000 else None)\<rparr>"

lemma sample_paging_simps [simp]:
  "cr3 (sample_paging f) = 0x1000" "mmap_vars (sample_paging f) = sample_globals f"
  by (simp_all add: sample_paging_def)

lemma within_below:
  assumes "within x a n" and "unat a + n \<le> N" and "N \<le> 2 ^ 64"
  shows "unat x < N"
proof -
  have "x = a + (x - a)" by simp
  moreover have "unat (a + (x - a)) = unat a + unat (x - a)"
    using assms by (subst unat_add_lem [THEN iffD1]) (simp_all add: within_def)
  ultimately have "unat x = unat a + unat (x - a)" by simp
  with assms show ?thesis by (simp add: within_def)
qed

lemma sample_load:
  assumes "unat a + 8 \<le> 0x5000"
  shows "load64 (phys (sample_paging f)) a = load64 sample_tables a"
proof (rule load64_cong)
  fix x assume "within x a 8"
  then have "unat x < 0x5000" by (rule within_below) (use assms in simp_all)
  then show "phys (sample_paging f) x = sample_tables x" by (simp add: sample_paging_def word_le_nat_alt)
qed

lemma sample_table_entry:
  "table_entry (phys (sample_paging f)) 0x1000 511 = 0x1003"
  "table_entry (phys (sample_paging f)) 0x1000 0 = 0x2003"
  "table_entry (phys (sample_paging f)) 0x1000 3 = 0"
  "table_entry (phys (sample_paging f)) 0x2000 0 = 0x3003"
  "table_entry (phys (sample_paging f)) 0x3000 0 = 0x4003"
  "table_entry (phys (sample_paging f)) 0x4000 0 = 0x5003"
  "table_entry (phys (sample_paging f)) 0x4000 5 = 0x7003"
proof -
  have zero: "load64 (\<lambda>_. 0) a = 0" for a by (simp add: load64_def load32_def)
  show "table_entry (phys (sample_paging f)) 0x1000 511 = 0x1003"
    "table_entry (phys (sample_paging f)) 0x1000 0 = 0x2003"
    "table_entry (phys (sample_paging f)) 0x1000 3 = 0"
    "table_entry (phys (sample_paging f)) 0x2000 0 = 0x3003"
    "table_entry (phys (sample_paging f)) 0x3000 0 = 0x4003"
    "table_entry (phys (sample_paging f)) 0x4000 0 = 0x5003"
    "table_entry (phys (sample_paging f)) 0x4000 5 = 0x7003"
    by (simp_all add: table_entry_def sample_load sample_tables_def load64_store64_apart zero)
qed

lemma sample_entries_bits:
  "entry_present 0x1003" "\<not> entry_huge_page 0x1003" "entry_address 0x1003 = 0x1000"
  "entry_present 0x2003" "\<not> entry_huge_page 0x2003" "entry_address 0x2003 = 0x2000"
  "entry_present 0x3003" "\<not> entry_huge_page 0x3003" "entry_address 0x3003 = 0x3000"
  "entry_present 0x4003" "\<not> entry_huge_page 0x4003" "entry_address 0x4003 = 0x4000"
  "entry_present 0x5003" "entry_address 0x5003 = 0x5000" "entry_present 0x7003" "entry_address 0x7003 = 0x7000"
  by code_simp+

lemmas sample_tables_simps = sample_table_entry sample_entries_bits

lemma sample_recursive: "recursive (phys (sample_paging f)) (cr3 (sample_paging f))"
  by (simp add: recursive_def aligned_def sample_tables_simps)

lemma sample_walk: "walk_to (sample_paging f) 5 0x4000"
proof -
  have i: "p4_index 5 = 0" "p3_index 5 = 0" "p2_index 5 = 0" by code_simp+
  show ?thesis
    using sample_recursive [of f] by (simp add: walk_to_def i sample_tables_simps)
qed

lemma va_index_low: "v < 4096 \<Longrightarrow> 12 \<le> n \<Longrightarrow> va_index n v = 0"
proof -
  assume v: "v < 4096" and n: "12 \<le> n"
  have "\<not> bit v k" if "12 \<le> k" for k
  proof
    assume "bit v k"
    have "(2 :: nat) ^ 12 \<le> 2 ^ k" using that by (intro power_increasing) simp_all
    moreover have "unat v < 2 ^ 12" using v by (simp add: word_less_nat_alt)
    ultimately have "\<not> bit (unat v) k" by (simp add: bit_iff_odd)
    with \<open>bit v k\<close> show False by (simp add: bit_unsigned_iff bit_imp_le_length)
  qed
  then show ?thesis using n by (intro bit_eqI) (auto simp: va_index_def bit_simps)
qed

lemma sample_hw_translate:
  assumes v: "v < 4096"
  shows "hw_translate (phys (sample_paging f)) 0x1000 v = Some (0x5000 + v)"
proof -
  have "unat v < 2 ^ 12" using v by (simp add: word_less_nat_alt)
  then have "take_bit 12 v = v" by (simp add: word_eq_iff_unsigned [where ?'a = nat] unsigned_take_bit_eq take_bit_nat_eq_self)
  then have "v AND 0xfff = v" by (simp add: take_bit_eq_mask mask_eq_exp_minus_1)
  then show ?thesis by (simp add: hw_translate_def va_index_low [OF v] sample_tables_simps)
qed

lemma sample_view:
  assumes "v < 88"
  shows "view (sample_paging f) v = sample_map v"
proof -
  have v: "v < 4096" using assms by (rule order.strict_trans) simp
  have "0x5000 \<le> 0x5000 + v \<and> 0x5000 + v < 0x6000"
  proof -
    have "unat v < 4096" using v by (simp add: word_less_nat_alt)
    then have "unat (0x5000 + v) = 0x5000 + unat v" by (subst unat_add_lem [THEN iffD1]) simp_all
    with \<open>unat v < 4096\<close> show ?thesis by (simp add: word_le_nat_alt word_less_nat_alt)
  qed
  then show ?thesis by (simp add: view_def sample_hw_translate [OF v]) (simp add: sample_paging_def)
qed

lemma sample_view_loads:
  "unat a + 4 \<le> 88 \<Longrightarrow> load32 (view (sample_paging f)) a = load32 sample_map a"
  "unat a + 8 \<le> 88 \<Longrightarrow> load64 (view (sample_paging f)) a = load64 sample_map a"
  by (auto intro!: load32_cong load64_cong sample_view dest: within_below [where N = 88] simp: word_less_nat_alt)

lemma sample_map_mapped: "map_mapped (sample_paging f)"
proof -
  have "mapped_bytes (sample_paging f) 0 n" if "n \<le> 4096" for n
    unfolding mapped_bytes_def list_all_iff
  proof
    fix i assume "i \<in> set [0..<n]"
    then have "(of_nat i :: u64) < 4096" using that by (simp add: word_less_nat_alt unat_of_nat)
    then show "hw_translate (phys (sample_paging f)) (cr3 (sample_paging f)) (0 + of_nat i) \<noteq> None"
      using sample_hw_translate by simp
  qed
  moreover have "tag_size sample_map 0 = 88" by code_simp
  then have "tag_size (view (sample_paging f)) 0 = 88" by (simp add: tag_size_def sample_view_loads)
  ultimately show ?thesis by (simp add: map_mapped_def sample_globals_def)
qed

lemma sample_view_entry:
  assumes "unat x + 20 \<le> 88"
  shows "entry_addr (view (sample_paging f)) x = entry_addr sample_map x"
    and "entry_len (view (sample_paging f)) x = entry_len sample_map x"
    and "entry_type (view (sample_paging f)) x = entry_type sample_map x"
proof -
  have "unat (x + 8) = unat x + 8" "unat (x + 16) = unat x + 16"
    using assms by (subst unat_add_lem [THEN iffD1]; simp)+
  with assms show "entry_addr (view (sample_paging f)) x = entry_addr sample_map x"
    "entry_len (view (sample_paging f)) x = entry_len sample_map x"
    "entry_type (view (sample_paging f)) x = entry_type sample_map x"
    by (simp_all add: entry_addr_def entry_len_def entry_type_def sample_view_loads)
qed

lemma sample_view_ok:
  "chunks (view (sample_paging f)) [16, 40, 64] = chunks sample_map [16, 40, 64]"
  "map_ok (view (sample_paging f)) (memory_area (sample_globals g)) [16, 40, 64]"
proof -
  show c: "chunks (view (sample_paging f)) [16, 40, 64] = chunks sample_map [16, 40, 64]"
    by (simp add: chunks_def chunks_of_def sample_view_entry)
  have "tag_size (view (sample_paging f)) 0 = tag_size sample_map 0"
    "mmap_entry_size (view (sample_paging f)) 0 = mmap_entry_size sample_map 0"
    by (simp_all add: tag_size_def mmap_entry_size_def sample_view_loads)
  note same = this
  have "entries_at (view (sample_paging f)) 0 (mmap_entries 0) [16, 40, 64]"
    using sample_entries(1) unfolding entries_at.simps same .
  moreover have "\<forall>x \<in> set [16, 40, 64]. entry_ok (view (sample_paging f)) x"
    by (simp add: entry_ok_def sample_view_entry sample_entries(2-))
  ultimately show "map_ok (view (sample_paging f)) (memory_area (sample_globals g)) [16, 40, 64]"
    unfolding map_ok_def c by (simp add: sample_chunks sample_globals_def del: entries_at.simps)
qed

subsection \<open>Properties\<close>

text \<open>
  C32. The software walk agrees with the processor: with the recursive entry in place and for
  every page below \<open>2 ^ 32\<close>, \<open>translate_page\<close> returns the number of the frame that the
  processor would use for the page, and 0 for a page that is not mapped or mapped by a huge
  page.
\<close>

theorem translate_page_agrees_with_hardware:
  assumes "recursive (phys s) (cr3 s)" and "page < 2 ^ 32"
  shows "translate_page page s = Inr (if no_huge (phys s) (cr3 s) (page * 4096) then
    (case hw_translate (phys s) (cr3 s) (page * 4096) of
       None \<Rightarrow> 0 | Some a \<Rightarrow> frame_containing_address a) else 0)"
  by (rule translate_page_hw [OF assms])

theorem translate_page_agrees_with_hardware_witness:
  "translate_page 5 (sample_paging 0) = Inr 7 \<and> hw_translate (phys (sample_paging 0)) 0x1000 0x5000 = Some 0x7000"
proof -
  have "va_index 39 0x5000 = 0" "va_index 30 0x5000 = 0" "va_index 21 0x5000 = 0" "va_index 12 0x5000 = 5"
    by code_simp+
  then have "hw_translate (phys (sample_paging 0)) 0x1000 0x5000 = Some 0x7000"
    "no_huge (phys (sample_paging 0)) 0x1000 0x5000"
    by (simp_all add: hw_translate_def no_huge_def sample_tables_simps)
  then show ?thesis
    by (subst translate_page_agrees_with_hardware [OF sample_recursive])
      (simp_all add: frame_containing_address_def PAGE_SIZE_def)
qed

text \<open>
  C33. \<open>map_page_to_frame\<close> forgets the frame: where the tables for the page exist, the entry it
  leaves holds the flags only, so that the processor translates the page to physical address
  0, whatever frame was asked for. No other byte of memory changes.
\<close>

theorem map_page_to_frame_loses_frame:
  assumes "walk_to s (ucast page) b" and "page < 2 ^ 32"
  shows "\<exists>s'. map_page_to_frame page frame flags s = Inr s'
    \<and> hw_translate (phys s') (cr3 s') (page * 4096) = Some 0
    \<and> (\<forall>x. \<not> within x (b + 8 * p1_index (ucast page)) 8 \<longrightarrow> phys s' x = phys s x)"
proof -
  let ?f = "ucast page :: frame_t" and ?p = "store64 (phys s) (b + 8 * p1_index (ucast page)) (ucast flags OR 1)"
  have w: "walk_to (s\<lparr>phys := ?p\<rparr>) ?f b" by (rule walk_to_store [OF assms(1) index_functions(4)])
  then have path: "path ?p (cr3 s) [p4_index ?f, p3_index ?f, p2_index ?f] = Some b"
    by (simp add: walk_to_def del: path.simps)
  have "no_huge ?p (cr3 s) (page * 4096)"
    using huge_path [of ?p "cr3 s" "page * 4096"] path unfolding page_indices [OF assms(2)] by auto
  from hw_translate_path [OF this] have "hw_translate ?p (cr3 s) (page * 4096) = Some 0"
    unfolding page_indices [OF assms(2)] path by (simp add: flags_address page_indices(5) [OF assms(2)])
  then show ?thesis
    unfolding map_page_to_frame_eq [OF assms(1)] by (auto simp: store64_frame)
qed

theorem map_page_to_frame_loses_frame_witness:
  "\<exists>s'. map_page_to_frame 5 9 3 (sample_paging 0) = Inr s' \<and> hw_translate (phys s') (cr3 s') 0x5000 = Some 0"
proof -
  have "walk_to (sample_paging 0) (ucast (5 :: u64)) 0x4000" using sample_walk by simp
  from map_page_to_frame_loses_frame [OF this, of 9 3] show ?thesis by auto
qed

text \<open>
  C34. \<open>next_table_create\<close> on an empty entry of the level 4 table allocates a frame, writes the
  entry as present and writable and returns the address of the new table; but it gives the
  frame's address where the number of the frame belongs, so that the processor takes the table
  to be at 4096 times the address of the frame.
\<close>

theorem next_table_create_misplaces_table:
  assumes "recursive (phys s) (cr3 s)" and "is_index i" and "i \<noteq> 511"
    and "table_entry (phys s) (cr3 s) i = 0" and "map_mapped s"
    and "mmap_allocate_frame (view s) (mmap_vars s) = Some (f, g)"
    and "mmap_read (view s) g f MMAP_GET_ADDR = Some addr" and "addr < 2 ^ 40"
  shows "\<exists>s'. next_table_create P4_TABLE i s = Inr (next_va P4_TABLE i, s') \<and> mmap_vars s' = g
    \<and> table_entry (phys s') (cr3 s') i = addr * 4096 OR 3
    \<and> path (phys s') (cr3 s') [i] = Some (addr * 4096)"
proof -
  note st = stable_slot_P4 [OF assms(1-3)]
  show ?thesis
    unfolding next_table_create_absent [OF st assms(4-7)]
    by (simp add: small_address [OF assms(8)] page_not_huge Let_def)
qed

theorem next_table_create_misplaces_table_witness:
  "\<exists>s'. next_table_create P4_TABLE 3 (sample_paging 1) = Inr (next_va P4_TABLE 3, s')
    \<and> path (phys s') (cr3 s') [3] = Some 0x1000000"
proof -
  let ?cs = "chunks (view (sample_paging 1)) [16, 40, 64]"
  have first: "first_usable (sample_globals 1) ?cs (unat (next_free_frame (sample_globals 1))) 1"
    by (simp add: first_usable_def sample_view_ok(1) sample_chunks sample_globals_def usable_def blocked_def)
  have "follows ?cs 1" by (simp add: follows_def sample_view_ok(1) sample_chunks)
  then obtain f where f: "mmap_allocate_frame (view (sample_paging 1)) (sample_globals 1) =
      Some (f, (sample_globals 1)\<lparr>next_free_frame := f + 1\<rparr>)" "unat f = 1"
    using mmap_allocate_usable [OF sample_view_ok(2) sample_ok(2) _ first] sample_ok(3)
    unfolding sample_view_ok(1) by auto
  have g: "(sample_globals 1)\<lparr>next_free_frame := f + 1\<rparr> = sample_globals (f + 1)" by (simp add: sample_globals_def)
  have a: "mmap_read (view (sample_paging 1)) (sample_globals (f + 1)) f MMAP_GET_ADDR = Some 0x1000"
    unfolding mmap_read_addr [OF sample_view_ok(2)] sample_view_ok(1) f(2) by (simp add: addr_of_def sample_chunks)
  have e: "table_entry (phys (sample_paging 1)) (cr3 (sample_paging 1)) 3 = 0"
    by (simp add: sample_tables_simps)
  have i: "is_index 3" "(3 :: u64) \<noteq> 511" by (simp_all add: is_index_def)
  from next_table_create_misplaces_table [OF sample_recursive i e sample_map_mapped, of f "sample_globals (f + 1)" "0x1000"] f(1) a g
  show ?thesis by auto
qed

subsection \<open>Addresses within a page\<close>

lemma page_of_indices:
  assumes "12 \<le> n"
  shows "va_index n ((addr div 4096) * 4096) = va_index n addr"
proof -
  have "(addr div 4096) * 4096 = push_bit 12 (drop_bit 12 addr)" by (simp add: push_bit_eq_mult drop_bit_eq_div)
  then show ?thesis using assms by (intro bit_eqI) (auto simp: va_index_def bit_simps dest: bit_imp_le_length)
qed

lemma page_of_walk:
  shows "no_huge p root ((addr div 4096) * 4096) = no_huge p root addr"
    and "no_huge p root addr \<Longrightarrow> hw_translate p root addr =
      map_option (\<lambda>a. a + (addr AND 0xfff)) (hw_translate p root ((addr div 4096) * 4096))"
proof -
  have z: "(addr div 4096) * 4096 AND 0xfff = 0"
  proof -
    have "(addr div 4096) * 4096 = push_bit 12 (drop_bit 12 addr)" by (simp add: push_bit_eq_mult drop_bit_eq_div)
    then show ?thesis by (intro bit_eqI) (auto simp: bit_simps)
  qed
  note idx = page_of_indices [of 39 addr, simplified] page_of_indices [of 30 addr, simplified]
    page_of_indices [of 21 addr, simplified] page_of_indices [of 12 addr, simplified]
  show huge: "no_huge p root ((addr div 4096) * 4096) = no_huge p root addr"
    by (simp add: no_huge_def idx)
  assume "no_huge p root addr"
  with huge have h: "no_huge p root ((addr div 4096) * 4096)" by simp
  show "hw_translate p root addr =
      map_option (\<lambda>a. a + (addr AND 0xfff)) (hw_translate p root ((addr div 4096) * 4096))"
    unfolding hw_translate_path [OF \<open>no_huge p root addr\<close>] hw_translate_path [OF h] idx z
    by (simp add: Let_def split: option.split)
qed

lemma frame_address_44:
  fixes a :: u64
  assumes "a < 2 ^ 44"
  shows "ucast (frame_containing_address a) * 4096 = a - a mod 4096"
proof -
  have "unat (a div 4096) < 2 ^ 32" using assms by (simp add: unat_div word_less_nat_alt)
  then have "ucast (ucast (a div 4096) :: u32) = a div 4096"
    by (simp add: word_unat_eq_iff unsigned_ucast_eq unsigned_take_bit_eq take_bit_nat_eq_self)
  then show ?thesis
    by (simp add: frame_containing_address_def PAGE_SIZE_def minus_mod_eq_div_mult)
qed

lemma entry_of_table:
  assumes "stable_slot s t b i"
  shows "\<exists>s'. (set_addr_mask (t + 8 * i) addr s :: 's stop + _) = Inr s'
    \<and> (vload64 (t + 8 * i) s' :: 's stop + _) = Inr (table_entry (phys s') b i)
    \<and> table_entry (phys s') b i = (table_entry (phys s) b i AND 0xfff0000000000fff) OR (addr * 4096)"
proof -
  have i: "is_index i" and st: "\<And>x. table_at (s\<lparr>phys := store64 (phys s) (b + 8 * i) x\<rparr>) t b"
    using assms by (simp_all add: stable_slot_def)
  show ?thesis by (simp add: set_addr_mask_slot [OF assms] vload64_slot [OF st i])
qed

subsection \<open>Properties of the address field, translation and unmapping\<close>

text \<open>
  What \<open>set_addr_mask\<close> stores for a frame number, \<open>pointed_frame\<close> reads back: the address
  field of the entry becomes the frame's address and the twelve low flag bits are kept.
\<close>

theorem set_addr_mask_roundtrip:
  assumes "stable_slot s t b i"
  shows "\<exists>s' e. (set_addr_mask (t + 8 * i) (ucast (f :: frame_t)) s :: 's stop + _) = Inr s'
    \<and> (vload64 (t + 8 * i) s' :: 's stop + _) = Inr e
    \<and> entry_address e = ucast f * 4096 \<and> e AND 0xfff = table_entry (phys s) b i AND 0xfff
    \<and> (entry_present (table_entry (phys s) b i) \<longrightarrow> pointed_frame e = f)"
proof -
  let ?e = "(table_entry (phys s) b i AND 0xfff0000000000fff) OR (ucast f * 4096)"
  obtain s' where s': "(set_addr_mask (t + 8 * i) (ucast f) s :: 's stop + _) = Inr s'"
    "(vload64 (t + 8 * i) s' :: 's stop + _) = Inr (table_entry (phys s') b i)" "table_entry (phys s') b i = ?e"
    using entry_of_table [OF assms, of "ucast f", where ?'s = 's] by blast
  have low: "?e AND 0xfff = table_entry (phys s) b i AND 0xfff" by (rule frame_field(2))
  have addr: "entry_address ?e = ucast f * 4096" unfolding entry_address_def by (rule frame_field(1))
  have "bit (?e AND 0xfff) 0 = bit (table_entry (phys s) b i AND 0xfff) 0" by (simp only: low)
  then have "entry_present ?e = entry_present (table_entry (phys s) b i)"
    by (simp add: entry_present_def bit_and_iff)
  then have "entry_present (table_entry (phys s) b i) \<longrightarrow> pointed_frame ?e = f"
    using addr frame_containing_page [of f] by (simp add: pointed_frame_def entry_address_def)
  with s' low addr show ?thesis by auto
qed

theorem set_addr_mask_roundtrip_witness:
  "\<exists>s' e. (set_addr_mask (va1 5 + 8 * p1_index 5) (ucast (9 :: frame_t)) (sample_paging 0) :: unit stop + _) = Inr s'
    \<and> (vload64 (va1 5 + 8 * p1_index 5) s' :: unit stop + _) = Inr e \<and> pointed_frame e = 9"
proof -
  have "p1_index 5 = 5" by code_simp
  then have "entry_present (table_entry (phys (sample_paging 0)) 0x4000 (p1_index 5))"
    by (simp add: sample_tables_simps)
  with set_addr_mask_roundtrip [OF walk_to_stable [OF sample_walk [of 0]], of 9, where ?'s = unit] show ?thesis by blast
qed

text \<open>
  \<open>translate\<close> finds the right page but takes the page number, not the address, for the
  offset: on an address the processor translates to \<open>a\<close>, it returns the start of the page of
  \<open>a\<close> plus the page number modulo 4096. It is right exactly when that is the offset.
\<close>

theorem translate_takes_page_for_offset:
  assumes "recursive (phys s) (cr3 s)" and "addr div 4096 < 2 ^ 32" and "no_huge (phys s) (cr3 s) addr"
    and "hw_translate (phys s) (cr3 s) ((addr div 4096) * 4096) = Some p" and "p < 2 ^ 44" and "p mod 4096 = 0"
  shows "hw_translate (phys s) (cr3 s) addr = Some (p + (addr AND 0xfff))
    \<and> (translate addr s :: 's stop + _) = Inr (p + (addr div 4096) mod 4096)
    \<and> ((translate addr s :: 's stop + _) = Inr (p + (addr AND 0xfff)) \<longleftrightarrow> (addr div 4096) mod 4096 = addr AND 0xfff)"
proof -
  note walk = page_of_walk(1) [of "phys s" "cr3 s" addr]
  have "hw_translate (phys s) (cr3 s) addr = Some (p + (addr AND 0xfff))"
    using page_of_walk(2) [OF assms(3)] assms(4) by simp
  moreover have t: "(translate addr s :: 's stop + _) = Inr (p + (addr div 4096) mod 4096)"
    using assms(3-6) walk frame_address_44 [OF assms(5)]
    by (simp add: translate_def Let_def page_containing_address_def PAGE_SIZE_def translate_page_hw [OF assms(1,2)]
        page_starting_address_def)
  ultimately show ?thesis unfolding t by simp
qed

theorem translate_takes_page_for_offset_witness:
  "(translate 0x5123 (sample_paging 0) :: unit stop + _) = Inr 0x7005 \<and> hw_translate (phys (sample_paging 0)) 0x1000 0x5123 = Some 0x7123"
proof -
  have "va_index 39 0x5000 = 0" "va_index 30 0x5000 = 0" "va_index 21 0x5000 = 0" "va_index 12 0x5000 = 5"
    "va_index 39 0x5123 = 0" "va_index 30 0x5123 = 0" "va_index 21 0x5123 = 0"
    by code_simp+
  then have "hw_translate (phys (sample_paging 0)) (cr3 (sample_paging 0)) (0x5123 div 4096 * 4096) = Some 0x7000"
    "no_huge (phys (sample_paging 0)) (cr3 (sample_paging 0)) 0x5123"
    by (simp_all add: hw_translate_def no_huge_def sample_tables_simps)
  from translate_takes_page_for_offset [OF sample_recursive _ this(2,1), where ?'s = unit] show ?thesis by simp
qed

lemma walk_to_next:
  assumes "walk_to s f b"
  shows "next_table_address P4_TABLE (ucast (p4_index f)) s = Inr (va3 f)"
    and "next_table_address (va3 f) (ucast (p3_index f)) s = Inr (va2 f)"
    and "next_table_address (va2 f) (ucast (p2_index f)) s = Inr (va1 f)"
proof -
  have rec: "recursive (phys s) (cr3 s)"
    and p: "path (phys s) (cr3 s) [p4_index f, p3_index f, p2_index f] = Some b"
    using assms by (simp_all add: walk_to_def del: path.simps)
  obtain b3 b2 where t: "table_at s (va3 f) b3" "table_at s (va2 f) b2"
    "path (phys s) (cr3 s) [p4_index f] = Some b3" "path (phys s) b3 [p3_index f] = Some b2"
    "path (phys s) b2 [p2_index f] = Some b"
    using path_tables [OF rec p] by blast
  show "next_table_address P4_TABLE (ucast (p4_index f)) s = Inr (va3 f)"
    unfolding next_table_address_eq [OF table_at_P4 [OF rec] index_functions(1)] va3_def
    using t(3) by (auto simp: Let_def split: if_splits)
  show "next_table_address (va3 f) (ucast (p3_index f)) s = Inr (va2 f)"
    unfolding next_table_address_eq [OF t(1) index_functions(2)] va2_def
    using t(4) by (auto simp: Let_def split: if_splits)
  show "next_table_address (va2 f) (ucast (p2_index f)) s = Inr (va1 f)"
    unfolding next_table_address_eq [OF t(2) index_functions(3)] va1_def
    using t(5) by (auto simp: Let_def split: if_splits)
qed

lemma store_same_entry: "table_at s t b \<Longrightarrow> is_index i \<Longrightarrow>
    assign_field (t + 8 * i) n v s = Inr (s\<lparr>phys := store64 (phys s) (b + 8 * i) (set_field n v (table_entry (phys s) b i))\<rparr>)"
  by (simp add: assign_field_def vload64_slot vstore64_slot)

lemma hw_translate_walk:
  assumes "walk_to s (ucast page) b" and "page < 2 ^ 32"
  shows "hw_translate (phys s) (cr3 s) (page * 4096) =
    (let e = table_entry (phys s) b (p1_index (ucast page)) in if entry_present e then Some (entry_address e) else None)"
proof -
  let ?f = "ucast page :: frame_t"
  have path: "path (phys s) (cr3 s) [p4_index ?f, p3_index ?f, p2_index ?f] = Some b"
    using assms(1) by (simp add: walk_to_def del: path.simps)
  have "no_huge (phys s) (cr3 s) (page * 4096)"
    using huge_path [of "phys s" "cr3 s" "page * 4096"] path unfolding page_indices [OF assms(2)] by auto
  from hw_translate_path [OF this] show ?thesis
    unfolding page_indices [OF assms(2)] path by (simp add: Let_def cong: if_cong)
qed

lemma invlpg_page: "page < 2 ^ 32 \<Longrightarrow> invlpg (page_starting_address page) s = s\<lparr>tlb := (tlb s)(page := None)\<rparr>"
proof -
  assume "page < 2 ^ 32"
  then have "unat page < 2 ^ 32" by (simp add: word_less_nat_alt)
  then have "drop_bit 12 (page * 4096) = page"
    by (simp add: word_unat_eq_iff unat_drop_bit_eq drop_bit_eq_div unat_word_ariths)
  then show ?thesis by (simp add: invlpg_def page_starting_address_def PAGE_SIZE_def)
qed

text \<open>
  C36. \<open>unmap\<close> on a page whose tables exist: an entry that is not present is left alone; a
  present one loses its present bit, so that the processor no longer translates the page, then
  its frame is given back, with the tables in that state, and last the processor forgets the
  translation of the page that it may have remembered, and of no other page.
\<close>

theorem unmap_removes_page:
  assumes "walk_to s (ucast page) b" and "page < 2 ^ 32"
  shows "\<exists>s'. cr3 s' = cr3 s \<and> mmap_vars s' = mmap_vars s
    \<and> hw_translate (phys s') (cr3 s') (page * 4096) = None
    \<and> (\<forall>x. \<not> within x (b + 8 * p1_index (ucast page)) 8 \<longrightarrow> phys s' x = phys s x)
    \<and> unmap page s = (case hw_translate (phys s) (cr3 s) (page * 4096) of
        None \<Rightarrow> Inr s
      | Some a \<Rightarrow> res_bind (mmap_deallocate_frame vstore64 (frame_containing_address a) s') (\<lambda>s.
          Inr (s\<lparr>tlb := (tlb s)(page := None)\<rparr>)))"
proof -
  let ?f = "ucast page :: frame_t"
  let ?e = "table_entry (phys s) b (p1_index ?f)"
  define s' where "s' = s\<lparr>phys := store64 (phys s) (b + 8 * p1_index ?f) (set_field 0 False ?e)\<rparr>"
  have w: "walk_to s' ?f b" unfolding s'_def by (rule walk_to_store [OF assms(1) index_functions(4)])
  have "\<not> entry_present (set_field 0 False ?e)" by (simp add: entry_present_def set_field_def bit_and_iff bit_not_iff)
  then have "hw_translate (phys s') (cr3 s') (page * 4096) = None"
    using hw_translate_walk [OF w assms(2)] by (simp add: s'_def)
  moreover have "unmap page s = (case hw_translate (phys s) (cr3 s) (page * 4096) of
        None \<Rightarrow> Inr s | Some a \<Rightarrow> res_bind (mmap_deallocate_frame vstore64 (frame_containing_address a) s') (\<lambda>s.
          Inr (s\<lparr>tlb := (tlb s)(page := None)\<rparr>)))"
    unfolding hw_translate_walk [OF assms]
    using walk_to_table [OF assms(1)]
    by (simp add: unmap_def walk_to_next [OF assms(1)] vload64_slot store_same_entry s'_def Let_def pointed_frame_def
        entry_address_def invlpg_page [OF assms(2)])
  ultimately show ?thesis
    by (intro exI [of _ s']) (auto simp: s'_def store64_frame)
qed

theorem unmap_removes_page_witness:
  "\<exists>s'. hw_translate (phys s') (cr3 s') 0x5000 = None
    \<and> unmap 5 (sample_paging 0) = res_bind (mmap_deallocate_frame vstore64 7 s') (\<lambda>s. Inr (s\<lparr>tlb := (tlb s)(5 := None)\<rparr>))"
proof -
  have w: "walk_to (sample_paging 0) (ucast (5 :: u64)) 0x4000" using sample_walk by simp
  have "p1_index 5 = 5" by code_simp
  then have "hw_translate (phys (sample_paging 0)) (cr3 (sample_paging 0)) 0x5000 = Some 0x7000"
    using hw_translate_walk [OF w] by (simp add: sample_tables_simps)
  with unmap_removes_page [OF w] show ?thesis by (auto simp: frame_containing_address_def PAGE_SIZE_def)
qed

end
