(* ===== verification/Mmu.thy ===== *)
theory Mmu
  imports Paging
begin

text \<open>
  Initialisation of the memory management (\<open>src/src/mmu/mmu.c\<close>): the frame allocator gets the
  memory map and the reserved areas; \<open>paging_init\<close> of \<open>paging.c\<close> has an empty body.
\<close>

definition paging_init :: "'s \<Rightarrow> 's" where
  "paging_init s = s"

definition mmu_init :: "u64 \<Rightarrow> reserved_areas \<Rightarrow> mmap_globals \<Rightarrow> mmap_globals" where
  "mmu_init mmap reserved g = paging_init (mmap_init mmap reserved g)"

lemma mmu_init_fields [simp]:
  "memory_area (mmu_init mmap r g) = mmap" "next_free_frame (mmu_init mmap r g) = 1"
  "g_kernel_start (mmu_init mmap r g) = kernel_start r" "g_kernel_end (mmu_init mmap r g) = kernel_end r"
  "g_multiboot_start (mmu_init mmap r g) = multiboot_start r"
  "g_multiboot_end (mmu_init mmap r g) = multiboot_end r"
  by (simp_all add: mmu_init_def paging_init_def mmap_init_def)

end
