(* ===== verification/Screen_Rows.thy ===== *)
theory Screen_Rows
  imports Printfk
begin

text \<open>
  Text with newlines on the screen. A newline moves the cursor down without scrolling, so a
  run of newlines takes it below the last row; writing a character there scrolls and brings it
  up again. This theory bounds the row of the cursor and the memory such text can change.
\<close>

subsection \<open>Rows below the screen\<close>

definition rows_ok :: "nat \<Rightarrow> ('d, 'z) screen_state_scheme \<Rightarrow> bool" where
  "rows_ok k s \<longleftrightarrow> framebuffer s = VIDEO_ADDRESS \<and> cursor_ok s \<and> screen_row s \<le> 24 + int k"

text \<open>Memory outside the first 50 rows of the video memory.\<close>

definition outside :: "bytes \<Rightarrow> bytes" where
  "outside m = (\<lambda>a. if within a VIDEO_ADDRESS 8000 then 0 else m a)"

definition newlines :: "string \<Rightarrow> nat" where
  "newlines cs = length (filter (\<lambda>c. c = CHR 0x0A) cs)"

lemma newlines_simps [simp]:
  "newlines [] = 0" "newlines (c # cs) = (if c = CHR 0x0A then Suc (newlines cs) else newlines cs)"
  "newlines (xs @ ys) = newlines xs + newlines ys"
  by (simp_all add: newlines_def)

lemma rows_ok_mono: "rows_ok k s \<Longrightarrow> k \<le> l \<Longrightarrow> rows_ok l s"
  by (simp add: rows_ok_def)

lemma outsideI: "(\<And>a. \<not> within a VIDEO_ADDRESS 8000 \<Longrightarrow> m a = m' a) \<Longrightarrow> outside m = outside m'"
  by (rule ext) (simp add: outside_def)

lemma outsideD: "outside m = outside m' \<Longrightarrow> \<not> within a VIDEO_ADDRESS 8000 \<Longrightarrow> m a = m' a"
  by (drule fun_cong [of _ _ a]) (simp add: outside_def)

lemma screen_write_at_outside:
  assumes "framebuffer s = VIDEO_ADDRESS" and "0 \<le> y * 80 + x" and "y * 80 + x < 4000"
  shows "outside (mem (screen_write_at c sch x y s)) = outside (mem s)"
proof (rule outsideI)
  fix a assume a: "\<not> within a VIDEO_ADDRESS 8000"
  let ?p = "y * 80 + x"
  have "a \<noteq> VIDEO_ADDRESS + word_of_int (2 * ?p)" "a \<noteq> VIDEO_ADDRESS + word_of_int (2 * ?p + 1)"
    using assms(2,3) a within_word_of_int [of "2 * ?p" VIDEO_ADDRESS 8000]
      within_word_of_int [of "2 * ?p + 1" VIDEO_ADDRESS 8000] by auto
  moreover have "\<not> within a VIDEO_ADDRESS 4000" using a by (simp add: within_def)
  ultimately show "mem (screen_write_at c sch x y s) a = mem s a"
    using assms(1) by (simp add: screen_write_at_mem scroll_lines_frame Let_def)
qed

lemma screen_write_rows:
  assumes "rows_ok k s" and "k \<le> 25" and "c \<noteq> CHR 0x09"
  shows "rows_ok (k + newlines [c]) (screen_write hw c s)"
    and "outside (mem (screen_write hw c s)) = outside (mem s)"
proof -
  have s: "framebuffer s = VIDEO_ADDRESS" "0 \<le> screen_col s" "screen_col s < 80" "0 \<le> screen_row s"
    "screen_row s \<le> 24 + int k" using assms(1) by (simp_all add: rows_ok_def cursor_ok_def)
  then show "rows_ok (k + newlines [c]) (screen_write hw c s)"
    using assms(3) screen_write_cursor_ok [of s c hw]
    by (auto simp: rows_ok_def cursor_ok_def screen_write_row Let_def)
  have p: "0 \<le> screen_row s * 80 + (screen_col s - d)" "screen_row s * 80 + (screen_col s - d) < 4000"
    if "d = 0 \<or> d = 1 \<and> 0 < screen_col s" for d
    using s assms(2) that by auto
  show "outside (mem (screen_write hw c s)) = outside (mem s)"
    using p [of 0] p [of 1] s(1) by (auto simp: screen_write_mem screen_write_at_outside)
qed

lemma fold_screen_write_rows:
  "rows_ok k s \<Longrightarrow> k + newlines cs \<le> 25 \<Longrightarrow> CHR 0x09 \<notin> set cs \<Longrightarrow>
    rows_ok (k + newlines cs) (fold (screen_write hw) cs s)
    \<and> outside (mem (fold (screen_write hw) cs s)) = outside (mem s)"
proof (induction cs arbitrary: k s)
  case (Cons c cs)
  have "rows_ok (k + newlines [c]) (screen_write hw c s)" "outside (mem (screen_write hw c s)) = outside (mem s)"
    using screen_write_rows [OF Cons.prems(1), of c hw] Cons.prems by auto
  with Cons.IH [of "k + newlines [c]" "screen_write hw c s"] Cons.prems show ?case by (auto split: if_splits)
qed simp

subsection \<open>Characters bring the cursor up\<close>

text \<open>
  Each character written below the last row scrolls and moves the cursor one row up, unless
  it also ends a row.
\<close>

lemma screen_write_up:
  assumes "rows_ok k s" and "plain c" and "1 \<le> k"
  shows "(screen_col s = 79 \<longrightarrow> rows_ok k (screen_write hw c s) \<and> screen_col (screen_write hw c s) = 0)
    \<and> (screen_col s \<noteq> 79 \<longrightarrow> rows_ok (k - 1) (screen_write hw c s)
        \<and> screen_col (screen_write hw c s) = screen_col s + 1)"
  using assms screen_write_cursor_ok [of s c hw]
  by (auto simp: rows_ok_def cursor_ok_def plain_def screen_write_row screen_write_col Let_def)

lemma rows_ok_0_plain: "rows_ok 0 s \<Longrightarrow> plain c \<Longrightarrow> rows_ok 0 (screen_write hw c s)"
  using screen_write_rows(1) [of 0 s c hw] by (auto simp: plain_def)

lemma screen_write_up_rows:
  assumes "rows_ok k s" and "plain c"
  shows "rows_ok (if screen_col s = 79 then k else k - 1) (screen_write hw c s)"
  using assms screen_write_up [of k s c hw] rows_ok_0_plain [of s c hw] by (cases k) auto

lemma fold_screen_write_up:
  "rows_ok k s \<Longrightarrow> list_all plain cs \<Longrightarrow> screen_col s + int (length cs) \<le> 79 \<Longrightarrow>
    rows_ok (k - length cs) (fold (screen_write hw) cs s)
    \<and> screen_col (fold (screen_write hw) cs s) = screen_col s + int (length cs)"
proof (induction cs arbitrary: k s)
  case (Cons c cs)
  then have c: "plain c" and col: "screen_col s \<noteq> 79" by auto
  have "rows_ok (k - 1) (screen_write hw c s)"
    using screen_write_up_rows [OF Cons.prems(1) c, of hw] col by simp
  moreover have "screen_col (screen_write hw c s) = screen_col s + 1"
    using c col by (simp add: screen_write_col plain_def)
  ultimately show ?case using Cons.IH [of "k - 1" "screen_write hw c s"] Cons.prems by simp
qed simp

lemma fold_screen_write_up_80:
  assumes "rows_ok k s" and "list_all plain cs" and "length cs \<le> 80"
  shows "rows_ok (k - (length cs - 1)) (fold (screen_write hw) cs s)"
proof (cases "screen_col s + int (length cs) \<le> 79")
  case True
  with fold_screen_write_up [OF assms(1,2), of hw] show ?thesis
    by (auto elim: rows_ok_mono)
next
  case False
  define n where "n = nat (79 - screen_col s)"
  have col: "0 \<le> screen_col s" "screen_col s < 80" using assms(1) by (simp_all add: rows_ok_def cursor_ok_def)
  with False have n: "n < length cs" "screen_col s + int n = 79" by (simp_all add: n_def)
  let ?xs = "take n cs" and ?c = "cs ! n" and ?ys = "drop (Suc n) cs"
  have cs: "cs = ?xs @ ?c # ?ys" using n(1) by (simp add: id_take_nth_drop)
  then have p: "list_all plain ?xs" "plain ?c" "list_all plain ?ys"
    using assms(2) n(1) by (auto simp: list_all_iff dest: in_set_takeD in_set_dropD)
  let ?s1 = "fold (screen_write hw) ?xs s"
  have 1: "rows_ok (k - n) ?s1" "screen_col ?s1 = 79"
    using fold_screen_write_up [OF assms(1) p(1), of hw] n by simp_all
  then have 2: "rows_ok (k - n) (screen_write hw ?c ?s1)"
    using screen_write_up_rows [OF 1(1) p(2), of hw] by simp
  moreover have "screen_col (screen_write hw ?c ?s1) = 0"
    using 1(2) p(2) by (simp add: screen_write_col plain_def)
  ultimately have "rows_ok (k - n - length ?ys) (fold (screen_write hw) ?ys (screen_write hw ?c ?s1))"
    using fold_screen_write_up [OF 2 p(3), of hw] n(1) assms(3) by simp
  moreover have "fold (screen_write hw) cs s = fold (screen_write hw) ?ys (screen_write hw ?c ?s1)"
    by (subst cs) simp
  ultimately show ?thesis using n(1) by (auto elim!: rows_ok_mono)
qed

text \<open>A line of 20 to 80 characters leaves the cursor at most one row below the screen.\<close>

lemma line_rows:
  assumes "rows_ok k s" and "1 \<le> k" and "k \<le> 19" and "list_all plain cs" and "20 \<le> length cs" and "length cs \<le> 80"
  shows "rows_ok k (fold (screen_write hw) (cs @ [CHR 0x0A]) s)"
    and "outside (mem (fold (screen_write hw) (cs @ [CHR 0x0A]) s)) = outside (mem s)"
proof -
  let ?s = "fold (screen_write hw) cs s"
  have "rows_ok 0 ?s"
    using fold_screen_write_up_80 [OF assms(1,4,6), of hw] assms(3,5) by (auto elim!: rows_ok_mono)
  then have "rows_ok 1 (screen_write hw (CHR 0x0A) ?s)"
    using screen_write_rows(1) [of 0 ?s "CHR 0x0A" hw] by simp
  then show "rows_ok k (fold (screen_write hw) (cs @ [CHR 0x0A]) s)"
    using assms(2) by (auto elim!: rows_ok_mono)
  have "newlines cs = 0" using assms(4) by (auto simp: newlines_def list_all_iff plain_def filter_empty_conv)
  moreover have "CHR 0x09 \<notin> set cs" using assms(4) by (auto simp: list_all_iff plain_def)
  ultimately show "outside (mem (fold (screen_write hw) (cs @ [CHR 0x0A]) s)) = outside (mem s)"
    using fold_screen_write_rows [OF assms(1), of "cs @ [CHR 0x0A]" hw] assms(3) by simp
qed

subsection \<open>Numbers are plain text\<close>

lemma plain_digit: "d < 36 \<Longrightarrow> plain (digit_char (int d))"
proof -
  assume d: "d < 36"
  let ?n = "if d < 10 then d + 48 else d + 87"
  have "of_char (digit_char (int d)) = ?n" using d by (auto simp: digit_char_int)
  moreover have "of_char (digit_char (int d)) \<in> {0, 8, 9, 10, 13 :: nat}" if "\<not> plain (digit_char (int d))"
    using that by (auto simp: plain_def)
  ultimately show ?thesis using d by (cases "d < 10") auto
qed

lemma plain_numeral_of [simp]: "2 \<le> b \<Longrightarrow> b \<le> 36 \<Longrightarrow> list_all plain (numeral_of b n)"
  by (auto simp: numeral_of_def list_all_iff intro!: plain_digit dest!: lsd_less)

subsection \<open>The memory that text can reach\<close>

lemma screen_write_rows_frame:
  assumes "rows_ok k s" and "k \<le> 1000000" and "\<not> within a VIDEO_ADDRESS (160 * (25 + k))"
  shows "mem (screen_write hw c s) a = mem s a"
proof -
  have s: "framebuffer s = VIDEO_ADDRESS" "0 \<le> screen_col s" "screen_col s < 80" "0 \<le> screen_row s"
    "screen_row s \<le> 24 + int k" using assms(1) by (simp_all add: rows_ok_def cursor_ok_def)
  have out: "\<not> within a VIDEO_ADDRESS 4000" using assms(3) by (simp add: within_def)
  have ne: "a \<noteq> VIDEO_ADDRESS + word_of_int q" if "0 \<le> q" "q < 160 * (25 + int k)" for q
  proof
    assume "a = VIDEO_ADDRESS + word_of_int q"
    then have "\<not> nat q < 160 * (25 + k)"
      using assms(2,3) that within_word_of_int [of q VIDEO_ADDRESS "160 * (25 + k)"] by auto
    then show False using that by auto
  qed
  have at: "mem (screen_write_at b sch x y s) a = mem s a" if "0 \<le> y * 80 + x" "y * 80 + x < 80 * (25 + int k)" for b sch x y
  proof -
    have "a \<noteq> VIDEO_ADDRESS + word_of_int (2 * (y * 80 + x))" "a \<noteq> VIDEO_ADDRESS + word_of_int (2 * (y * 80 + x) + 1)"
      using ne [of "2 * (y * 80 + x)"] ne [of "2 * (y * 80 + x) + 1"] that by auto
    with out s(1) show ?thesis by (simp add: screen_write_at_mem scroll_lines_frame Let_def)
  qed
  have "0 \<le> screen_row s * 80 + (screen_col s - d)" "screen_row s * 80 + (screen_col s - d) < 80 * (25 + int k)"
    if "d = 0 \<or> d = 1 \<and> 0 < screen_col s" for d
    using s that by auto
  from this [of 0] this [of 1] show ?thesis by (auto simp: screen_write_mem at)
qed

lemma fold_screen_write_reach:
  "rows_ok k s \<Longrightarrow> k + newlines cs \<le> 1000000 \<Longrightarrow> CHR 0x09 \<notin> set cs \<Longrightarrow>
    rows_ok (k + newlines cs) (fold (screen_write hw) cs s)
    \<and> (\<not> within a VIDEO_ADDRESS (160 * (25 + (k + newlines cs))) \<longrightarrow> mem (fold (screen_write hw) cs s) a = mem s a)"
proof (induction cs arbitrary: k s)
  case (Cons c cs)
  have rows: "rows_ok (k + newlines [c]) (screen_write hw c s)"
    using Cons.prems screen_write_cursor_ok [of s c hw] by (auto simp: rows_ok_def cursor_ok_def screen_write_row Let_def)
  have le: "k \<le> k + newlines (c # cs)" by simp
  have "mem (screen_write hw c s) a = mem s a" if "\<not> within a VIDEO_ADDRESS (160 * (25 + (k + newlines (c # cs))))"
    by (rule screen_write_rows_frame [OF Cons.prems(1)]) (use that Cons.prems(2) le in \<open>auto simp: within_def split: if_splits\<close>)
  with Cons.IH [OF rows] Cons.prems show ?case by (auto split: if_splits)
qed simp

text \<open>
  C18. Where the driver can write: from a cursor on the screen, text without tabs changes no byte
  outside the first 25 rows of the video memory and one row more for each of its newlines, which move the cursor
  down without scrolling; the cursor stays within these rows and 80 columns. So text without newlines
  never leaves the 4000 bytes of the 80x25 buffer, however long it is and however often it scrolls,
  and leaves the cursor on the screen; with newlines the driver may write below the buffer, but
  never above it. Tabs are excluded: they take the column past the margin. The bound on the
  newlines keeps the row within an \<^verbatim>\<open>int\<close>.
\<close>

theorem screen_print_stays_in_rows:
  assumes "screen_ok s" and "CHR 0x09 \<notin> set str" and "newlines str \<le> 1000000"
  shows "(\<not> within a VIDEO_ADDRESS (160 * (25 + newlines str)) \<longrightarrow> mem (screen_print hw str s) a = mem s a)
    \<and> cursor_ok (screen_print hw str s) \<and> screen_row (screen_print hw str s) \<le> 24 + int (newlines str)
    \<and> (newlines str = 0 \<longrightarrow> screen_ok (screen_print hw str s)
        \<and> (\<not> within a VIDEO_ADDRESS 4000 \<longrightarrow> mem (screen_print hw str s) a = mem s a))"
proof -
  have sub: "set (cstr str) \<subseteq> set str" "newlines (cstr str) \<le> newlines str"
  proof -
    have "str = cstr str @ dropWhile (\<lambda>c. c \<noteq> NUL) str" by (simp add: cstr_def)
    then show "newlines (cstr str) \<le> newlines str" by (metis le_add1 newlines_simps(3))
  qed (auto simp: cstr_def dest: set_takeWhileD)
  have "rows_ok 0 s" using assms(1) by (simp add: rows_ok_def screen_ok_def)
  with fold_screen_write_reach [of 0 s "cstr str" hw a] sub assms(2,3)
  have reach: "rows_ok (newlines (cstr str)) (screen_print hw str s)"
    "\<not> within a VIDEO_ADDRESS (160 * (25 + newlines (cstr str))) \<longrightarrow> mem (screen_print hw str s) a = mem s a"
    unfolding screen_print_fold by auto
  have "\<not> within a VIDEO_ADDRESS (160 * (25 + newlines (cstr str)))" if "\<not> within a VIDEO_ADDRESS (160 * (25 + newlines str))"
    using that sub(2) by (simp add: within_def)
  with reach sub(2) show ?thesis by (auto simp: rows_ok_def screen_ok_def)
qed

theorem screen_print_stays_in_rows_witness:
  "let s = \<lparr>dev = [], mem = (\<lambda>_. 0), screen_scheme = 7, framebuffer = 0xB8000, screen_col = 79, screen_row = 24\<rparr>
   in mem (screen_print (log_hw (\<lambda>_. 0)) (CHR 0x0A # CHR 0x0A # ''below'') s) 0xB90E0 = 0
     \<and> screen_ok (screen_print (log_hw (\<lambda>_. 0)) ''scroll'' s)
     \<and> mem (screen_print (log_hw (\<lambda>_. 0)) ''scroll'' s) 0xB8FA0 = 0"
proof -
  let ?s = "\<lparr>dev = [], mem = (\<lambda>_. 0), screen_scheme = 7, framebuffer = 0xB8000, screen_col = 79, screen_row = 24\<rparr>
    :: (u16 \<times> u8) list screen_state"
  have ok: "screen_ok ?s" by (simp add: screen_ok_def cursor_ok_def VIDEO_ADDRESS_def)
  show ?thesis
    using screen_print_stays_in_rows [OF ok, of "CHR 0x0A # CHR 0x0A # ''below''" "0xB90E0" "log_hw (\<lambda>_. 0)"]
      screen_print_stays_in_rows [OF ok, of "''scroll''" "0xB8FA0" "log_hw (\<lambda>_. 0)"]
    by (simp add: Let_def within_def VIDEO_ADDRESS_def)
qed

end
