(* ===== verification/Kmain.thy ===== *)
theory Kmain
  imports Check Cmos Mmu Screen_Rows
begin

text \<open>
  The kernel's entry point (\<open>src/src/kernel/kmain.c\<close>, \<open>kmain.h\<close>). Its state is that of all
  the components together. From the moment interrupts are enabled the hardware may interrupt
  the kernel; the model takes requests after each statement of \<open>kmain\<close>, from the lists
  \<open>between 0\<close>, \<open>between 1\<close>, ..., and in every round of the wait loop, from \<open>waiting\<close>. At these
  points no argument register is live, so that the stubs' loss of \<^verbatim>\<open>rdi\<close> does no harm. A statement
  itself runs undisturbed: what a request does to a C function that it interrupts is shown on the
  registers in \<open>Stubs\<close> and is not part of the boot. \<open>Inr s\<close> means that \<open>kmain\<close> has reached its final loop, in which it
  only serves interrupts, in state \<open>s\<close>.
\<close>

record 'd kernel_state = "'d timer_state" +
  mmap_state :: mmap_globals

record schedule =
  between :: "nat \<Rightarrow> irq list"
  waiting :: "nat \<Rightarrow> irq list"

definition KERNEL_ASCII :: string where
  "KERNEL_ASCII =
     '' _____ _____ _____ _____ _____ '' @ [NL] @
     ''|  |  |_   _|   __| __  |     |'' @ [NL] @
     ''|  |  | | | |   __|    -|  |  |'' @ [NL] @
     ''|_____| |_| |_____|__|__|_____|''"

definition KERNEL_NAME :: string where "KERNEL_NAME = ''utero-archive''"
definition KERNEL_VERSION :: string where "KERNEL_VERSION = ''0.5.0''"

definition print_welcome_messge :: "'d port_hw \<Rightarrow> build \<Rightarrow> ('d, 'z) kernel_state_scheme \<Rightarrow>
    's stop + ('d, 'z) kernel_state_scheme" where
  "print_welcome_messge hw bld s =
     res_bind (printfk hw (''%s'' @ [NL]) [VStr KERNEL_ASCII] s) (\<lambda>s.
     printfk hw (''%s %s / Built on: %s at %s'' @ [NL, NL])
       [VStr KERNEL_NAME, VStr KERNEL_VERSION, VStr (build_date bld), VStr (build_time bld)] s)"

text \<open>A statement and the requests taken after it.\<close>

definition then_irqs :: "'d port_hw \<Rightarrow> irq list \<Rightarrow> 's stop + ('d, 'z) kernel_state_scheme \<Rightarrow>
    's stop + ('d, 'z) kernel_state_scheme" where
  "then_irqs hw irqs r = res_bind r (take_irqs hw irqs)"

definition print_date :: "'d port_hw \<Rightarrow> cmos_rtc \<Rightarrow> ('d, 'z) kernel_state_scheme \<Rightarrow>
    's stop + ('d, 'z) kernel_state_scheme" where
  "print_date hw rtc s =
     printfk hw ([NL] @ ''Hello Human, today's date and time is %2d/%2d/%2d %2d:%2d:%2d UTC'' @ [NL])
       [VInt (ucast (year rtc)), VInt (ucast (month rtc)), VInt (ucast (day rtc)),
        VInt (ucast (hours rtc)), VInt (ucast (minutes rtc)), VInt (ucast (seconds rtc))] s"

text \<open>
  \<open>kmain\<close> from the call of \<open>irq_init\<close> on. The two calls of \<^verbatim>\<open>DEBUG\<close> expand to nothing.
\<close>

definition kmain_interruptible :: "'d port_hw \<Rightarrow> schedule \<Rightarrow> u64 \<Rightarrow> reserved_areas \<Rightarrow>
    ('d, 'z) kernel_state_scheme \<Rightarrow> 's stop + ('d, 'z) kernel_state_scheme" where
  "kmain_interruptible hw sched mbi reserved s =
     (let irqs = \<lambda>n. then_irqs hw (between sched n) in
      res_bind (irqs 0 (Inr (irq_init s))) (\<lambda>s.
      res_bind (irqs 1 (printfk hw (''- interruptions enabled'' @ [NL]) [] s)) (\<lambda>s.
      res_bind (irqs 2 (timer_init hw 50 s)) (\<lambda>s.
      res_bind (irqs 3 (printfk hw (''- clock (timer) enabled'' @ [NL]) [] s)) (\<lambda>s.
      res_bind (irqs 4 (check_interrupts hw (waiting sched) s)) (\<lambda>s.
      res_bind (irqs 5 (Inr (serial_init hw SERIAL_COM1 SERIAL_SPEED_115200 s))) (\<lambda>s.
      res_bind (irqs 6 (keyboard_init s)) (\<lambda>s.
      res_bind (irqs 7 (printfk hw (''- keyboard routine enabled'' @ [NL]) [] s)) (\<lambda>s.
      res_bind (returning (find_multiboot_tag (mem s) (mbi_tags mbi) (ucast MULTIBOOT_TAG_TYPE_MMAP))) (\<lambda>mmap.
      res_bind (irqs 8 (Inr (s\<lparr>mmap_state := mmu_init mmap reserved (mmap_state s)\<rparr>))) (\<lambda>s.
      res_bind (irqs 9 (printfk hw (''- frame allocator and paging enabled'' @ [NL]) [] s)) (\<lambda>s.
      res_bind (cmos_read_rtc hw s) (\<lambda>(rtc, s).
      res_bind (irqs 10 (print_date hw rtc s)) (\<lambda>s.
      irqs 11 (printfk hw ''$ '' [] s)))))))))))))))"

definition kmain :: "'d port_hw \<Rightarrow> build \<Rightarrow> schedule \<Rightarrow> u64 \<Rightarrow> u64 \<Rightarrow> ('d, 'z) kernel_state_scheme \<Rightarrow>
    ('d, 'z) kernel_state_scheme stop + ('d, 'z) kernel_state_scheme" where
  "kmain hw bld sched magic addr s =
     (let s = screen_init s;
          s = screen_clear s in
      res_bind (multiboot_is_valid hw magic addr s) (\<lambda>(valid, s).
      res_bind (if valid = False
                then PANIC hw ''src/kernel/kmain.c'' 26 ''kmain'' ''invalid multiboot'' [] s
                else Inr s) (\<lambda>s.
      let mbi = addr in
      res_bind (read_multiboot_info (mem s) mbi) (\<lambda>reserved.
      res_bind (print_welcome_messge hw bld s) (\<lambda>s.
      res_bind (printfk hw (''- multiboot_start = 0x%X, multiboot_end = 0x%X'' @ [NL])
                 [VInt (multiboot_start reserved), VInt (multiboot_end reserved)] s) (\<lambda>s.
      res_bind (printfk hw (''- kernel_start    = 0x%X, kernel_end    = 0x%X'' @ [NL])
                 [VInt (kernel_start reserved), VInt (kernel_end reserved)] s) (\<lambda>s.
      res_bind (isr_init hw bld s) (\<lambda>s.
      kmain_interruptible hw sched mbi reserved s))))))))"

subsection \<open>The running kernel\<close>

text \<open>
  What holds while \<open>kmain\<close> runs with interrupts enabled: the tables are in place, the handler
  table is \<open>hs\<close>, the cursor is at most \<open>k\<close> rows below the screen, memory outside the video memory is
  as in \<open>m\<close> and the frame allocator's globals are \<open>g\<close>.
\<close>

definition running :: "build \<Rightarrow> isr_t option list \<Rightarrow> nat \<Rightarrow> bytes \<Rightarrow> mmap_globals \<Rightarrow>
    ('d, 'z) kernel_state_scheme \<Rightarrow> bool" where
  "running bld hs k m g s \<longleftrightarrow> tables_ok bld s \<and> cpu_if s \<and> interrupt_handlers s = hs
     \<and> rows_ok k s \<and> outside (mem s) = outside m \<and> mmap_state s = g"

text \<open>No request line runs the breakpoint handler.\<close>

definition irq_handlers_ok :: "isr_t option list \<Rightarrow> bool" where
  "irq_handlers_ok hs \<longleftrightarrow> list_all (\<lambda>j. hs ! (32 + j) \<noteq> Some Breakpoint_handler) [0..<5]"

definition steady :: "build \<Rightarrow> isr_t option list \<Rightarrow> nat \<Rightarrow> bytes \<Rightarrow> mmap_globals \<Rightarrow>
    ('d, 'z) kernel_state_scheme \<Rightarrow> bool" where
  "steady bld hs k m g s \<longleftrightarrow> running bld hs k m g s \<and> irq_handlers_ok hs \<and> 1 \<le> k \<and> k \<le> 19"

lemma rows_ok_update [simp]:
  "rows_ok k (s\<lparr>cpu_if := b\<rparr>) = rows_ok k s" "rows_ok k (s\<lparr>dev := d\<rparr>) = rows_ok k s"
  "rows_ok k (s\<lparr>tick := t\<rparr>) = rows_ok k s" "rows_ok k (s\<lparr>interrupt_handlers := h\<rparr>) = rows_ok k s"
  "rows_ok k (s\<lparr>idt := i\<rparr>) = rows_ok k s" "rows_ok k (s\<lparr>idt_reg := r\<rparr>) = rows_ok k s"
  "rows_ok k (s\<lparr>cpu_idtr := c\<rparr>) = rows_ok k s" "rows_ok k (s\<lparr>mmap_state := g\<rparr>) = rows_ok k s"
  by (simp_all add: rows_ok_def cursor_ok_def)

lemma scancode_line:
  "\<exists>cs. scancode_text v = cs @ [NL] \<and> list_all plain cs \<and> 20 \<le> length cs \<and> length cs \<le> 80"
proof -
  let ?n = "numeral_of 10 (unat v)"
  have "unat v < 10 ^ Suc 2" using unsigned_less [of v, where ?'a = nat] by simp
  then have "length ?n \<le> 3" using length_lsd_le [of 10 "unat v" 2] by simp
  moreover have "1 \<le> length ?n" using numeral_of_nonempty [of 10 "unat v"] by (cases ?n) auto
  moreover have "list_all plain (''Received scancode: '' @ ?n)" by (simp add: plain_def)
  ultimately show ?thesis
    by (intro exI [of _ "''Received scancode: '' @ ?n"]) (simp add: scancode_text_def del: length_numeral_of)
qed

lemma scancode_rows:
  assumes "rows_ok k s" and "1 \<le> k" and "k \<le> 19"
  shows "rows_ok k (fold (screen_write hw) (scancode_text v) s)"
    and "outside (mem (fold (screen_write hw) (scancode_text v) s)) = outside (mem s)"
  using scancode_line [of v] line_rows [OF assms] by metis+

lemma fold_screen_write_mmap_state [simp]:
  "mmap_state (fold (screen_write hw) cs s) = mmap_state s"
  by (subst fold_screen_write_update) simp

lemma isr_effect_steady:
  assumes "h \<noteq> Breakpoint_handler" and "rows_ok k s" and "1 \<le> k" and "k \<le> 19"
  shows "rows_ok k (isr_effect hw h a s)" and "outside (mem (isr_effect hw h a s)) = outside (mem s)"
    and "mmap_state (isr_effect hw h a s) = mmap_state s"
  using assms by (cases h; simp add: isr_effect_def case_prod_beta Let_def scancode_rows)+

lemma irq_effect_steady:
  assumes "steady bld hs k m g s" and "n < 5"
  shows "steady bld hs k m g (irq_effect hw n rsp s)"
proof -
  have "unat n < 5" using assms(2) by (simp add: word_less_nat_alt)
  then have "interrupt_handlers s ! (32 + unat n) \<noteq> Some Breakpoint_handler"
    using assms(1) by (auto simp: steady_def running_def irq_handlers_ok_def list_all_iff)
  then show ?thesis
    using assms(1) isr_effect_steady [of _ k "s\<lparr>cpu_if := False, dev := outs hw (eoi_bytes n) (dev s)\<rparr>"]
    by (auto simp: steady_def running_def tables_ok_def irq_effect_def Let_def split: option.split)
qed

lemma steady_take_irq:
  assumes "steady bld hs k m g s" and "fst q < 5"
  shows "returns (take_irq hw q s) (steady bld hs k m g)"
proof -
  have "cpu_if s" "length (interrupt_handlers s) = 256"
    using assms(1) by (auto simp: steady_def running_def tables_ok_def)
  moreover have "fst q < 224" using assms(2) by (rule order.strict_trans) simp
  ultimately show ?thesis
    using irq_effect_steady [OF assms] by (simp add: take_irq_def irq_entry_eq)
qed

interpretation irqs: invariant_steps "take_irq hw" "\<lambda>(n, rsp). n < 5" "steady bld hs k m g"
  for hw :: "'d port_hw" and bld hs k m g
  by unfold_locales (auto intro: steady_take_irq)

lemma steady_take_irqs:
  "steady bld hs k m g s \<Longrightarrow> lines_ok irqs \<Longrightarrow> returns (take_irqs hw irqs s) (steady bld hs k m g)"
  unfolding take_irqs_def lines_ok_def by (rule irqs.fold_keeps)

lemma then_irqs_steady:
  assumes "returns r (steady bld hs k m g)" and "lines_ok irqs"
  shows "returns (then_irqs hw irqs r) (steady bld hs k m g)"
  unfolding then_irqs_def by (rule returns_bind [OF assms(1)]) (rule steady_take_irqs [OF _ assms(2)])

subsection \<open>Statements of the running kernel\<close>

lemma steady_text:
  assumes "steady bld hs k m g s" and "CHR 0x09 \<notin> set t" and "l = k + newlines t" and "l \<le> 19"
  shows "steady bld hs l m g (fold (screen_write hw) t s)"
  using assms fold_screen_write_rows [of k s t hw]
  by (auto simp: steady_def running_def tables_ok_def)

lemma steady_print:
  assumes "render format arg = Some t" and "NUL \<notin> set format" and "CHR 0x09 \<notin> set t"
    and "steady bld hs k m g s" and "l = k + newlines t" and "l \<le> 19"
  shows "returns (printfk hw format arg s) (steady bld hs l m g)"
  using steady_text [OF assms(4,3,5,6)] by (simp add: printfk_text [OF assms(1,2)])

definition handlers_booted :: "isr_t option list" where
  "handlers_booted = (replicate 256 None)[3 := Some Breakpoint_handler]"

definition handlers_timer :: "isr_t option list" where
  "handlers_timer = handlers_booted[32 := Some Timer_callback]"

definition handlers_keyboard :: "isr_t option list" where
  "handlers_keyboard = handlers_timer[33 := Some Keyboard_callback]"

lemmas handlers_defs = handlers_booted_def handlers_timer_def handlers_keyboard_def

lemma handlers_ok [simp]:
  "irq_handlers_ok handlers_booted" "irq_handlers_ok handlers_timer" "irq_handlers_ok handlers_keyboard"
  by (simp_all add: irq_handlers_ok_def handlers_defs upt_rec [of _ 5] nth_list_update)

lemma timer_handlers_ready:
  assumes "steady bld hs k m g s" and "hs = handlers_timer \<or> hs = handlers_keyboard"
  shows "irq_ready bld s"
  using assms by (auto simp: steady_def running_def irq_ready_def handlers_defs nth_list_update split: if_splits)

lemma steady_timer_init:
  assumes "steady bld handlers_booted k m g s"
  shows "returns (timer_init hw 50 s) (steady bld handlers_timer k m g)"
  using assms
  by (subst timer_init_eq)
    (auto simp: steady_def running_def tables_ok_def handlers_timer_def nth_list_update
      intro: handlers_ok [unfolded handlers_timer_def])

lemma steady_keyboard_init:
  assumes "steady bld handlers_timer k m g s"
  shows "returns (keyboard_init s) (steady bld handlers_keyboard k m g)"
  using assms
  by (auto simp: keyboard_init_def IRQ1_def register_interrupt_handler_eq steady_def running_def tables_ok_def
      handlers_keyboard_def nth_list_update intro: handlers_ok [unfolded handlers_keyboard_def])

lemma steady_dev: "steady bld hs k m g (s\<lparr>dev := d\<rparr>) = steady bld hs k m g s"
  by (simp add: steady_def running_def tables_ok_def)

lemma steady_serial_init:
  "steady bld hs k m g s \<Longrightarrow> steady bld hs k m g (serial_init hw com divisor s)"
  by (simp add: serial_init_def port_byte_out_def Let_def steady_dev)

subsection \<open>What the statements print\<close>

definition pad2 :: "nat \<Rightarrow> string" where
  "pad2 n = replicate (2 - length (numeral_of 10 n)) (CHR ''0'') @ numeral_of 10 n"

definition date_text :: "cmos_rtc \<Rightarrow> string" where
  "date_text rtc = [NL] @ ''Hello Human, today's date and time is '' @ pad2 (unat (year rtc)) @ ''/'' @
     pad2 (unat (month rtc)) @ ''/'' @ pad2 (unat (day rtc)) @ '' '' @ pad2 (unat (hours rtc)) @ '':'' @
     pad2 (unat (minutes rtc)) @ '':'' @ pad2 (unat (seconds rtc)) @ '' UTC'' @ [NL]"

lemma render_dec2:
  assumes "CHR ''%'' \<notin> set xs" and "unat v < 2 ^ 31"
  shows "render (xs @ CHR ''%'' # CHR ''2'' # CHR ''d'' # cs) (VInt v # arg) =
    map_option (\<lambda>t. xs @ pad2 (unat v) @ t) (render cs arg)"
proof -
  have "- (2 ^ 31) < int (unat v)" by (rule less_le_trans [of _ 0]) simp_all
  then have "sint (ucast v :: u32) \<noteq> INT_MIN"
    unfolding sint_ucast_small [OF assms(2)] INT_MIN_def by (rule not_sym [OF less_imp_neq])
  moreover have "char_digit (CHR ''2'') = 2" by code_simp
  ultimately show ?thesis
    using sint_ucast_small [OF assms(2)] assms(1)
    by (subst render_literal) (simp_all add: conv_text_def is_digit_def Let_def option.map_comp
        comp_def decimal_text_def pad2_def)
qed

lemma unat_ucast_small:
  "unat (ucast (x :: u8) :: u64) = unat x" "unat (ucast (y :: u16) :: u64) = unat y"
  "unat (ucast (x :: u8) :: u64) < 2 ^ 31" "unat (ucast (y :: u16) :: u64) < 2 ^ 31"
proof -
  have "unat x < 256" "unat y < 65536"
    using unsigned_less [of x, where ?'a = nat] unsigned_less [of y, where ?'a = nat] by simp_all
  then show "unat (ucast x :: u64) = unat x" "unat (ucast y :: u64) = unat y"
    "unat (ucast x :: u64) < 2 ^ 31" "unat (ucast y :: u64) < 2 ^ 31"
    by (simp_all add: unsigned_ucast_eq take_bit_nat_eq_self)
qed

lemma print_date_eq: "print_date hw rtc s = Inr (fold (screen_write hw) (date_text rtc) s)"
proof -
  let ?fmt = "[NL] @ ''Hello Human, today's date and time is %2d/%2d/%2d %2d:%2d:%2d UTC'' @ [NL]"
  have fmt: "?fmt = (NL # ''Hello Human, today's date and time is '') @ CHR ''%'' # CHR ''2'' # CHR ''d'' #
    (''/'' @ CHR ''%'' # CHR ''2'' # CHR ''d'' # (''/'' @ CHR ''%'' # CHR ''2'' # CHR ''d'' #
    ('' '' @ CHR ''%'' # CHR ''2'' # CHR ''d'' # ('':'' @ CHR ''%'' # CHR ''2'' # CHR ''d'' #
    ('':'' @ CHR ''%'' # CHR ''2'' # CHR ''d'' # ('' UTC'' @ [NL]))))))" by simp
  have "render ?fmt [VInt (ucast (year rtc)), VInt (ucast (month rtc)), VInt (ucast (day rtc)),
        VInt (ucast (hours rtc)), VInt (ucast (minutes rtc)), VInt (ucast (seconds rtc))] = Some (date_text rtc)"
    unfolding fmt
    by (subst render_dec2, simp, rule unat_ucast_small)+ (simp add: date_text_def unat_ucast_small)
  then show ?thesis unfolding print_date_def by (rule printfk_text) simp
qed

text \<open>Plain text has no newline and no tab.\<close>

lemma plain_text: "list_all plain t \<Longrightarrow> newlines t = 0 \<and> CHR 0x09 \<notin> set t \<and> NUL \<notin> set t"
  by (auto simp: newlines_def list_all_iff plain_def filter_empty_conv)

lemma plain_pad2 [simp]: "list_all plain (pad2 n)"
  by (simp add: pad2_def) (simp add: list_all_iff plain_def)

lemma date_text_rows: "newlines (date_text rtc) = 2" "CHR 0x09 \<notin> set (date_text rtc)"
  using plain_text [OF plain_pad2] by (simp_all add: date_text_def)

definition area_text :: "string \<Rightarrow> string \<Rightarrow> u64 \<Rightarrow> u64 \<Rightarrow> string" where
  "area_text x y a b = x @ numeral_of 16 (unat a) @ y @ numeral_of 16 (unat b) @ [NL]"

lemma render_area:
  assumes "CHR ''%'' \<notin> set x" and "CHR ''%'' \<notin> set y"
  shows "render (x @ CHR ''%'' # CHR ''X'' # y @ CHR ''%'' # CHR ''X'' # [NL]) [VInt a, VInt b] = Some (area_text x y a b)"
  by (subst render_hex [OF assms(1)], subst render_hex [OF assms(2)]) (simp add: area_text_def)

definition welcome_text :: "build \<Rightarrow> string" where
  "welcome_text bld = KERNEL_ASCII @ [NL] @ KERNEL_NAME @ '' '' @ KERNEL_VERSION @ '' / Built on: '' @
     build_date bld @ '' at '' @ build_time bld @ [NL, NL]"

definition build_ok :: "build \<Rightarrow> bool" where
  "build_ok bld \<longleftrightarrow> list_all plain (build_date bld) \<and> list_all plain (build_time bld)"

lemma print_welcome_eq:
  assumes "build_ok bld"
  shows "print_welcome_messge hw bld s = Inr (fold (screen_write hw) (welcome_text bld) s)"
proof -
  have c: "cstr (build_date bld) = build_date bld" "cstr (build_time bld) = build_time bld"
    "cstr KERNEL_NAME = KERNEL_NAME" "cstr KERNEL_VERSION = KERNEL_VERSION" "cstr KERNEL_ASCII = KERNEL_ASCII"
    using assms by (simp_all add: build_ok_def KERNEL_NAME_def KERNEL_VERSION_def KERNEL_ASCII_def plain_text)
  have 1: "render (''%s'' @ [NL]) [VStr KERNEL_ASCII] = Some (KERNEL_ASCII @ [NL])"
    using render_str [of "[]" "[NL]" KERNEL_ASCII "[]"] c by simp
  have fmt: "''%s %s / Built on: %s at %s'' @ [NL, NL] = [] @ CHR ''%'' # CHR ''s'' # ('' '' @ CHR ''%'' # CHR ''s'' #
    ('' / Built on: '' @ CHR ''%'' # CHR ''s'' # ('' at '' @ CHR ''%'' # CHR ''s'' # [NL, NL])))" by simp
  have 2: "render (''%s %s / Built on: %s at %s'' @ [NL, NL])
     [VStr KERNEL_NAME, VStr KERNEL_VERSION, VStr (build_date bld), VStr (build_time bld)] =
     Some (KERNEL_NAME @ '' '' @ KERNEL_VERSION @ '' / Built on: '' @ build_date bld @ '' at '' @ build_time bld @ [NL, NL])"
    unfolding fmt by (subst render_str, simp)+ (simp add: c)
  have nul: "NUL \<notin> set (''%s'' @ [NL])" "NUL \<notin> set (''%s %s / Built on: %s at %s'' @ [NL, NL])" by simp_all
  show ?thesis
    unfolding print_welcome_messge_def printfk_text [OF 1 nul(1)] printfk_text [OF 2 nul(2)] res_bind_simps
    by (simp only: welcome_text_def fold_append comp_apply append_assoc)
qed

lemma area_text_rows:
  "newlines (area_text x y a b) = newlines x + newlines y + 1"
  "CHR 0x09 \<notin> set x \<Longrightarrow> CHR 0x09 \<notin> set y \<Longrightarrow> CHR 0x09 \<notin> set (area_text x y a b)"
  using plain_text [OF plain_numeral_of, of 16] by (simp_all add: area_text_def)

lemma welcome_text_rows:
  assumes "build_ok bld" shows "newlines (welcome_text bld) = 6" and "CHR 0x09 \<notin> set (welcome_text bld)"
  using assms plain_text [of "build_date bld"] plain_text [of "build_time bld"]
  by (simp_all add: welcome_text_def build_ok_def KERNEL_NAME_def KERNEL_VERSION_def KERNEL_ASCII_def)

subsection \<open>The rest of the running kernel\<close>

lemma steady_round:
  fixes s :: "('d, 'z) kernel_state_scheme"
  assumes "steady bld hs k m g s" and "\<forall>n. lines_ok (arrivals n)"
  shows "steady bld hs k m g (round hw arrivals n s)"
proof (induction n)
  case (Suc n)
  have "steady bld hs k m g (fold (\<lambda>(n, rsp). irq_effect hw n rsp) irqs t)"
    if "steady bld hs k m g t" "lines_ok irqs" for irqs and t :: "('d, 'z) kernel_state_scheme"
    using that by (induction irqs arbitrary: t) (auto simp: lines_ok_def irq_effect_steady)
  with Suc assms(2) show ?case by (simp add: irq_effects_def)
qed (use assms in simp)

lemma steady_check_interrupts:
  assumes s: "steady bld handlers_timer k m g s" and "\<forall>n. lines_ok (arrivals n)"
    and "\<exists>n. ticked arrivals n" and "k < 19"
  shows "returns (check_interrupts hw arrivals s) (steady bld handlers_timer (Suc k) m g)"
proof -
  define n where "n = (LEAST n. ticked arrivals n)"
  have n: "ticked arrivals n" unfolding n_def using assms(3) by (rule LeastI_ex)
  have "\<not> ticked arrivals j" if "j < n" for j using that not_less_Least unfolding n_def by blast
  note eq = check_interrupts_eq [OF timer_handlers_ready [OF s] assms(2) n this]
  have "steady bld handlers_timer k m g (fold (screen_write hw) checking_text s)"
    by (rule steady_text [OF s]) (use assms(4) in \<open>simp_all add: checking_text_def\<close>)
  note round = steady_round [OF this assms(2), of hw n]
  have "steady bld handlers_timer (Suc k) m g (fold (screen_write hw) ok_text
      (round hw arrivals n (fold (screen_write hw) checking_text s)))"
    by (rule steady_text [OF round]) (use assms(4) in \<open>simp_all add: ok_text_def\<close>)
  then show ?thesis by (subst eq) simp_all
qed

lemma steady_cmos_read_rtc:
  fixes s :: "('d, 'z) kernel_state_scheme"
  assumes "steady bld hs k m g s" and "keeps_time hw"
  shows "returns (cmos_read_rtc hw s :: 's stop + _) (\<lambda>(rtc, s). steady bld hs k m g s)"
  using keeps_time_cmos_read_rtc [OF assms(2), of s, where ?'s = 's] assms(1)
  by (auto simp: returns_def steady_dev)

text \<open>A tag header away from the video memory, and the walk over tags that all are.\<close>

definition off_screen :: "u64 \<Rightarrow> bool" where
  "off_screen t \<longleftrightarrow> list_all (\<lambda>i. \<not> within (t + of_nat i) VIDEO_ADDRESS 8000) [0..<8]"

lemma off_screen_header:
  assumes "outside m = outside m'" and "off_screen t"
  shows "tag_type m t = tag_type m' t" and "tag_size m t = tag_size m' t"
proof -
  have byte: "m (t + of_nat i) = m' (t + of_nat i)" if "i < 8" for i
    using assms(2) that by (intro outsideD [OF assms(1)]) (auto simp: off_screen_def list_all_iff)
  show "tag_type m t = tag_type m' t" "tag_size m t = tag_size m' t"
    using byte [of 0] byte [of 1] byte [of 2] byte [of 3] byte [of 4] byte [of 5] byte [of 6] byte [of 7]
    by (simp_all add: tag_type_def tag_size_def load32_def add.assoc)
qed

lemma tags_at_outside:
  assumes "outside m = outside m'" and "list_all off_screen (ts @ [e])"
  shows "tags_at m a ts e \<Longrightarrow> tags_at m' a ts e"
  using assms(2)
  by (induction ts arbitrary: a) (auto simp: off_screen_header [OF assms(1)] tag_after_def)

lemma find_tag_outside:
  assumes "outside m = outside m'" and "list_all off_screen (ts @ [e])" and "tags_at m' a ts e"
  shows "find_multiboot_tag m a ty = find_multiboot_tag m' a ty"
proof -
  have "find (\<lambda>t. tag_type m t = ucast ty) ts = find (\<lambda>t. tag_type m' t = ucast ty) ts"
    using assms(2) by (intro find_cong) (auto simp: off_screen_header(1) [OF assms(1)] list_all_iff)
  with find_multiboot_tag_walk [OF tags_at_outside [OF assms(1) [symmetric] assms(2,3)]]
    find_multiboot_tag_walk [OF assms(3)] show ?thesis by simp
qed

subsection \<open>Before interrupts are enabled\<close>

definition cold :: "nat \<Rightarrow> bytes \<Rightarrow> mmap_globals \<Rightarrow> ('d, 'z) kernel_state_scheme \<Rightarrow> bool" where
  "cold k m g s \<longleftrightarrow> length (idt s) = 256 \<and> interrupt_handlers s = replicate 256 None
     \<and> rows_ok k s \<and> outside (mem s) = outside m \<and> mmap_state s = g"

lemma cold_text:
  assumes "cold k m g s" and "CHR 0x09 \<notin> set t" and "l = k + newlines t" and "l \<le> 19"
  shows "cold l m g (fold (screen_write hw) t s)"
  using assms fold_screen_write_rows [of k s t hw] by (auto simp: cold_def)

lemma cold_isr_init:
  assumes "cold k m g s" and "1 \<le> k" and "k \<le> 19"
  shows "returns (isr_init hw bld s) (\<lambda>s. steady bld handlers_booted k m g (irq_init s))"
  using assms
  by (subst isr_init_eq)
    (auto simp: cold_def steady_def running_def tables_ok_def install_init_gates irq_init_def handlers_booted_def
      intro: handlers_ok [unfolded handlers_booted_def])

lemma cold_start:
  assumes "length (idt s) = 256" and "interrupt_handlers s = replicate 256 None"
  shows "cold 0 (mem (screen_clear (screen_init s))) (mmap_state s) (screen_clear (screen_init s))"
  using assms by (simp add: cold_def rows_ok_def cursor_ok_def screen_clear_eq screen_init_def)

subsection \<open>The boot\<close>

lemma statement:
  assumes "returns r (steady bld hs k m g)" and "lines_ok irqs"
    and "\<And>s. steady bld hs k m g s \<Longrightarrow> returns (f s) Q"
  shows "returns (res_bind (then_irqs hw irqs r) f) Q"
  by (rule returns_bind [OF then_irqs_steady [OF assms(1,2)] assms(3)])

lemma statement_Inr:
  assumes "steady bld hs k m g s" and "lines_ok irqs"
    and "\<And>s. steady bld hs k m g s \<Longrightarrow> returns (f s) Q"
  shows "returns (res_bind (then_irqs hw irqs (Inr s)) f) Q"
  by (rule statement [OF _ assms(2,3)]) (simp_all add: assms(1))

lemma render_plain: "CHR ''%'' \<notin> set t \<Longrightarrow> render t arg = Some t"
  using render_literal [of t "[]" arg] by simp

lemma statement_line:
  assumes "steady bld hs k m g s" and "k < 19" and "list_all plain t" and "CHR ''%'' \<notin> set t" and "lines_ok irqs"
    and "\<And>s. steady bld hs (Suc k) m g s \<Longrightarrow> returns (f s) Q"
  shows "returns (res_bind (then_irqs hw irqs (printfk hw (t @ [NL]) [] s)) f) Q"
proof (rule statement [OF _ assms(5,6)])
  show "returns (printfk hw (t @ [NL]) [] s) (steady bld hs (Suc k) m g)"
    by (rule steady_print [OF render_plain _ _ assms(1)])
      (use assms(2,4) plain_text [OF assms(3)] in simp_all)
qed

lemma steady_print_date:
  assumes "steady bld hs k m g s" and "k \<le> 17"
  shows "returns (print_date hw rtc s) (steady bld hs (Suc (Suc k)) m g)"
  unfolding print_date_eq returns_Inr
  by (rule steady_text [OF assms(1)]) (use assms(2) in \<open>simp_all add: date_text_rows\<close>)

lemma steady_prompt: "steady bld hs k m g s \<Longrightarrow> returns (printfk hw ''$ '' [] s) (steady bld hs k m g)"
  by (rule steady_print [OF render_plain]) (simp_all add: steady_def)

definition booting :: "build \<Rightarrow> schedule \<Rightarrow> bool" where
  "booting bld sched \<longleftrightarrow> build_ok bld \<and> (\<forall>n. lines_ok (between sched n)) \<and> (\<forall>n. lines_ok (waiting sched n))
     \<and> (\<exists>n. ticked (waiting sched) n)"

text \<open>From the enabling of interrupts on.\<close>

lemma boot_running:
  assumes s: "steady bld handlers_booted 8 m g (irq_init s)" and b: "booting bld sched"
    and clock: "keeps_time hw"
    and tags: "tags_at m (mbi_tags mbi) ts e" "list_all off_screen (ts @ [e])"
    and mmap: "find_multiboot_tag m (mbi_tags mbi) (ucast MULTIBOOT_TAG_TYPE_MMAP) = Some mmap"
  shows "returns (kmain_interruptible hw sched mbi r s) (steady bld handlers_keyboard 15 m (mmu_init mmap r g))"
proof -
  have irqs: "lines_ok (between sched n)" and wait: "\<forall>n. lines_ok (waiting sched n)" "\<exists>n. ticked (waiting sched) n" for n
    using b by (simp_all add: booting_def)
  have find: "find_multiboot_tag (mem t) (mbi_tags mbi) (ucast MULTIBOOT_TAG_TYPE_MMAP) = Some mmap"
    if "steady bld handlers_keyboard k m g t" for k t
  proof -
    have "outside (mem t) = outside m" using that by (simp add: steady_def running_def)
    from find_tag_outside [OF this tags(2,1)] mmap show ?thesis by (simp only:)
  qed
  have set: "steady bld handlers_keyboard k m g' (t\<lparr>mmap_state := mmu_init mmap r (mmap_state t)\<rparr>)"
    if "steady bld handlers_keyboard k m g t" and "g' = mmu_init mmap r g" for k t g'
    using that by (auto simp: steady_def running_def tables_ok_def)
  show ?thesis
    unfolding kmain_interruptible_def Let_def
    apply (rule statement_Inr [OF s irqs])
    apply (erule statement_line, simp, simp add: plain_def, simp, rule irqs)
    apply (rule statement [OF steady_timer_init irqs], assumption)
    apply (erule statement_line, simp, simp add: plain_def, simp, rule irqs)
    apply (rule statement [OF steady_check_interrupts [OF _ wait] irqs], assumption, simp)
    apply (rule statement_Inr [OF steady_serial_init irqs], assumption)
    apply (rule statement [OF steady_keyboard_init irqs], assumption)
    apply (erule statement_line, simp, simp add: plain_def, simp, rule irqs)
    apply (subst find, assumption)
    apply (unfold returning_simps res_bind_simps)
    apply (rule statement_Inr [OF set irqs], assumption, rule refl)
    apply (erule statement_line, simp, simp add: plain_def, simp, rule irqs)
    apply (rule returns_bind [OF steady_cmos_read_rtc [OF _ clock]], assumption)
    apply (clarsimp simp only: prod.case split_paired_all)
    apply (rule statement [OF steady_print_date irqs], assumption, simp)
    apply (rule then_irqs_steady [OF steady_prompt irqs], simp)
    done
qed

lemma multiboot_is_valid_accepts:
  "addr AND 7 = 0 \<Longrightarrow> multiboot_is_valid hw MULTIBOOT2_MAGIC_VALUE addr s = Inr (True, s)"
  by (simp add: multiboot_is_valid_def)

lemma area_formats:
  "''- multiboot_start = 0x%X, multiboot_end = 0x%X'' @ [NL] =
    ''- multiboot_start = 0x'' @ CHR ''%'' # CHR ''X'' # '', multiboot_end = 0x'' @ CHR ''%'' # CHR ''X'' # [NL]"
  "''- kernel_start    = 0x%X, kernel_end    = 0x%X'' @ [NL] =
    ''- kernel_start    = 0x'' @ CHR ''%'' # CHR ''X'' # '', kernel_end    = 0x'' @ CHR ''%'' # CHR ''X'' # [NL]"
  by simp_all

lemma cold_area:
  assumes "cold k m g s" and "k < 19" and "list_all (\<lambda>c. plain c \<and> c \<noteq> CHR ''%'') (x @ y)"
  shows "returns (printfk hw (x @ CHR ''%'' # CHR ''X'' # y @ CHR ''%'' # CHR ''X'' # [NL]) [VInt a, VInt b] s)
    (cold (Suc k) m g)"
proof -
  have xy: "list_all plain x" "list_all plain y" "CHR ''%'' \<notin> set x" "CHR ''%'' \<notin> set y"
    using assms(3) by (auto simp: list_all_iff)
  note txts = plain_text [OF xy(1)] plain_text [OF xy(2)]
  have "cold (Suc k) m g (fold (screen_write hw) (area_text x y a b) s)"
    by (rule cold_text [OF assms(1)]) (use assms(2) txts in \<open>simp_all add: area_text_rows\<close>)
  then show ?thesis using txts by (subst printfk_text [OF render_area [OF xy(3,4)]]) simp_all
qed

lemma kmain_returns:
  fixes s :: "('d, 'z) kernel_state_scheme"
  assumes "booting bld sched" and "keeps_time hw"
    and "length (idt s) = 256" and "interrupt_handlers s = replicate 256 None" and "addr AND 7 = 0"
    and m: "m = mem (screen_clear (screen_init s))"
    and tags: "tags_at m (mbi_tags addr) ts e" "list_all off_screen (ts @ [e])"
    and r: "(read_multiboot_info m addr :: ('d, 'z) kernel_state_scheme stop + _) = Inr r"
    and mmap: "find_multiboot_tag m (mbi_tags addr) (ucast MULTIBOOT_TAG_TYPE_MMAP) = Some mmap"
  shows "returns (kmain hw bld sched MULTIBOOT2_MAGIC_VALUE addr s)
    (steady bld handlers_keyboard 15 m (mmu_init mmap r (mmap_state s)))"
proof -
  let ?s = "screen_clear (screen_init s)"
  note valid = multiboot_is_valid_accepts [OF assms(5), of hw ?s]
  have bld: "build_ok bld" using assms(1) by (simp add: booting_def)
  have "cold 0 m (mmap_state s) ?s" unfolding m by (rule cold_start [OF assms(3,4)])
  then have start: "cold 6 m (mmap_state s) (fold (screen_write hw) (welcome_text bld) ?s)"
    by (rule cold_text) (simp_all add: welcome_text_rows [OF bld])
  show ?thesis
    unfolding kmain_def Let_def valid res_bind_simps prod.case if_False m [symmetric] r print_welcome_eq [OF bld]
      area_formats simp_thms
    apply (rule returns_bind [OF cold_area [OF start]], simp, simp add: plain_def)
    apply (rule returns_bind [OF cold_area], assumption, simp, simp add: plain_def)
    apply (rule returns_bind [OF cold_isr_init], assumption, simp, simp)
    apply (rule boot_running [OF _ assms(1,2) tags mmap])
    apply (simp add: eval_nat_numeral)
    done
qed

subsection \<open>A boot loader that is not one\<close>

definition invalid_text :: string where
  "invalid_text = NL # ''PANIC in src/kernel/kmain.c:26:kmain(): invalid multiboot'' @ [NL]"

lemma invalid_panic:
  "PANIC hw ''src/kernel/kmain.c'' 26 ''kmain'' ''invalid multiboot'' [] s =
    Inl (Halted (irq_disable (fold (screen_write hw) (invalid_text @ halt_text) s)))"
proof -
  have "render (NL # ''PANIC in %s:%d:%s(): '' @ ''invalid multiboot'' @ [NL] @ ''%s'')
    ([VStr ''src/kernel/kmain.c'', VInt 26, VStr ''kmain''] @ [] @ [VStr []]) = Some invalid_text"
    by code_simp
  then show ?thesis unfolding PANIC_def by (rule kernel_panic_eq) simp
qed

text \<open>The reason that is shown: the magic value, or else the address.\<close>

definition bad_boot_text :: "u64 \<Rightarrow> u64 \<Rightarrow> string" where
  "bad_boot_text magic addr =
     (if magic \<noteq> 0x36d76289 then ''Invalid magic value: 0x'' @ hex_int_text magic
      else ''Unaligned MBI: 0x'' @ hex_int_text addr)"

lemma multiboot_is_valid_rejects:
  fixes s :: "('d, 'z) screen_state_scheme"
  assumes "magic \<noteq> 0x36d76289 \<or> addr AND 7 \<noteq> 0"
  shows "(multiboot_is_valid hw magic addr s :: 's stop + _) =
    Inr (False, fold (screen_write hw) (bad_boot_text magic addr) s)"
  using assms printfk_hex_int [of "''Invalid magic value: 0x''" hw magic s, where ?'s = 's]
    printfk_hex_int [of "''Unaligned MBI: 0x''" hw addr s, where ?'s = 's]
  by (auto simp: multiboot_is_valid_def MULTIBOOT2_MAGIC_VALUE_def bad_boot_text_def)

lemma multiboot_is_valid_True:
  assumes "(multiboot_is_valid hw magic addr s :: 's stop + _) = Inr (True, s')"
  shows "magic = 0x36d76289 \<and> addr AND 7 = 0"
  using assms by (auto simp: multiboot_is_valid_def MULTIBOOT2_MAGIC_VALUE_def res_bind_Inr_iff split: if_splits)

lemma kmain_needs_valid_boot:
  assumes "magic \<noteq> 0x36d76289 \<or> \<not> 8 dvd unat addr"
  shows "kmain hw bld sched magic addr s \<noteq> Inr s'"
  using assms multiboot_is_valid_True [of hw magic addr "screen_clear (screen_init s)"]
  by (auto simp: kmain_def Let_def res_bind_Inr_iff invalid_panic addr_AND_7)

lemma screen_clear_tables [simp]:
  "idt (screen_clear (screen_init s)) = idt s"
  "interrupt_handlers (screen_clear (screen_init s)) = interrupt_handlers s"
  by (simp_all add: screen_clear_eq screen_init_def)

lemma kmain_steady:
  fixes s :: "('d, 'z) kernel_state_scheme"
  assumes "booting bld sched" and "keeps_time hw"
    and "length (idt s) = 256" and "interrupt_handlers s = replicate 256 None"
    and "8 dvd unat addr" and "m = mem (screen_clear (screen_init s))"
    and "tags_at m (mbi_tags addr) ts e" and "list_all (walkable m) ts" and "list_all off_screen (ts @ [e])"
  obtains s' r mmap where "kmain hw bld sched 0x36d76289 addr s = Inr s'"
    and "(read_multiboot_info m addr :: ('d, 'z) kernel_state_scheme stop + _) = Inr r"
    and "find_multiboot_tag m (mbi_tags addr) 6 = Some mmap"
    and "steady bld handlers_keyboard 15 m (mmu_init mmap r (mmap_state s)) s'" and "irq_ready bld s'"
proof -
  have a: "addr AND 7 = 0" using assms(5) by (simp add: addr_AND_7)
  have "\<exists>r. (read_multiboot_info m addr :: ('d, 'z) kernel_state_scheme stop + _) = Inr r"
    by (subst read_multiboot_info_eq [OF assms(7)]) (use assms(8) in \<open>simp_all add: list_all_iff\<close>)
  then obtain r where r: "(read_multiboot_info m addr :: ('d, 'z) kernel_state_scheme stop + _) = Inr r" ..
  obtain mmap where mmap: "find_multiboot_tag m (mbi_tags addr) 6 = Some mmap"
    using find_multiboot_tag_walk [OF assms(7)] by blast
  moreover have "ucast MULTIBOOT_TAG_TYPE_MMAP = (6 :: u16)" by (simp add: MULTIBOOT_TAG_TYPE_MMAP_def)
  ultimately have "find_multiboot_tag m (mbi_tags addr) (ucast MULTIBOOT_TAG_TYPE_MMAP) = Some mmap" by simp
  from kmain_returns [OF assms(1-4) a assms(6,7,9) r this]
  obtain s' where s': "kmain hw bld sched 0x36d76289 addr s = Inr s'"
    and st: "steady bld handlers_keyboard 15 m (mmu_init mmap r (mmap_state s)) s'"
    by (auto simp: returns_def MULTIBOOT2_MAGIC_VALUE_def)
  show thesis by (rule that [OF s' r mmap st]) (use timer_handlers_ready [OF st] in simp)
qed

subsection \<open>Properties\<close>

text \<open>
  C5. The boot: called with the loader's magic value and the address of well-formed boot
  information away from the video memory, \<open>kmain\<close> reaches its final loop, on a machine whose clock
  keeps time (it may tick meanwhile, \<open>keeps_time\<close>) and with at least one timer interrupt during the
  self-check. Further requests on lines 0 to 4 may be taken at the points of the model: after a
  statement of \<open>kmain\<close>, where a call has returned and no argument of the next one is loaded, and
  between two rounds of the wait loop. A request inside a C function that \<open>kmain\<close> calls is not
  covered; there the stub could destroy a live \<^verbatim>\<open>rdi\<close>. In the final loop the interrupt tables are
  in place, the timer and keyboard
  handlers are registered and interrupts are enabled, the frame allocator starts with the memory
  map of the boot information and the reserved areas read from it, and no store of \<open>kmain\<close> to
  an address has gone outside the video memory (its globals are fields of the state, its stack
  is not modelled).
\<close>

theorem kmain_boots:
  fixes s :: "('d, 'z) kernel_state_scheme"
  assumes "booting bld sched" and "keeps_time hw"
    and "length (idt s) = 256" and "interrupt_handlers s = replicate 256 None"
    and "8 dvd unat addr" and "m = mem (screen_clear (screen_init s))"
    and "tags_at m (mbi_tags addr) ts e" and "list_all (walkable m) ts" and "list_all off_screen (ts @ [e])"
  shows "\<exists>s' r mmap. kmain hw bld sched 0x36d76289 addr s = Inr s'
    \<and> (read_multiboot_info m addr :: ('d, 'z) kernel_state_scheme stop + _) = Inr r
    \<and> find_multiboot_tag m (mbi_tags addr) 6 = Some mmap
    \<and> mmap_state s' = mmap_init mmap r (mmap_state s)
    \<and> irq_ready bld s' \<and> interrupt_handlers s' ! 33 = Some Keyboard_callback
    \<and> 0 \<le> screen_row s' \<and> screen_row s' \<le> 39 \<and> outside (mem s') = outside m"
proof -
  obtain s' r mmap where s': "kmain hw bld sched 0x36d76289 addr s = Inr s'" "irq_ready bld s'"
    and r: "(read_multiboot_info m addr :: ('d, 'z) kernel_state_scheme stop + _) = Inr r"
    "find_multiboot_tag m (mbi_tags addr) 6 = Some mmap"
    and st: "steady bld handlers_keyboard 15 m (mmu_init mmap r (mmap_state s)) s'"
    by (rule kmain_steady [OF assms])
  have "interrupt_handlers s' ! 33 = Some Keyboard_callback"
    using st by (simp add: steady_def running_def handlers_defs)
  moreover have "mmap_state s' = mmap_init mmap r (mmap_state s)"
    "0 \<le> screen_row s'" "screen_row s' \<le> 39" "outside (mem s') = outside m"
    using st by (simp_all add: steady_def running_def rows_ok_def cursor_ok_def mmu_init_def paging_init_def)
  ultimately show ?thesis using s' r by blast
qed

text \<open>
  C7. Called with any other magic value or an unaligned address, \<open>kmain\<close> clears the screen, writes
  the reason, the message of the panic and that of the halt, and halts with interrupts disabled,
  before any interrupt table is touched; it never reaches its final loop. The offending value is
  shown as \<open>hex_int_text\<close> says: not in full when bit 31 is set.
\<close>

theorem kmain_rejects_bad_boot:
  fixes s :: "('d, 'z) kernel_state_scheme"
  assumes "magic \<noteq> 0x36d76289 \<or> \<not> 8 dvd unat addr"
  shows "\<exists>s'. kmain hw bld sched magic addr s = Inl (Halted s')
    \<and> s' = irq_disable (fold (screen_write hw) (bad_boot_text magic addr @ invalid_text @ halt_text)
        (screen_clear (screen_init s)))
    \<and> \<not> cpu_if s' \<and> idt s' = idt s \<and> interrupt_handlers s' = interrupt_handlers s"
proof -
  have bad: "magic \<noteq> 0x36d76289 \<or> addr AND 7 \<noteq> 0" using assms by (simp add: addr_AND_7)
  have "kmain hw bld sched magic addr s = Inl (Halted (irq_disable
      (fold (screen_write hw) (bad_boot_text magic addr @ invalid_text @ halt_text) (screen_clear (screen_init s)))))"
    unfolding kmain_def Let_def multiboot_is_valid_rejects [OF bad] by (simp add: invalid_panic)
  then show ?thesis by (simp add: irq_disable_def)
qed

subsection \<open>A boot, for the witnesses\<close>

definition sample_kernel :: "(u8 \<times> nat) kernel_state" where
  "sample_kernel = \<lparr>dev = (0, 62), mem = sample_mem, screen_scheme = 0, framebuffer = 0, screen_col = 0,
     screen_row = 0, idt = replicate 256 (gate_for 0), idt_reg = \<lparr>length_field = 0, base_field = 0\<rparr>,
     cpu_idtr = None, cpu_if = False, interrupt_handlers = replicate 256 None, tick = 0,
     mmap_state = \<lparr>memory_area = 0, g_kernel_start = 0, g_kernel_end = 0, g_multiboot_start = 0,
       g_multiboot_end = 0, next_free_frame = 0\<rparr>\<rparr>"

definition sample_schedule :: schedule where
  "sample_schedule = \<lparr>between = \<lambda>n. [(0, 0), (1, 0)], waiting = \<lambda>n. if n = 2 then [(0, 0)] else []\<rparr>"

lemma sample_booting: "booting sample_build sample_schedule"
proof -
  have "requests_before (waiting sample_schedule) 3 = 1"
    by (simp add: requests_before_def sample_schedule_def timer_requests_def lessThan_nat_numeral lessThan_Suc)
  then have "ticked (waiting sample_schedule) 3" by (simp add: ticked_def)
  then show ?thesis
    by (auto simp: booting_def build_ok_def sample_build_def sample_schedule_def lines_ok_def plain_def)
qed

lemma outside_screen_clear: "outside (mem (screen_clear (screen_init s))) = outside (mem s)"
proof (rule outsideI)
  fix a assume "\<not> within a VIDEO_ADDRESS 8000"
  then show "mem (screen_clear (screen_init s)) a = mem s a"
    by (simp add: screen_clear_eq screen_init_def text_mem_def within_def Let_def)
qed

lemma off_screen_low:
  assumes "unat t + 8 \<le> 0xB8000"
  shows "off_screen t"
proof -
  have "\<not> within (t + of_nat i) VIDEO_ADDRESS 8000" if "i < 8" for i
  proof -
    have "unat (t + of_nat i) = unat t + i"
      using assms that by (subst unat_add_lem [THEN iffD1]) (simp_all add: unat_of_nat)
    with assms that show ?thesis
      by (simp add: within_def VIDEO_ADDRESS_def unat_sub_if_size word_size)
  qed
  then show ?thesis by (simp add: off_screen_def list_all_iff)
qed

lemma sample_off_screen: "list_all off_screen ([8] @ [96])"
  by (simp add: off_screen_low)

lemma sample_outside: "outside sample_mem = outside (mem (screen_clear (screen_init sample_kernel)))"
  by (simp add: outside_screen_clear) (simp add: sample_kernel_def)

lemma sample_boot_info:
  "keeps_time ticking_chip"
  "length (idt sample_kernel) = 256" "interrupt_handlers sample_kernel = replicate 256 None" "8 dvd unat (0 :: u64)"
  "tags_at (mem (screen_clear (screen_init sample_kernel))) (mbi_tags 0) [8] 96"
  "list_all (walkable (mem (screen_clear (screen_init sample_kernel)))) [8]"
proof -
  show "keeps_time ticking_chip" by (rule ticking_keeps_time)
  show "length (idt sample_kernel) = 256" "interrupt_handlers sample_kernel = replicate 256 None" "8 dvd unat (0 :: u64)"
    by (simp_all add: sample_kernel_def)
  show "tags_at (mem (screen_clear (screen_init sample_kernel))) (mbi_tags 0) [8] 96"
    by (rule tags_at_outside [OF sample_outside sample_off_screen sample_tags_at])
  have "tag_type sample_mem 8 = 9" by code_simp
  then show "list_all (walkable (mem (screen_clear (screen_init sample_kernel)))) [8]"
    using off_screen_header(1) [OF sample_outside, of 8] sample_off_screen
    by (simp add: walkable_def MULTIBOOT_TAG_TYPE_MMAP_def)
qed

theorem kmain_boots_witness:
  "\<exists>s'. kmain ticking_chip sample_build sample_schedule 0x36d76289 0 sample_kernel = Inr s'
    \<and> irq_ready sample_build s' \<and> interrupt_handlers s' ! 33 = Some Keyboard_callback
    \<and> outside (mem s') = outside sample_mem"
  using kmain_boots [OF sample_booting sample_boot_info(1-4) refl sample_boot_info(5,6) sample_off_screen]
    sample_outside by auto

theorem kmain_rejects_bad_boot_witness:
  "(\<exists>s'. kmain ticking_chip sample_build sample_schedule 0xE85250D6 0 sample_kernel = Inl (Halted s') \<and> \<not> cpu_if s')
    \<and> (\<exists>s'. kmain ticking_chip sample_build sample_schedule 0x36d76289 4 sample_kernel = Inl (Halted s') \<and> \<not> cpu_if s')"
  using kmain_rejects_bad_boot [of "0xE85250D6" 0 ticking_chip sample_build sample_schedule sample_kernel]
    kmain_rejects_bad_boot [of "0x36d76289" 4 ticking_chip sample_build sample_schedule sample_kernel]
  by auto

end
