(* ===== verification/Startup.thy ===== *)
theory Startup
  imports Paging
begin

text \<open>
  The start-up code in assembly (\<open>src/asm/boot.asm\<close>, \<open>multiboot_header.asm\<close>): the checks of the
  boot loader and the processor, the first page tables, and the switch to paging. It is 32-bit
  code on physical memory. Where the linker puts the tables is a parameter (\<open>layout\<close>), and so is
  the processor (\<open>cpu\<close>): what \<^verbatim>\<open>popfd\<close> leaves in the flags register and what \<^verbatim>\<open>cpuid\<close> answers. The
  status flags that arithmetic sets are not modelled.
\<close>

record layout =
  p4_table :: u32
  p3_table :: u32
  p2_table :: u32
  stack_top :: u32
  gdt64_address :: u64
  return_to :: "nat \<Rightarrow> u32"

text \<open>
  The tables lie one after the other at the start \<open>b\<close> of the \<^verbatim>\<open>.bss\<close> section, before the stack; the
  segment table is elsewhere, at \<open>a\<close>, and \<open>ret n\<close> is the address of the instruction after the \<open>n\<close>-th call.
\<close>

definition bss :: "u32 \<Rightarrow> u64 \<Rightarrow> (nat \<Rightarrow> u32) \<Rightarrow> layout" where
  "bss b a ret = \<lparr>p4_table = b, p3_table = b + 4096, p2_table = b + 2 * 4096, stack_top = b + 3 * 4096 + 4096 * 4,
     gdt64_address = a, return_to = ret\<rparr>"

record cpu =
  popfd :: "u32 \<Rightarrow> u32 \<Rightarrow> u32"
  cpuid_eax :: "u32 \<Rightarrow> u32"
  cpuid_edx :: "u32 \<Rightarrow> u32"

datatype sreg = SS | DS | ES | FS | GS

record start_state =
  ram :: bytes
  reg_esp :: u32
  reg_flags :: u32
  reg_cr0 :: u32
  reg_cr3 :: u32
  reg_cr4 :: u32
  msr_efer :: u32
  reg_gdtr :: "u16 \<times> u64"
  seg_cs :: u64
  sregs :: "sreg \<Rightarrow> u16"

subsection \<open>Data of the start-up code\<close>

text \<open>
  The Multiboot header as double words; the assembler computes the checksum over the integers
  and stores its low 32 bits. The segment descriptors, and the selector of the code segment.
\<close>

definition header_length :: u32 where "header_length = 24"

definition multiboot_header :: "u32 list" where
  "multiboot_header =
     [0xe85250d6, 0, header_length, word_of_int (0x100000000 - (0xe85250d6 + 0 + uint header_length)), 0, 8]"

definition gdt64 :: "u64 list" where
  "gdt64 = [0,
     push_bit 44 1 OR push_bit 47 1 OR push_bit 41 1 OR push_bit 43 1 OR push_bit 53 1,
     push_bit 44 1 OR push_bit 47 1 OR push_bit 41 1]"

definition gdt64_code :: u64 where "gdt64_code = 8"

definition gdt64_limit :: u16 where "gdt64_limit = of_nat (8 * length gdt64) - 1"

text \<open>
  The header is as long as it says and its first four fields sum to zero, as the boot loader
  demands; the code selector names a present 64-bit code segment within the limit of the table.
\<close>

lemma multiboot_header_valid:
  "4 * of_nat (length multiboot_header) = multiboot_header ! 2" "sum_list (take 4 multiboot_header) = 0"
  by (simp_all add: multiboot_header_def header_length_def)

lemma gdt64_code_segment:
  "let d = gdt64 ! (unat gdt64_code div 8)
   in bit d 47 \<and> bit d 44 \<and> bit d 43 \<and> bit d 53 \<and> unat gdt64_code + 7 \<le> unat gdt64_limit"
  by (simp add: gdt64_def gdt64_code_def gdt64_limit_def Let_def bit_simps)

subsection \<open>The stack\<close>

text \<open>
  \<^verbatim>\<open>call\<close> pushes the address of the next instruction, \<^verbatim>\<open>ret\<close> pops it and is taken to continue there
  (that the word is still the one pushed is \<open>set_up_keeps_return\<close> below, for the only routine that
  stores to memory).
\<close>

definition push32 :: "u32 \<Rightarrow> start_state \<Rightarrow> start_state" where
  "push32 v s =
     (let s = s\<lparr>reg_esp := reg_esp s - 4\<rparr>
      in s\<lparr>ram := store32 (ram s) (ucast (reg_esp s)) v\<rparr>)"

definition pop32 :: "start_state \<Rightarrow> u32 \<times> start_state" where
  "pop32 s = (load32 (ram s) (ucast (reg_esp s)), s\<lparr>reg_esp := reg_esp s + 4\<rparr>)"

definition call32 :: "layout \<Rightarrow> nat \<Rightarrow> start_state \<Rightarrow> start_state" where
  "call32 l n s = push32 (return_to l n) s"

definition ret32 :: "start_state \<Rightarrow> start_state" where
  "ret32 s = snd (pop32 s)"

subsection \<open>The checks\<close>

text \<open>A check that fails gives the error code, a character.\<close>

definition check_multiboot :: "u32 \<Rightarrow> char + unit" where
  "check_multiboot eax = (if eax \<noteq> 0x36d76289 then Inl (CHR ''0'') else Inr ())"

definition check_cpuid :: "cpu \<Rightarrow> start_state \<Rightarrow> char \<times> start_state + start_state" where
  "check_cpuid c s =
     (let s = push32 (reg_flags s) s;
          (eax, s) = pop32 s;
          ecx = eax;
          eax = eax XOR push_bit 21 1;
          s = push32 eax s;
          (flags, s) = pop32 s;
          s = s\<lparr>reg_flags := popfd c (reg_flags s) flags\<rparr>;
          s = push32 (reg_flags s) s;
          (eax, s) = pop32 s;
          s = push32 ecx s;
          (flags, s) = pop32 s;
          s = s\<lparr>reg_flags := popfd c (reg_flags s) flags\<rparr>
      in if eax = ecx then Inl (CHR ''1'', s) else Inr s)"

definition check_long_mode :: "cpu \<Rightarrow> char + unit" where
  "check_long_mode c =
     (if cpuid_eax c 0x80000000 < 0x80000001 then Inl (CHR ''2'')
      else if cpuid_edx c 0x80000001 AND push_bit 29 1 = 0 then Inl (CHR ''2'')
      else Inr ())"

subsection \<open>Page tables and paging\<close>

definition map_p2_entry :: "layout \<Rightarrow> u32 \<Rightarrow> bytes \<Rightarrow> bytes" where
  "map_p2_entry l ecx m = store32 m (ucast (p2_table l + ecx * 8)) ((0x200000 * ecx) OR 0x83)"

definition set_up_page_tables :: "layout \<Rightarrow> bytes \<Rightarrow> bytes" where
  "set_up_page_tables l m =
     (let m = store32 m (ucast (p4_table l + 511 * 8)) (p4_table l OR 3);
          m = store32 m (ucast (p4_table l + 0)) (p3_table l OR 3);
          m = store32 m (ucast (p3_table l + 0)) (p2_table l OR 3)
      in fold (map_p2_entry l) (map of_nat [0..<512]) m)"

definition enable_paging :: "layout \<Rightarrow> start_state \<Rightarrow> start_state" where
  "enable_paging l s =
     (let s = s\<lparr>reg_cr3 := p4_table l\<rparr>;
          s = s\<lparr>reg_cr4 := reg_cr4 s OR push_bit 5 1\<rparr>;
          s = s\<lparr>msr_efer := msr_efer s OR push_bit 8 1\<rparr>
      in s\<lparr>reg_cr0 := reg_cr0 s OR push_bit 31 1 OR push_bit 16 1\<rparr>)"

text \<open>\<open>error\<close> shows its code and halts.\<close>

definition error_screen :: "char \<Rightarrow> bytes \<Rightarrow> bytes" where
  "error_screen al m =
     (let m = store32 m 0xb8000 0x4f524f45;
          m = store32 m 0xb8004 0x4f3a4f52;
          m = store32 m 0xb8008 0x4f204f20
      in m(0xb800a := of_char al))"

definition start_error :: "char \<Rightarrow> start_state \<Rightarrow> start_state stop + 'a" where
  "start_error al s = Inl (Halted (s\<lparr>ram := error_screen al (ram s)\<rparr>))"

text \<open>
  The segment table is loaded and the far jump selects its code segment; \<open>long_mode_start\<close>
  (\<open>long_mode_init.asm\<close>) clears the data segment registers.
\<close>

definition enter_long_mode :: "layout \<Rightarrow> start_state \<Rightarrow> start_state" where
  "enter_long_mode l s = s\<lparr>reg_gdtr := (gdt64_limit, gdt64_address l), seg_cs := gdt64_code\<rparr>"

definition long_mode_start :: "start_state \<Rightarrow> start_state" where
  "long_mode_start s = s\<lparr>sregs := (\<lambda>_. 0)\<rparr>"

text \<open>
  \<open>start\<close>, up to the call of the kernel's entry point: the registers \<^verbatim>\<open>edi\<close> and \<^verbatim>\<open>esi\<close>, which hold its
  arguments, and the state.
\<close>

definition start :: "layout \<Rightarrow> cpu \<Rightarrow> u32 \<Rightarrow> u32 \<Rightarrow> start_state \<Rightarrow>
    start_state stop + u32 \<times> u32 \<times> start_state" where
  "start l c eax ebx s =
     (let s = s\<lparr>reg_esp := stack_top l\<rparr>; esi = ebx; edi = eax;
          s = call32 l 0 s in
      case check_multiboot eax of Inl al \<Rightarrow> start_error al s | Inr _ \<Rightarrow>
     (let s = call32 l 1 (ret32 s) in
      case check_cpuid c s of Inl (al, s) \<Rightarrow> start_error al s | Inr s \<Rightarrow>
     (let s = call32 l 2 (ret32 s) in
      case check_long_mode c of Inl al \<Rightarrow> start_error al s | Inr _ \<Rightarrow>
      let s = call32 l 3 (ret32 s);
          s = s\<lparr>ram := set_up_page_tables l (ram s)\<rparr>;
          s = call32 l 4 (ret32 s);
          s = ret32 (enable_paging l s)
      in Inr (edi, esi, long_mode_start (enter_long_mode l s)))))"

subsection \<open>Half-written entries\<close>

text \<open>
  The code writes the low half of each entry; the tables lie in memory that is zero, so the
  entry is the zero-extended value.
\<close>

definition clear :: "bytes \<Rightarrow> u64 \<Rightarrow> nat \<Rightarrow> bool" where
  "clear m a n \<longleftrightarrow> (\<forall>x. within x a n \<longrightarrow> m x = 0)"

definition upper_clear :: "bytes \<Rightarrow> u64 \<Rightarrow> bool" where
  "upper_clear m a \<longleftrightarrow> m (a + 4) = 0 \<and> m (a + 5) = 0 \<and> m (a + 6) = 0 \<and> m (a + 7) = 0"

lemma ucast_drop_32: "(ucast (drop_bit 32 (ucast (v :: u32) :: u64)) :: u32) = 0"
  by (rule bit_eqI) (auto simp: bit_simps dest: bit_imp_le_length)

lemma ucast_ucast_32 [simp]: "(ucast (ucast (v :: u32) :: u64) :: u32) = v"
  by (rule bit_eqI) (auto simp: bit_simps dest: bit_imp_le_length)

lemma store32_store64:
  assumes "upper_clear m a"
  shows "store32 m a v = store64 m a (ucast v)"
  using assms
  by (auto simp: store64_def store32_def ucast_drop_32 upper_clear_def add.assoc fun_eq_iff)

lemma upper_clear_other:
  assumes "aligned t" "is_index i" "aligned t'" "is_index i'" and "t \<noteq> t' \<or> i \<noteq> i'"
    and "upper_clear m (t' + 8 * i')"
  shows "upper_clear (store64 m (t + 8 * i) v) (t' + 8 * i')"
proof -
  have "store64 m (t + 8 * i) v (t' + 8 * i' + of_nat k) = m (t' + 8 * i' + of_nat k)" if "k < 8" for k
    by (rule slot_frame [OF assms(1-5)]) (use that in simp)
  from this [of 4] this [of 5] this [of 6] this [of 7] assms(6) show ?thesis
    by (simp add: upper_clear_def)
qed

subsection \<open>Writing entries one after the other\<close>

text \<open>A write is a table, an index and the 32-bit value; \<open>slots_ok\<close>: the slots are proper and all different.\<close>

type_synonym entry_write = "u64 \<times> u64 \<times> u32"

definition write32 :: "entry_write \<Rightarrow> bytes \<Rightarrow> bytes" where
  "write32 w m = (case w of (t, i, v) \<Rightarrow> store32 m (t + 8 * i) v)"

definition write64 :: "entry_write \<Rightarrow> bytes \<Rightarrow> bytes" where
  "write64 w m = (case w of (t, i, v) \<Rightarrow> store64 m (t + 8 * i) (ucast v))"

definition slots_ok :: "entry_write list \<Rightarrow> bool" where
  "slots_ok ws \<longleftrightarrow> (\<forall>(t, i, v) \<in> set ws. aligned t \<and> is_index i) \<and> distinct (map (\<lambda>(t, i, v). (t, i)) ws)"

lemma fold_write32:
  assumes "slots_ok ws" and "\<forall>(t, i, v) \<in> set ws. upper_clear m (t + 8 * i)"
  shows "fold write32 ws m = fold write64 ws m"
  using assms
proof (induction ws arbitrary: m)
  case (Cons w ws)
  obtain t i v where w: "w = (t, i, v)" by (cases w)
  have ok: "slots_ok ws" "aligned t" "is_index i" using Cons.prems(1) by (auto simp: slots_ok_def w)
  have "\<forall>(t', i', v') \<in> set ws. upper_clear (write64 w m) (t' + 8 * i')"
  proof clarify
    fix t' i' v' assume in_ws: "(t', i', v') \<in> set ws"
    have "(t, i) \<noteq> (t', i')" using Cons.prems(1) in_ws by (force simp: slots_ok_def w)
    then show "upper_clear (write64 w m) (t' + 8 * i')"
      using Cons.prems in_ws ok unfolding write64_def w prod.case
      by (intro upper_clear_other) (auto simp: slots_ok_def w)
  qed
  with Cons.IH [OF ok(1)] Cons.prems(2) show ?case
    by (simp add: w write32_def write64_def store32_store64)
qed simp

lemma fold_write64_miss:
  assumes "slots_ok ws" and "aligned t" and "is_index i" and "\<forall>w \<in> set ws. \<forall>v. w \<noteq> (t, i, v)"
  shows "table_entry (fold write64 ws m) t i = table_entry m t i"
  using assms(1,4)
proof (induction ws arbitrary: m)
  case (Cons w ws)
  obtain t' i' v' where w: "w = (t', i', v')" by (cases w)
  have ok: "slots_ok ws" "aligned t'" "is_index i'" using Cons.prems by (auto simp: slots_ok_def w)
  have "table_entry (write64 w m) t i = table_entry m t i"
    unfolding write64_def w prod.case using ok assms(2,3) Cons.prems(2)
    by (intro table_entry_store_other) (auto simp: w)
  with Cons.IH [OF ok(1), of "write64 w m"] Cons.prems(2) show ?case by simp
qed simp

lemma fold_write64_hit:
  assumes "slots_ok ws" and "(t, i, v) \<in> set ws"
  shows "table_entry (fold write64 ws m) t i = ucast v"
proof -
  obtain us vs where ws: "ws = us @ (t, i, v) # vs" using assms(2) by (meson split_list)
  have "slots_ok vs" "aligned t" "is_index i" using assms(1) by (auto simp: slots_ok_def ws)
  moreover have "(t, i) \<notin> (\<lambda>(t, i, v). (t, i)) ` set vs" using assms(1) by (simp add: slots_ok_def ws)
  then have "\<forall>w \<in> set vs. \<forall>v. w \<noteq> (t, i, v)" by (auto simp: image_iff)
  ultimately show ?thesis by (simp add: ws fold_write64_miss write64_def)
qed

lemma write64_frame:
  assumes "slots_ok ws" and "\<forall>(t, i, v) \<in> set ws. \<not> within x (t + 8 * i) 8"
  shows "fold write64 ws m x = m x"
  using assms
proof (induction ws arbitrary: m)
  case (Cons w ws)
  then have "slots_ok ws" by (auto simp: slots_ok_def)
  with Cons show ?case by (auto simp: write64_def store64_frame)
qed simp

subsection \<open>The tables that the start-up code writes\<close>

definition layout_ok :: "layout \<Rightarrow> bytes \<Rightarrow> bool" where
  "layout_ok l m \<longleftrightarrow>
     aligned (ucast (p4_table l)) \<and> aligned (ucast (p3_table l)) \<and> aligned (ucast (p2_table l))
     \<and> distinct [p4_table l, p3_table l, p2_table l]
     \<and> clear m (ucast (p4_table l)) 4096 \<and> clear m (ucast (p3_table l)) 4096 \<and> clear m (ucast (p2_table l)) 4096"

definition start_writes :: "layout \<Rightarrow> entry_write list" where
  "start_writes l =
     [(ucast (p4_table l), 511, p4_table l OR 3), (ucast (p4_table l), 0, p3_table l OR 3),
      (ucast (p3_table l), 0, p2_table l OR 3)] @
     map (\<lambda>i. (ucast (p2_table l), of_nat i, (0x200000 * of_nat i) OR 0x83)) [0..<512]"

lemma aligned_dvd: "aligned t \<longleftrightarrow> 4096 dvd unat t"
proof -
  have "aligned t \<longleftrightarrow> unat (take_bit 12 t) = 0"
    by (simp add: aligned_def take_bit_eq_mask mask_eq_exp_minus_1 unat_eq_zero)
  also have "\<dots> \<longleftrightarrow> take_bit 12 (unat t) = 0" by (simp only: unsigned_take_bit_eq)
  finally show ?thesis by (simp add: take_bit_eq_mod mod_eq_0_iff_dvd)
qed

lemma aligned_room:
  fixes p :: u32
  assumes "aligned (ucast p)"
  shows "unat p + 4096 \<le> 2 ^ 32"
proof -
  have "4096 dvd unat p" using assms by (simp add: aligned_dvd)
  moreover have "unat p < 2 ^ 32" using unsigned_less [of p, where ?'a = nat] by simp
  ultimately show ?thesis by auto
qed

lemma ucast_slot:
  fixes p e :: u32
  assumes "aligned (ucast p)" and "e < 512"
  shows "(ucast (p + e * 8) :: u64) = ucast p + 8 * ucast e"
proof -
  have e: "unat e < 512" using assms(2) by (simp add: word_less_nat_alt)
  have p: "unat p + 4096 \<le> 2 ^ 32" by (rule aligned_room [OF assms(1)])
  have "unat (e * 8) = unat e * 8" using e by (subst unat_mult_lem [THEN iffD1]) simp_all
  then have 1: "unat (p + e * 8) = unat p + unat e * 8"
    using e p by (subst unat_add_lem [THEN iffD1]) simp_all
  have "unat (8 * ucast e :: u64) = 8 * unat e" using e by (subst unat_mult_lem [THEN iffD1]) simp_all
  then have 2: "unat (ucast p + 8 * ucast e :: u64) = unat p + 8 * unat e"
    using e p by (subst unat_add_lem [THEN iffD1]) simp_all
  show ?thesis using 1 2 by (simp add: word_unat_eq_iff)
qed

lemma set_up_writes:
  assumes "layout_ok l m"
  shows "set_up_page_tables l m = fold write32 (start_writes l) m"
proof -
  have a: "aligned (ucast (p4_table l))" "aligned (ucast (p3_table l))" "aligned (ucast (p2_table l))"
    using assms by (simp_all add: layout_ok_def)
  have "map_p2_entry l (of_nat i) = write32 (ucast (p2_table l), of_nat i, (0x200000 * of_nat i) OR 0x83)"
    if "i < 512" for i
  proof -
    have "(of_nat i :: u32) < 512" using that by (simp add: word_less_nat_alt unat_of_nat)
    moreover have "ucast (of_nat i :: u32) = (of_nat i :: u64)"
      using that by (simp add: word_unat_eq_iff unat_of_nat)
    ultimately show ?thesis
      using ucast_slot [OF a(3)] by (simp add: fun_eq_iff map_p2_entry_def write32_def)
  qed
  then have "fold (map_p2_entry l) (map of_nat [0..<512]) m' =
      fold write32 (map (\<lambda>i. (ucast (p2_table l), of_nat i, (0x200000 * of_nat i) OR 0x83)) [0..<512]) m'" for m'
    unfolding fold_map by (intro fold_cong) (auto simp: comp_def)
  then show ?thesis
    using ucast_slot [OF a(1), of 511]
    by (simp add: set_up_page_tables_def start_writes_def write32_def Let_def del: upt_Suc)
qed


lemma ucast_eq [simp]: "(ucast (a :: u32) :: u64) = ucast b \<longleftrightarrow> a = b"
  by (metis ucast_ucast_32)

lemma is_index_less: "is_index i \<longleftrightarrow> i < 512"
proof -
  have "is_index i \<longleftrightarrow> unat (take_bit 9 i) = unat i"
    by (simp add: is_index_def take_bit_eq_mask mask_eq_exp_minus_1 word_unat_eq_iff)
  also have "\<dots> \<longleftrightarrow> unat i < 2 ^ 9" by (simp only: unsigned_take_bit_eq take_bit_nat_eq_self_iff)
  finally show ?thesis by (simp add: word_less_nat_alt)
qed

lemma index_0 [simp]: "is_index 0"
  by (simp add: is_index_def)

lemma slots_ok_start:
  assumes "layout_ok l m"
  shows "slots_ok (start_writes l)"
proof -
  have "is_index (of_nat i)" if "i < 512" for i
    using that by (simp add: is_index_less word_less_nat_alt unat_of_nat)
  moreover have "inj_on (of_nat :: nat \<Rightarrow> u64) {0..<512}"
    by (rule inj_onI) (simp add: word_unat_eq_iff unat_of_nat)
  ultimately show ?thesis
    using assms
    by (auto simp: slots_ok_def start_writes_def layout_ok_def distinct_map comp_def inj_on_def simp del: upt_Suc)
qed

lemma slot_within:
  assumes "aligned t" and "is_index i" and "within x (t + 8 * i) 8"
  shows "within x t 4096"
proof -
  have i: "unat i < 512" using assms(2) by (simp add: is_index_less word_less_nat_alt)
  have "within x (t + of_nat (8 * unat i)) 8" using assms(3) by simp
  then show ?thesis by (subst (asm) within_add) (use i in \<open>auto simp: within_def\<close>)
qed

lemma clear_entry:
  assumes "aligned t" and "is_index i" and "clear m t 4096"
  shows "upper_clear m (t + 8 * i)" and "table_entry m t i = 0"
proof -
  have z: "m x = 0" if "within x (t + 8 * i) 8" for x
    using assms(3) slot_within [OF assms(1,2) that] by (simp add: clear_def)
  show "upper_clear m (t + 8 * i)" by (simp add: upper_clear_def z within_def)
  have "load64 m (t + 8 * i) = load64 (\<lambda>_. 0) (t + 8 * i)" by (rule load64_cong) (simp add: z)
  then show "table_entry m t i = 0" by (simp add: table_entry_def load64_def load32_def)
qed

lemma set_up_fold:
  assumes "layout_ok l m"
  shows "set_up_page_tables l m = fold write64 (start_writes l) m"
proof -
  have "upper_clear m (t + 8 * i)" if "(t, i, v) \<in> set (start_writes l)" for t i v
  proof (rule clear_entry)
    show "aligned t" "is_index i" using slots_ok_start [OF assms] that by (auto simp: slots_ok_def)
    show "clear m t 4096" using assms that by (auto simp: start_writes_def layout_ok_def simp del: upt_Suc)
  qed
  then have "\<forall>(t, i, v) \<in> set (start_writes l). upper_clear m (t + 8 * i)" by blast
  from fold_write32 [OF slots_ok_start [OF assms] this] show ?thesis by (simp add: set_up_writes [OF assms])
qed

text \<open>The entries of the three tables.\<close>

lemma start_writes_mem:
  "(t, i, v) \<in> set (start_writes l) \<longleftrightarrow>
     (t, i, v) = (ucast (p4_table l), 511, p4_table l OR 3) \<or> (t, i, v) = (ucast (p4_table l), 0, p3_table l OR 3)
     \<or> (t, i, v) = (ucast (p3_table l), 0, p2_table l OR 3)
     \<or> (\<exists>k < 512. (t, i, v) = (ucast (p2_table l), of_nat k, (0x200000 * of_nat k) OR 0x83))"
  by (auto simp: start_writes_def simp del: upt_Suc)

lemma set_up_entries:
  assumes "layout_ok l m" and "is_index i"
  shows "table_entry (set_up_page_tables l m) (ucast (p4_table l)) i =
      (if i = 511 then ucast (p4_table l OR 3) else if i = 0 then ucast (p3_table l OR 3) else 0)"
    and "table_entry (set_up_page_tables l m) (ucast (p3_table l)) i = (if i = 0 then ucast (p2_table l OR 3) else 0)"
    and "table_entry (set_up_page_tables l m) (ucast (p2_table l)) i = ucast ((0x200000 * ucast i :: u32) OR 0x83)"
proof -
  have ok: "slots_ok (start_writes l)" and eq: "set_up_page_tables l m = fold write64 (start_writes l) m"
    using slots_ok_start set_up_fold assms(1) by blast+
  have lay: "p4_table l \<noteq> p3_table l" "p4_table l \<noteq> p2_table l" "p3_table l \<noteq> p2_table l"
    using assms(1) by (simp_all add: layout_ok_def)
  have hit: "table_entry (set_up_page_tables l m) t j = ucast v" if "(t, j, v) \<in> set (start_writes l)" for t j v
    unfolding eq by (rule fold_write64_hit [OF ok that])
  have miss: "table_entry (set_up_page_tables l m) (ucast t) i = 0"
    if "\<forall>v. (ucast t, i, v) \<notin> set (start_writes l)" and "t \<in> {p4_table l, p3_table l}" for t
  proof -
    have "aligned (ucast t)" "clear m (ucast t) 4096" using that(2) assms(1) by (auto simp: layout_ok_def)
    with that(1) show ?thesis
      unfolding eq by (subst fold_write64_miss [OF ok _ assms(2)]) (auto intro: clear_entry assms(2))
  qed
  show "table_entry (set_up_page_tables l m) (ucast (p4_table l)) i =
      (if i = 511 then ucast (p4_table l OR 3) else if i = 0 then ucast (p3_table l OR 3) else 0)"
    using lay by (auto intro: hit miss simp: start_writes_mem)
  show "table_entry (set_up_page_tables l m) (ucast (p3_table l)) i = (if i = 0 then ucast (p2_table l OR 3) else 0)"
    using lay by (auto intro: hit miss simp: start_writes_mem)
  have "unat i < 512" using assms(2) by (simp add: is_index_less word_less_nat_alt)
  moreover have "i = of_nat (unat i)" "(ucast i :: u32) = of_nat (unat i)" by (simp_all add: unsigned_ucast_eq)
  ultimately have "(ucast (p2_table l), i, (0x200000 * ucast i) OR 0x83) \<in> set (start_writes l)"
    unfolding start_writes_mem by metis
  then show "table_entry (set_up_page_tables l m) (ucast (p2_table l)) i = ucast ((0x200000 * ucast i :: u32) OR 0x83)"
    by (rule hit)
qed

subsection \<open>The translation of the first tables\<close>

lemma bit_mask_fields:
  "bit (0x000ffffffffff000 :: u64) n \<longleftrightarrow> 12 \<le> n \<and> n < 52" "bit (0x000fffffffe00000 :: u64) n \<longleftrightarrow> 21 \<le> n \<and> n < 52"
  "bit (0x1fffff :: u64) n \<longleftrightarrow> n < 21"
proof -
  have eq: "(0x000ffffffffff000 :: u64) = mask 52 AND NOT (mask 12)" "(0x000fffffffe00000 :: u64) = mask 52 AND NOT (mask 21)"
    "(0x1fffff :: u64) = mask 21"
    by (simp_all add: mask_eq_exp_minus_1)
  show "bit (0x000ffffffffff000 :: u64) n \<longleftrightarrow> 12 \<le> n \<and> n < 52" "bit (0x000fffffffe00000 :: u64) n \<longleftrightarrow> 21 \<le> n \<and> n < 52"
    "bit (0x1fffff :: u64) n \<longleftrightarrow> n < 21"
    unfolding eq by (auto simp: bit_simps)
qed

lemma word_bit_less:
  fixes v :: u64
  assumes "bit v n" and "unat v < 2 ^ k"
  shows "n < k"
proof (rule ccontr)
  assume "\<not> n < k"
  then have "(2 :: nat) ^ k \<le> 2 ^ n" by (intro power_increasing) simp_all
  with assms(2) have "unat v < 2 ^ n" by linarith
  then have "\<not> bit (unat v) n" by (simp add: bit_iff_odd)
  with assms(1) show False by (simp add: bit_unsigned_iff bit_imp_le_length)
qed

lemma table_entry_fields:
  assumes "aligned (ucast (p :: u32))"
  shows "entry_present (ucast (p OR 3))" and "\<not> entry_huge_page (ucast (p OR 3))" and "entry_address (ucast (p OR 3)) = ucast p"
proof -
  have 3: "(3 :: u32) = mask 2" by (simp add: mask_eq_exp_minus_1)
  have low: "12 \<le> n" if "bit p n" for n
    using aligned_bitD [of "ucast p" n, OF _ assms] that by (auto simp: bit_simps dest: bit_imp_le_length)
  show "entry_present (ucast (p OR 3))" by (simp add: entry_present_def bit_simps 3 del: mask_numeral)
  show "\<not> entry_huge_page (ucast (p OR 3))"
    using low [of 7] by (auto simp: entry_huge_page_def bit_simps 3 simp del: mask_numeral)
  show "entry_address (ucast (p OR 3)) = ucast p"
    unfolding entry_address_def 3
    by (rule bit_eqI) (auto simp: bit_simps bit_mask_fields dest: bit_imp_le_length low simp del: mask_numeral)
qed

lemma huge_entry_fields:
  fixes v :: u64
  assumes "unat v < 2 ^ 30"
  defines "e \<equiv> ucast ((0x200000 * ucast (va_index 21 v) :: u32) OR 0x83) :: u64"
  shows "entry_present e" and "entry_huge_page e" and "(e AND 0x000fffffffe00000) + (v AND 0x1fffff) = v"
proof -
  have 83: "(0x83 :: u32) = mask 2 OR push_bit 7 1" by (simp add: mask_eq_exp_minus_1)
  have 128: "bit (128 :: int) n \<longleftrightarrow> n = 7" for n
  proof -
    have "(128 :: int) = 2 ^ 7" by simp
    then show ?thesis by (simp only: bit_exp_iff) auto
  qed
  have shift: "(0x200000 * x :: u32) = push_bit 21 x" for x by (simp add: push_bit_eq_mult)
  have e: "bit e n \<longleftrightarrow> 21 \<le> n \<and> n < 30 \<and> bit v n \<or> n < 2 \<or> n = 7" for n
    unfolding e_def 83 shift
    by (auto simp: bit_simps va_index_def 128 dest: word_bit_less [OF _ assms(1)] simp del: mask_numeral push_bit_numeral)
  show "entry_present e" "entry_huge_page e" by (simp_all add: entry_present_def entry_huge_page_def e)
  have "(e AND 0x000fffffffe00000) AND (v AND 0x1fffff) = 0"
    by (rule bit_eqI, unfold bit_and_iff bit_mask_fields) simp
  then have "(e AND 0x000fffffffe00000) + (v AND 0x1fffff) = (e AND 0x000fffffffe00000) OR (v AND 0x1fffff)"
    by (rule disjunctive_add_eq_or)
  also have "\<dots> = v"
    by (rule bit_eqI, unfold bit_and_iff bit_or_iff bit_mask_fields e) (auto dest: word_bit_less [OF _ assms(1)])
  finally show "(e AND 0x000fffffffe00000) + (v AND 0x1fffff) = v" .
qed

lemma va_index_high:
  fixes v :: u64
  assumes "unat v < 2 ^ 47"
  shows "va_index 39 v \<noteq> 511" and "va_index 39 v = 0 \<and> va_index 30 v = 0 \<longleftrightarrow> unat v < 2 ^ 30"
proof -
  have "bit (511 :: u64) 8" by simp
  moreover have "\<not> bit (va_index 39 v) 8"
    using word_bit_less [OF _ assms, of 47] by (auto simp: va_index_def bit_simps)
  ultimately show "va_index 39 v \<noteq> 511" by metis
  show "va_index 39 v = 0 \<and> va_index 30 v = 0 \<longleftrightarrow> unat v < 2 ^ 30"
  proof
    assume "unat v < 2 ^ 30"
    then have "\<not> bit v (30 + n)" "\<not> bit v (39 + n)" for n using word_bit_less by fastforce+
    then show "va_index 39 v = 0 \<and> va_index 30 v = 0"
      by (auto intro!: bit_eqI simp: va_index_def bit_simps)
  next
    assume z: "va_index 39 v = 0 \<and> va_index 30 v = 0"
    have low: "n < 30" if "bit v n" for n
    proof (rule ccontr)
      assume n: "\<not> n < 30"
      have "n < 47" using word_bit_less [OF that assms] by simp
      have "bit (va_index 30 v) (n - 30) \<or> bit (va_index 39 v) (n - 39)"
        using n \<open>n < 47\<close> that by (cases "n < 39") (auto simp: va_index_def bit_simps)
      with z show False by simp
    qed
    have "take_bit 30 v = v" by (rule bit_eqI) (auto simp: bit_simps low)
    then have "take_bit 30 (unat v) = unat v" by (metis unsigned_take_bit_eq)
    then show "unat v < 2 ^ 30" by (simp only: take_bit_nat_eq_self_iff)
  qed
qed

text \<open>
  \<open>boot_tables l m\<close>: memory \<open>m\<close> holds the three tables as the start-up code leaves them. They
  map the first gigabyte to itself, with huge pages, and nothing else of the lower half.
\<close>

definition boot_tables :: "layout \<Rightarrow> bytes \<Rightarrow> bool" where
  "boot_tables l m \<longleftrightarrow>
     aligned (ucast (p4_table l)) \<and> aligned (ucast (p3_table l)) \<and> aligned (ucast (p2_table l)) \<and>
     (\<forall>i. is_index i \<longrightarrow>
        table_entry m (ucast (p4_table l)) i =
          (if i = 511 then ucast (p4_table l OR 3) else if i = 0 then ucast (p3_table l OR 3) else 0)
        \<and> table_entry m (ucast (p3_table l)) i = (if i = 0 then ucast (p2_table l OR 3) else 0)
        \<and> table_entry m (ucast (p2_table l)) i = ucast ((0x200000 * ucast i :: u32) OR 0x83))"

lemma boot_tables_translation:
  assumes "boot_tables l m"
  shows "recursive m (ucast (p4_table l))"
    and "unat v < 2 ^ 47 \<Longrightarrow> hw_translate m (ucast (p4_table l)) v = (if unat v < 2 ^ 30 then Some v else None)"
    and "unat v < 2 ^ 30 \<Longrightarrow> \<not> no_huge m (ucast (p4_table l)) v"
proof -
  note al = assms [unfolded boot_tables_def]
  note fields = table_entry_fields
  show "recursive m (ucast (p4_table l))"
    using al by (simp add: recursive_def fields Let_def)
  have none: "\<not> entry_present 0" by (simp add: entry_present_def)
  show tr: "hw_translate m (ucast (p4_table l)) v = (if unat v < 2 ^ 30 then Some v else None)"
    if "unat v < 2 ^ 47"
    using va_index_high [OF that] al huge_entry_fields [of v]
    by (auto simp: hw_translate_def fields none Let_def)
  show "\<not> no_huge m (ucast (p4_table l)) v" if "unat v < 2 ^ 30"
    using va_index_high [of v] that al huge_entry_fields [OF that]
    by (auto simp: no_huge_def fields Let_def)
qed

lemma table_entry_cong:
  assumes "aligned t" and "is_index i" and "\<And>x. within x t 4096 \<Longrightarrow> m x = m' x"
  shows "table_entry m t i = table_entry m' t i"
  unfolding table_entry_def by (rule load64_cong) (rule assms(3) [OF slot_within [OF assms(1,2)]])

lemma boot_tables_cong:
  assumes "boot_tables l m"
    and "\<And>t x. t \<in> {p4_table l, p3_table l, p2_table l} \<Longrightarrow> within x (ucast t) 4096 \<Longrightarrow> m x = m' x"
  shows "boot_tables l m'"
proof -
  have "table_entry m (ucast t) i = table_entry m' (ucast t) i"
    if "t \<in> {p4_table l, p3_table l, p2_table l}" "is_index i" for t i
    using assms(1) that by (intro table_entry_cong assms(2)) (auto simp: boot_tables_def)
  with assms(1) show ?thesis by (simp add: boot_tables_def)
qed

lemma set_up_boot_tables: "layout_ok l m \<Longrightarrow> boot_tables l (set_up_page_tables l m)"
  by (auto simp: boot_tables_def set_up_entries) (simp_all add: layout_ok_def)

lemma set_up_frame:
  assumes "layout_ok l m" and "\<And>t. t \<in> {p4_table l, p3_table l, p2_table l} \<Longrightarrow> \<not> within x (ucast t) 4096"
  shows "set_up_page_tables l m x = m x"
  unfolding set_up_fold [OF assms(1)]
proof (rule write64_frame [OF slots_ok_start [OF assms(1)]], clarify)
  fix t i v assume w: "(t, i, v) \<in> set (start_writes l)" and x: "within x (t + 8 * i) 8"
  have "within x t 4096"
    using slots_ok_start [OF assms(1)] w by (auto intro: slot_within x simp: slots_ok_def)
  with w assms(2) show False by (auto simp: start_writes_mem)
qed

text \<open>The layout of the section.\<close>

lemma bss_fields [simp]: "p4_table (bss b a ret) = b" "p3_table (bss b a ret) = b + 4096" "p2_table (bss b a ret) = b + 8192"
  "stack_top (bss b a ret) = b + 28672"
  by (simp_all add: bss_def)

lemma bss_table:
  fixes b t :: u32
  assumes "aligned (ucast b)" and "unat b + 0x3000 \<le> 2 ^ 32" and "t \<in> {b, b + 4096, b + 8192}"
  shows "aligned (ucast t)" and "within x (ucast t) 4096 \<Longrightarrow> within x (ucast b) 0x3000"
proof -
  obtain k where k: "k \<le> 2" "t = b + of_nat (k * 4096)" 
    using assms(3) that [of 0] that [of 1] that [of 2] by auto
  then have t: "unat t = unat b + k * 4096" using assms(2)
    by (simp add: unat_word_ariths unat_of_nat)
  with k assms(2) have eq: "(ucast t :: u64) = ucast b + of_nat (k * 4096)"
    by (simp add: word_unat_eq_iff unat_word_ariths unat_of_nat)
  show "aligned (ucast t)" using assms(1) by (simp add: aligned_dvd t)
  show "within x (ucast b) 0x3000" if "within x (ucast t) 4096"
    using that k(1) unfolding eq by (subst (asm) within_add) (auto simp: within_def)
qed

subsection \<open>What the start-up code achieves\<close>

lemma layout_ok_bss:
  assumes "aligned (ucast b)" and "unat b + 0x3000 \<le> 2 ^ 32" and "clear m (ucast b) 0x3000"
  shows "layout_ok (bss b a ret) m"
proof -
  have "clear m (ucast t) 4096" if "t \<in> {b, b + 4096, b + 8192}" for t
    using assms(3) bss_table(2) [OF assms(1,2) that] by (simp add: clear_def)
  with bss_table(1) [OF assms(1,2)] show ?thesis by (simp add: layout_ok_def)
qed

text \<open>The two words of the stack that the start-up code uses.\<close>

definition stack_word :: "layout \<Rightarrow> u64 \<Rightarrow> bool" where
  "stack_word l x \<longleftrightarrow> within x (ucast (stack_top l - 4)) 4 \<or> within x (ucast (stack_top l - 8)) 4"

lemma stack_word_bss:
  assumes "unat b + 0x7000 \<le> 2 ^ 32" and "stack_word (bss b a ret) x"
  shows "within x (ucast b) 0x7000" and "\<not> within x (ucast b) 0x3000" and "within x (ucast b + 0x6ff8) 8"
proof -
  have eq: "(ucast (b + of_nat k) :: u64) = ucast b + of_nat k" if "k < 0x7000" for k
    using that assms(1) by (simp add: word_unat_eq_iff unat_word_ariths unat_of_nat)
  have "within x (ucast b + of_nat 0x6ffc) 4 \<or> within x (ucast b + of_nat 0x6ff8) 4"
    using assms(2) eq [of "0x6ffc"] eq [of "0x6ff8"] by (simp add: stack_word_def add.commute)
  then have "0x6ff8 \<le> unat (x - ucast b) \<and> unat (x - ucast b) < 0x7000"
    by (subst (asm) (1 2) within_add) auto
  then show "within x (ucast b) 0x7000" "\<not> within x (ucast b) 0x3000" "within x (ucast b + 0x6ff8) 8"
    using within_add [of "0x6ff8" 8 x "ucast b"] by (simp_all add: within_def)
qed

lemma pop_push:
  "pop32 (push32 v s) = (v, s\<lparr>ram := store32 (ram s) (ucast (reg_esp s - 4)) v\<rparr>)"
  "ret32 (call32 l n s) = s\<lparr>ram := store32 (ram s) (ucast (reg_esp s - 4)) (return_to l n)\<rparr>"
  by (simp_all add: pop32_def push32_def ret32_def call32_def)

lemma store32_twice: "store32 (store32 m a v) a w = store32 m a w"
  by (auto simp: store32_def fun_eq_iff)

lemma check_cpuid_pushes:
  "check_cpuid c s =
    (let ecx = reg_flags s; eax = popfd c ecx (ecx XOR push_bit 21 1);
         s = s\<lparr>ram := store32 (ram s) (ucast (reg_esp s - 4)) ecx, reg_flags := popfd c eax ecx\<rparr>
     in if eax = ecx then Inl (CHR ''1'', s) else Inr s)"
  by (simp add: check_cpuid_def pop_push store32_twice Let_def)

text \<open>
  The start-up code as the checks decide: memory \<open>m\<close> differs from the one at the start in the two
  stack words only.
\<close>

definition start_result :: "layout \<Rightarrow> cpu \<Rightarrow> u32 \<Rightarrow> u32 \<Rightarrow> start_state \<Rightarrow> bytes \<Rightarrow>
    start_state stop + u32 \<times> u32 \<times> start_state" where
  "start_result l c eax ebx s m =
      (let ecx = reg_flags s; f = popfd c ecx (ecx XOR push_bit 21 1);
      s0 = s\<lparr>reg_esp := stack_top l - 4, ram := m\<rparr>; s1 = s0\<lparr>reg_flags := popfd c f ecx\<rparr> in
       case check_multiboot eax of Inl al \<Rightarrow> start_error al s0 | Inr _ \<Rightarrow>
       if f = ecx then start_error (CHR ''1'') s1 else
       case check_long_mode c of Inl al \<Rightarrow> start_error al s1 | Inr _ \<Rightarrow>
         Inr (eax, ebx, long_mode_start (enter_long_mode l (enable_paging l
      (s1\<lparr>reg_esp := stack_top l,
         ram := store32 (set_up_page_tables l m) (ucast (stack_top l - 4)) (return_to l 4)\<rparr>)))))"

lemma start_steps:
  obtains m where "\<forall>x. \<not> stack_word l x \<longrightarrow> m x = ram s x"
    and "start l c eax ebx s = start_result l c eax ebx s m"
proof -
  let ?top = "ucast (stack_top l - 4) :: u64" and ?next = "ucast (stack_top l - 8) :: u64"
  let ?m0 = "store32 (ram s) ?top (return_to l 0)"
  let ?m1 = "store32 (store32 ?m0 ?top (return_to l 1)) ?next (reg_flags s)"
  let ?m2 = "store32 ?m1 ?top (return_to l 2)" let ?m3 = "store32 ?m2 ?top (return_to l 3)"
  define m where "m = (case check_multiboot eax of Inl _ \<Rightarrow> ?m0 | Inr _ \<Rightarrow>
    if popfd c (reg_flags s) (reg_flags s XOR push_bit 21 1) = reg_flags s then ?m1 else
    case check_long_mode c of Inl _ \<Rightarrow> ?m2 | Inr _ \<Rightarrow> ?m3)"
  show thesis
  proof (rule that [of m])
    show "\<forall>x. \<not> stack_word l x \<longrightarrow> m x = ram s x"
      by (auto simp: m_def stack_word_def store32_frame split: sum.split)
    have call: "call32 l n s' = s'\<lparr>ram := store32 (ram s') (ucast (reg_esp s' - 4)) (return_to l n), reg_esp := reg_esp s' - 4\<rparr>" for n s'
      by (simp add: call32_def push32_def)
    have paging: "ret32 (enable_paging l (call32 l 4 s')) =
        enable_paging l (s'\<lparr>ram := store32 (ram s') (ucast (reg_esp s' - 4)) (return_to l 4)\<rparr>)" for s'
      by (simp add: ret32_def pop32_def enable_paging_def call Let_def)
    have ret: "ret32 s' = s'\<lparr>reg_esp := reg_esp s' + 4\<rparr>" for s' by (simp add: ret32_def pop32_def)
    show "start l c eax ebx s = start_result l c eax ebx s m"
      unfolding start_def Let_def paging check_cpuid_pushes
      by (cases s) (auto simp: m_def ret call start_result_def Let_def split: sum.split)
  qed
qed

lemma start_Inr:
  assumes "start l c eax ebx s = Inr (edi, esi, s')"
  obtains m where "\<forall>x. \<not> stack_word l x \<longrightarrow> m x = ram s x"
    and "ram s' = store32 (set_up_page_tables l m) (ucast (stack_top l - 4)) (return_to l 4)"
    and "reg_cr3 s' = p4_table l" and "reg_esp s' = stack_top l"
proof -
  obtain m where m: "\<forall>x. \<not> stack_word l x \<longrightarrow> m x = ram s x" 
    and eq: "start l c eax ebx s = start_result l c eax ebx s m"
    by (rule start_steps)
  show thesis
    by (rule that [OF m]; use assms in \<open>auto simp: eq start_result_def start_error_def enable_paging_def enter_long_mode_def
      long_mode_start_def Let_def split: sum.splits if_splits\<close>)
qed

lemma boot_tables_bss_cong:
  assumes "boot_tables (bss b a ret) m" and "aligned (ucast b)" and "unat b + 0x3000 \<le> 2 ^ 32"
    and "\<And>x. within x (ucast b) 0x3000 \<Longrightarrow> m x = m' x"
  shows "boot_tables (bss b a ret) m'"
  by (rule boot_tables_cong [OF assms(1)]) (use bss_table(2) [OF assms(2,3)] assms(4) in auto)

text \<open>The start-up code in the layout of the section: the words that it pushes do no harm to the tables.\<close>

lemma start_boot_tables:
  assumes al: "aligned (ucast b)" and room: "unat b + 0x7000 \<le> 2 ^ 32" and "clear (ram s) (ucast b) 0x3000"
    and "start (bss b a ret) c eax ebx s = Inr (edi, esi, s')"
  shows "boot_tables (bss b a ret) (ram s')"
    and "\<not> within x (ucast b) 0x3000 \<Longrightarrow> \<not> stack_word (bss b a ret) x \<Longrightarrow> ram s' x = ram s x"
    and "reg_cr3 s' = b" and "reg_esp s' = b + 0x7000"
proof -
  let ?l = "bss b a ret"
  obtain m where m: "\<forall>x. \<not> stack_word ?l x \<longrightarrow> m x = ram s x"
    and ram: "ram s' = store32 (set_up_page_tables ?l m) (ucast (stack_top ?l - 4)) (return_to ?l 4)"
    and regs: "reg_cr3 s' = p4_table ?l" "reg_esp s' = stack_top ?l"
    by (rule start_Inr [OF assms(4)])
  have room': "unat b + 0x3000 \<le> 2 ^ 32" using room by simp
  have "clear m (ucast b) 0x3000"
    using assms(3) m stack_word_bss(2) [OF room, of a ret] unfolding clear_def by metis
  note lay = layout_ok_bss [OF al room' this, of a ret]
  have word: "ram s' x = set_up_page_tables ?l m x" if "\<not> stack_word ?l x" for x
    using that by (simp add: ram stack_word_def store32_frame)
  show "boot_tables ?l (ram s')"
    by (rule boot_tables_bss_cong [OF set_up_boot_tables [OF lay] al room'])
      (use word stack_word_bss(2) [OF room, of a ret] in metis)
  show "ram s' x = ram s x" if "\<not> within x (ucast b) 0x3000" "\<not> stack_word ?l x"
  proof -
    have "set_up_page_tables ?l m x = m x"
      by (rule set_up_frame [OF lay]) (use that bss_table(2) [OF al room'] in auto)
    with word [OF that(2)] m that(2) show ?thesis by simp
  qed
  show "reg_cr3 s' = b" "reg_esp s' = b + 0x7000" using regs by simp_all
qed

text \<open>The return address of \<open>set_up_page_tables\<close> is not among the bytes it writes.\<close>

lemma set_up_keeps_return:
  assumes "aligned (ucast b)" and "unat b + 0x7000 \<le> 2 ^ 32" and "layout_ok (bss b a ret) m"
  shows "load32 (set_up_page_tables (bss b a ret) m) (ucast (b + 0x7000 - 4)) = load32 m (ucast (b + 0x7000 - 4))"
proof (rule load32_cong)
  fix x assume x: "within x (ucast (b + 0x7000 - 4)) 4"
  then have "stack_word (bss b a ret) x" by (simp add: stack_word_def)
  then have "\<not> within x (ucast b) 0x3000" by (rule stack_word_bss(2) [OF assms(2)])
  then show "set_up_page_tables (bss b a ret) m x = m x"
    using assms(2) by (intro set_up_frame [OF assms(3)]) (use bss_table(2) [OF assms(1)] in auto)
qed

text \<open>
  C8. When the start-up code reaches the kernel, paging is on with tables at the start of the \<^verbatim>\<open>.bss\<close>
  section, which map every address of the first gigabyte to itself and no other address of the
  lower half; the last entry of the level 4 table is the recursive one that the paging code
  relies on; the stack pointer is back at the top of the stack, and no byte has changed outside
  the three tables and the two words at the top of the stack, where the calls and the flags went.
  Hypotheses: the section, with tables and stack, is page aligned and within 32 bits, and the tables are zero.
\<close>

theorem start_identity_maps:
  assumes "aligned (ucast b)" and "unat b + 0x7000 \<le> 2 ^ 32" and "clear (ram s) (ucast b) 0x3000"
    and "start (bss b a ret) c eax ebx s = Inr (edi, esi, s')"
  shows "reg_cr3 s' = b \<and> reg_esp s' = b + 0x7000 \<and> recursive (ram s') (ucast b)
    \<and> (unat v < 2 ^ 47 \<longrightarrow> hw_translate (ram s') (ucast b) v = (if unat v < 2 ^ 30 then Some v else None))
    \<and> (\<not> within x (ucast b) 0x3000 \<and> \<not> within x (ucast b + 0x6ff8) 8 \<longrightarrow> ram s' x = ram s x)"
proof -
  note start = start_boot_tables [OF assms]
  have "\<not> stack_word (bss b a ret) x" if "\<not> within x (ucast b + 0x6ff8) 8"
    using that stack_word_bss(3) [OF assms(2)] by blast
  with start boot_tables_translation [OF start(1)] show ?thesis by simp
qed

text \<open>A processor with a \<^verbatim>\<open>cpuid\<close> instruction and long mode, and zero memory.\<close>

definition sample_cpu :: cpu where
  "sample_cpu = \<lparr>popfd = \<lambda>old new. (old AND NOT 0x240fff) OR (new AND 0x240fff),
     cpuid_eax = \<lambda>_. 0x80000008, cpuid_edx = \<lambda>_. 0x20000000\<rparr>"

definition sample_start :: start_state where
  "sample_start = \<lparr>ram = \<lambda>_. 0, reg_esp = 0, reg_flags = 2, reg_cr0 = 0x11, reg_cr3 = 0, reg_cr4 = 0, msr_efer = 0,
     reg_gdtr = (0, 0), seg_cs = 0x10, sregs = (\<lambda>_. 0x18)\<rparr>"

definition sample_returns :: "nat \<Rightarrow> u32" where
  "sample_returns n = 0x10b010 + 5 * of_nat n"

lemma sample_start_Inr: "\<exists>s'. start (bss b a ret) sample_cpu 0x36d76289 ebx sample_start = Inr (0x36d76289, ebx, s')"
  using start_steps [of "bss b a ret" sample_start sample_cpu "0x36d76289" ebx]
  by (auto simp: start_result_def check_multiboot_def check_long_mode_def sample_cpu_def sample_start_def Let_def)

theorem start_identity_maps_witness:
  "\<exists>s'. start (bss 0x100000 0x108000 sample_returns) sample_cpu 0x36d76289 0x9000 sample_start = Inr (0x36d76289, 0x9000, s')
    \<and> hw_translate (ram s') 0x100000 0xb8000 = Some 0xb8000 \<and> hw_translate (ram s') 0x100000 0x40000000 = None
    \<and> ram s' 0x9000 = 0"
proof -
  obtain s' where s': "start (bss 0x100000 0x108000 sample_returns) sample_cpu 0x36d76289 0x9000 sample_start = Inr (0x36d76289, 0x9000, s')"
    using sample_start_Inr by blast
  have pre: "aligned (ucast (0x100000 :: u32))" "unat (0x100000 :: u32) + 0x7000 \<le> 2 ^ 32"
    "clear (ram sample_start) (ucast (0x100000 :: u32)) 0x3000"
    by (simp_all add: aligned_def clear_def sample_start_def)
  note start_identity_maps [OF pre s', of "0xb8000" "0x9000"] start_identity_maps [OF pre s', of "0x40000000" "0x9000"]
  with s' show ?thesis by (simp add: within_def sample_start_def)
qed

subsection \<open>The outcome of the checks\<close>

text \<open>
  \<open>writable\<close>: the flags that \<^verbatim>\<open>popfd\<close> can change on this processor; the others keep their value.
  \<open>supported\<close>: the three conditions, each with the code shown when it is the first to fail.
\<close>

definition popfd_writes :: "u32 \<Rightarrow> cpu \<Rightarrow> bool" where
  "popfd_writes writable c \<longleftrightarrow> (\<forall>old new. popfd c old new = (old AND NOT writable) OR (new AND writable))"

definition unsupported :: "u32 \<Rightarrow> cpu \<Rightarrow> u32 \<Rightarrow> char option" where
  "unsupported writable c eax =
     (if eax \<noteq> 0x36d76289 then Some (CHR ''0'')
      else if \<not> bit writable 21 then Some (CHR ''1'')
      else if \<not> (0x80000001 \<le> cpuid_eax c 0x80000000 \<and> bit (cpuid_edx c 0x80000001) 29) then Some (CHR ''2'')
      else None)"

lemma popfd_flip:
  assumes "popfd_writes writable c"
  shows "popfd c f (f XOR push_bit 21 1) = f \<longleftrightarrow> \<not> bit writable 21"
    and "popfd c (popfd c f (f XOR push_bit 21 1)) f = f"
proof -
  have 21: "bit (push_bit 21 1 :: u32) n \<longleftrightarrow> n = 21" for n by (auto simp add: bit_simps simp del: push_bit_of_1)
  let ?f = f
  let ?g = "(?f AND NOT writable) OR ((?f XOR push_bit 21 1) AND writable)"
  have g: "bit ?g n \<longleftrightarrow> (if n = 21 \<and> bit writable 21 then \<not> bit ?f 21 else bit ?f n)" if "n < 32" for n
    using that by (auto simp: bit_and_iff bit_or_iff bit_xor_iff bit_not_iff 21 simp del: push_bit_of_1)
  have flip: "?g = ?f \<longleftrightarrow> \<not> bit writable 21"
  proof
    assume "?g = ?f"
    then have "bit ?g 21 = bit ?f 21" by simp
    with g [of 21] show "\<not> bit writable 21" by auto
  qed (rule bit_eqI, use g in simp)
  have restore: "(((?f AND NOT writable) OR ((?f XOR push_bit 21 1) AND writable)) AND NOT writable) OR (?f AND writable) = ?f"
    by (rule bit_eqI) (auto simp: bit_and_iff bit_or_iff bit_xor_iff bit_not_iff)
  show "popfd c f (f XOR push_bit 21 1) = f \<longleftrightarrow> \<not> bit writable 21" "popfd c (popfd c f (f XOR push_bit 21 1)) f = f"
    using assms flip restore unfolding popfd_writes_def by simp_all
qed

lemma check_long_mode_eq:
  "check_long_mode c =
     (if 0x80000001 \<le> cpuid_eax c 0x80000000 \<and> bit (cpuid_edx c 0x80000001) 29 then Inr () else Inl (CHR ''2''))"
proof -
  have "x AND push_bit 29 1 = 0 \<longleftrightarrow> \<not> bit x 29" for x :: u32
    by (simp only: push_bit_of_1 and_exp_eq_0_iff_not_bit)
  moreover have "(if \<not> P then L else if \<not> Q then L else R) = (if P \<and> Q then R else L)" for P Q and L R :: "char + unit"
    by simp
  ultimately show ?thesis unfolding check_long_mode_def linorder_not_le [symmetric] by (simp only:)
qed

lemma start_eq:
  assumes "popfd_writes writable c"
  obtains m where "\<forall>x. \<not> stack_word l x \<longrightarrow> m x = ram s x"
    and "start l c eax ebx s = (case unsupported writable c eax of
      Some al \<Rightarrow> start_error al (s\<lparr>reg_esp := stack_top l - 4, ram := m\<rparr>)
    | None \<Rightarrow> Inr (eax, ebx, long_mode_start (enter_long_mode l (enable_paging l (s\<lparr>reg_esp := stack_top l,
        ram := store32 (set_up_page_tables l m) (ucast (stack_top l - 4)) (return_to l 4)\<rparr>)))))"
proof (rule start_steps [of l s c eax ebx])
  fix m assume m: "\<forall>x. \<not> stack_word l x \<longrightarrow> m x = ram s x" and eq: "start l c eax ebx s = start_result l c eax ebx s m"
  show thesis
    by (rule that [OF m]) (simp add: eq start_result_def check_multiboot_def popfd_flip [OF assms, simplified] check_long_mode_eq
        unsupported_def Let_def)
qed

lemma error_screen_frame: "\<not> within x 0xb8000 12 \<longrightarrow> error_screen al m x = m x"
proof -
  have "\<not> within x 0xb8000 4 \<and> \<not> within x 0xb8004 4 \<and> \<not> within x 0xb8008 4 \<and> x \<noteq> 0xb800a"
    if "\<not> within x 0xb8000 12"
    using that within_add [of 0 4 x "0xb8000"] within_add [of 4 4 x "0xb8000"] within_add [of 8 4 x "0xb8000"]
    by (auto simp: within_def)
  then show ?thesis by (auto simp: error_screen_def Let_def store32_frame)
qed

lemma error_screen_text:
  "map (\<lambda>i. error_screen al m (0xb8000 + 2 * of_nat i)) [0..<6] = map of_char (''ERR: '' @ [al])"
proof -
  have "[0..<6] = [0, 1, 2, 3, 4, 5]" by code_simp
  then show ?thesis by (simp add: error_screen_def Let_def store32_def)
qed

text \<open>
  C11. The start-up code hands over to the kernel exactly on a supported machine: the boot loader's
  magic number is right, the processor has \<^verbatim>\<open>cpuid\<close>, and it has long mode. Then the kernel gets
  the magic number and the address of the boot information as its arguments, the flags register is as
  before, PAE, long mode, paging and write protection are on, the code segment is the one of the
  segment table and the data segments are null. Otherwise the code halts with
  \<open>ERR: \<close> and the code of the first check that failed in the first row of the screen, nothing else of
  memory changed but the two words at the top of the stack. Hypothesis: \<^verbatim>\<open>popfd\<close> changes exactly the writable flags.
\<close>

theorem start_outcome:
  assumes "popfd_writes writable c"
  shows "case unsupported writable c eax of
      None \<Rightarrow> \<exists>s'. start l c eax ebx s = Inr (eax, ebx, s') \<and> reg_flags s' = reg_flags s \<and> reg_esp s' = stack_top l
        \<and> bit (reg_cr4 s') 5 \<and> bit (msr_efer s') 8 \<and> bit (reg_cr0 s') 31 \<and> bit (reg_cr0 s') 16 \<and> reg_cr3 s' = p4_table l
        \<and> reg_gdtr s' = (gdt64_limit, gdt64_address l) \<and> seg_cs s' = gdt64_code \<and> sregs s' = (\<lambda>_. 0)
    | Some al \<Rightarrow> \<exists>s'. start l c eax ebx s = Inl (Halted s')
        \<and> map (\<lambda>i. ram s' (0xb8000 + 2 * of_nat i)) [0..<6] = map of_char (''ERR: '' @ [al])
        \<and> (\<not> within x 0xb8000 12 \<and> \<not> stack_word l x \<longrightarrow> ram s' x = ram s x)"
proof (rule start_eq [OF assms, of l s eax ebx])
  fix m assume m: "\<forall>x. \<not> stack_word l x \<longrightarrow> m x = ram s x"
    and eq: "start l c eax ebx s = (case unsupported writable c eax of
      Some al \<Rightarrow> start_error al (s\<lparr>reg_esp := stack_top l - 4, ram := m\<rparr>)
    | None \<Rightarrow> Inr (eax, ebx, long_mode_start (enter_long_mode l (enable_paging l (s\<lparr>reg_esp := stack_top l,
        ram := store32 (set_up_page_tables l m) (ucast (stack_top l - 4)) (return_to l 4)\<rparr>)))))"
  show ?thesis
  proof (cases "unsupported writable c eax")
    case None
    then show ?thesis by (simp add: eq enable_paging_def enter_long_mode_def long_mode_start_def Let_def bit_simps)
  next
    case (Some al)
    then show ?thesis using m by (simp add: eq start_error_def error_screen_text error_screen_frame)
  qed
qed

lemma popfd_writes_sample: "popfd_writes 0x240fff sample_cpu"
  by (simp add: popfd_writes_def sample_cpu_def)

lemma unsupported_sample:
  "unsupported 0x240fff sample_cpu 0x36d76289 = None" "unsupported 0x240fff sample_cpu 0 = Some (CHR ''0'')"
  by (simp_all add: unsupported_def sample_cpu_def)

theorem start_outcome_witness:
  "popfd_writes 0x240fff sample_cpu
    \<and> (\<exists>s'. start (bss 0x100000 0x108000 sample_returns) sample_cpu 0x36d76289 0x9000 sample_start = Inr (0x36d76289, 0x9000, s')
        \<and> bit (reg_cr0 s') 31 \<and> reg_cr3 s' = 0x100000)
    \<and> (\<exists>s'. start (bss 0x100000 0x108000 sample_returns) sample_cpu 0 0x9000 sample_start = Inl (Halted s') \<and> ram s' 0xb800c = 0)"
proof -
  have "\<not> within 0xb800c 0xb8000 12" "\<not> stack_word (bss 0x100000 0x108000 sample_returns) 0xb800c"
    by (simp_all add: within_def stack_word_def)
  with start_outcome [OF popfd_writes_sample, where eax = "0x36d76289" and l = "bss 0x100000 0x108000 sample_returns" and ebx = "0x9000" and s = sample_start]
    start_outcome [OF popfd_writes_sample, where eax = 0 and l = "bss 0x100000 0x108000 sample_returns" and ebx = "0x9000" and s = sample_start
      and x = "0xb800c"]
  show ?thesis
    unfolding unsupported_sample option.case by (auto simp: popfd_writes_sample sample_start_def)
qed

subsection \<open>Pages of the first gigabyte\<close>

lemma low_page:
  fixes page :: page_t
  assumes "unat page < 2 ^ 18"
  shows "p4_index (ucast page) = 0" and "p3_index (ucast page) = 0" and "p1_index (ucast page) = page AND 511"
proof -
  have "\<not> bit page (27 + n)" "\<not> bit page (18 + n)" for n using word_bit_less [OF _ assms] by fastforce+
  then show "p4_index (ucast page) = 0" "p3_index (ucast page) = 0" "p1_index (ucast page) = page AND 511"
    by (auto intro!: bit_eqI simp: p4_index_def p3_index_def p1_index_def bit_simps)
qed

text \<open>An entry of the first table page of memory, as \<open>map_page_to_frame\<close> addresses it below.\<close>

lemma low_slot:
  assumes "is_index i" and "0x1000 \<le> unat t" and "unat t + 4096 \<le> 2 ^ 64" and "within x t 4096"
  shows "store64 m (8 * i) v x = m x" and "unat (8 * i) < 2 ^ 30"
proof -
  have i: "unat i < 512" using assms(1) by (simp add: is_index_less word_less_nat_alt)
  then have eq: "unat (8 * i) = 8 * unat i" by (simp add: unat_word_ariths)
  with i show "unat (8 * i) < 2 ^ 30" by simp
  have "unat x \<ge> 4096" using assms(2-4) by (auto simp: within_def unat_sub_if_size word_size split: if_splits)
  moreover have "unat x < 4096" if "within x (8 * i) 8"
    using that i eq within_add [of "8 * unat i" 8 x 0] by simp
  ultimately show "store64 m (8 * i) v x = m x" using store64_frame by fastforce
qed

lemma boot_tables_low_store:
  assumes "boot_tables (bss b a ret) m" and "0x1000 \<le> unat b" and "unat b + 0x3000 \<le> 2 ^ 32" and "is_index i"
  shows "boot_tables (bss b a ret) (store64 m (8 * i) v)"
proof (rule boot_tables_cong [OF assms(1)])
  fix t x assume t: "t \<in> {p4_table (bss b a ret), p3_table (bss b a ret), p2_table (bss b a ret)}" and x: "within x (ucast t) 4096"
  have "unat t \<in> {unat b, unat b + 4096, unat b + 8192}"
    using t assms(3) by (auto simp: unat_word_ariths)
  with assms(2,3) have "0x1000 \<le> unat (ucast t :: u64)" "unat (ucast t :: u64) + 4096 \<le> 2 ^ 64" by auto
  from low_slot(1) [OF assms(4) this x] show "m x = store64 m (8 * i) v x" by simp
qed

text \<open>Accesses to the first page of memory, where the first gigabyte is mapped to itself.\<close>

lemma low_access:
  assumes "boot_tables (bss b a ret) (phys s)" and "cr3 s = ucast b" and "is_index i"
  shows "vload64 (8 * i) s = Inr (load64 (phys s) (8 * i))"
    and "vstore64 (8 * i) x s = Inr (s\<lparr>phys := store64 (phys s) (8 * i) x\<rparr>)"
proof -
  have "unat i < 512" using assms(3) by (simp add: is_index_less word_less_nat_alt)
  then have "unat (8 * i) < 2 ^ 30" by (simp add: unat_word_ariths)
  with boot_tables_translation(2) [OF assms(1)]
  have "hw_translate (phys s) (cr3 s) (8 * i) = Some (8 * i)" by (simp add: assms(2))
  then show "vload64 (8 * i) s = Inr (load64 (phys s) (8 * i))"
    "vstore64 (8 * i) x s = Inr (s\<lparr>phys := store64 (phys s) (8 * i) x\<rparr>)"
    by (simp_all add: vload64_def vstore64_def)
qed

lemma low_next_table:
  fixes page :: page_t
  assumes "boot_tables (bss b a ret) (phys s)" and "cr3 s = ucast b" and "unat page < 2 ^ 18"
  shows "next_table_create P4_TABLE (p4_index (ucast page)) s = Inr (va3 0, s)"
    and "next_table_create (va3 0) (p3_index (ucast page)) s = Inr (va2 0, s)"
    and "next_table_create (va2 0) (p2_index (ucast page)) s = Inr (0, s)"
proof -
  have z: "p4_index 0 = 0" "p3_index 0 = 0" by (simp_all add: p4_index_def p3_index_def)
  note boot = assms(1) [unfolded boot_tables_def bss_fields]
  have al: "aligned (ucast b)" "aligned (ucast (b + 4096))" "aligned (ucast (b + 8192))" using boot by simp_all
  have rec: "recursive (phys s) (cr3 s)" using boot_tables_translation(1) [OF assms(1)] by (simp add: assms(2))
  have e4: "table_entry (phys s) (cr3 s) 0 = ucast ((b + 4096) OR 3)" using boot by (simp add: assms(2))
  have e3: "table_entry (phys s) (ucast (b + 4096)) 0 = ucast ((b + 8192) OR 3)" using boot by simp
  have 4: "table_at s P4_TABLE (cr3 s)" by (rule table_at_P4 [OF rec])
  have 3: "table_at s (va3 0) (ucast (b + 4096))"
    using table_at_next [OF rec 4, of 0] table_entry_fields [OF al(2)] by (simp add: va3_def z e4)
  have 2: "table_at s (va2 0) (ucast (b + 8192))"
    using table_at_next [OF rec 3, of 0] table_entry_fields [OF al(3)] by (simp add: va2_def z e3)
  show "next_table_create P4_TABLE (p4_index (ucast page)) s = Inr (va3 0, s)"
    using next_table_create_present [OF 4, of 0] table_entry_fields [OF al(2)]
    by (simp add: low_page [OF assms(3)] va3_def z e4)
  show "next_table_create (va3 0) (p3_index (ucast page)) s = Inr (va2 0, s)"
    using next_table_create_present [OF 3, of 0] table_entry_fields [OF al(3)]
    by (simp add: low_page [OF assms(3)] va2_def z e3)
  let ?e2 = "table_entry (phys s) (ucast (b + 8192)) (p2_index (ucast page))"
  have "entry_present ?e2 \<and> entry_huge_page ?e2"
    using boot by (simp add: entry_present_def entry_huge_page_def bit_simps)
  then show "next_table_create (va2 0) (p2_index (ucast page)) s = Inr (0, s)"
    by (simp add: next_table_create_def Let_def vload64_slot [OF 2] next_table_address_eq [OF 2])
qed

text \<open>
  C39. On the tables that the start-up code leaves, \<open>map_page_to_frame\<close> of any page of the first
  gigabyte maps nothing: the level 2 entry is a huge page, \<open>next_table_create\<close> gives the null
  address for it, which is not checked, and the entry is written into the first page of memory
  (physical address 8 times the lowest index of the page), whose contents are lost. Hypotheses:
  the tables are as the start-up code leaves them, above the first page of memory.
\<close>

theorem map_page_to_frame_overwrites_low_memory:
  assumes "boot_tables (bss b a ret) (phys s)" and "cr3 s = ucast b"
    and "0x1000 \<le> unat b" and "unat b + 0x3000 \<le> 2 ^ 32" and "unat page < 2 ^ 18"
  shows "map_page_to_frame page frame flags s =
      Inr (s\<lparr>phys := store64 (phys s) (8 * (page AND 511)) (ucast flags OR 1)\<rparr>)
    \<and> boot_tables (bss b a ret) (store64 (phys s) (8 * (page AND 511)) (ucast flags OR 1))"
proof -
  let ?i = "page AND 511"
  have keep: "boot_tables (bss b a ret) (store64 (phys s) (8 * ?i) x)" for x
    by (rule boot_tables_low_store [OF assms(1,3,4)]) simp
  have acc: "vload64 (8 * ?i) (s\<lparr>phys := store64 (phys s) (8 * ?i) y\<rparr>) = Inr y"
    "vstore64 (8 * ?i) x (s\<lparr>phys := store64 (phys s) (8 * ?i) y\<rparr>) = Inr (s\<lparr>phys := store64 (phys s) (8 * ?i) x\<rparr>)" for x y
    using low_access [of b a ret "s\<lparr>phys := store64 (phys s) (8 * ?i) y\<rparr>" ?i] keep assms(2) by simp_all
  note first = low_access [OF assms(1,2) is_index_mask]
  show ?thesis
    using keep [of "ucast flags OR 1"]
    by (simp add: map_page_to_frame_def low_next_table [OF assms(1,2,5), unfolded low_page [OF assms(5)]] low_page [OF assms(5)]
        set_addr_mask_def assign_field_def set_field_def first acc Let_def)
qed

theorem map_page_to_frame_overwrites_low_memory_witness:
  "\<exists>s :: paging_state. boot_tables (bss 0x100000 0x108000 sample_returns) (phys s)
    \<and> map_page_to_frame 5 9 3 s = Inr (s\<lparr>phys := store64 (phys s) 40 3\<rparr>)"
proof -
  let ?s = "\<lparr>phys = set_up_page_tables (bss 0x100000 0x108000 sample_returns) (\<lambda>_. 0), cr3 = 0x100000,
    mmap_vars = \<lparr>memory_area = 0, g_kernel_start = 0, g_kernel_end = 0, g_multiboot_start = 0,
      g_multiboot_end = 0, next_free_frame = 1\<rparr>, tlb = Map.empty\<rparr> :: paging_state"
  have boot: "boot_tables (bss 0x100000 0x108000 sample_returns) (phys ?s)"
    by (auto intro!: set_up_boot_tables layout_ok_bss simp: clear_def aligned_def)
  then show ?thesis
    by (intro exI [of _ ?s]) (simp add: map_page_to_frame_overwrites_low_memory [OF boot])
qed

text \<open>
  On these tables the kernel sees the physical memory below one gigabyte, and the software walk,
  which knows no huge pages, finds no frame for its pages.
\<close>

lemma boot_view:
  assumes "boot_tables l (phys s)" and "cr3 s = ucast (p4_table l)" and "unat v < 2 ^ 30"
  shows "view s v = phys s v"
  using boot_tables_translation(2) [OF assms(1), of v] assms(2,3) by (simp add: view_def)

lemma boot_translate_page:
  assumes "boot_tables l (phys s)" and "cr3 s = ucast (p4_table l)" and "unat page < 2 ^ 18"
  shows "translate_page page s = Inr 0"
proof -
  have "page < 2 ^ 32" using assms(3) by (simp add: word_less_nat_alt)
  moreover have "unat (page * 4096) < 2 ^ 30" using assms(3) by (simp add: unat_word_ariths)
  then have "\<not> no_huge (phys s) (cr3 s) (page * 4096)"
    using boot_tables_translation(3) [OF assms(1)] assms(2) by simp
  moreover have "recursive (phys s) (cr3 s)" using boot_tables_translation(1) [OF assms(1)] assms(2) by simp
  ultimately show ?thesis by (simp add: translate_page_hw)
qed

end
