(* ===== verification/Stubs.thy ===== *)
theory Stubs
  imports Kmain Startup
begin

text \<open>
  The interrupt stubs (\<open>src/asm/interrupt.asm\<close>): what the processor pushes when it enters a gate,
  the registers the stubs save, the call of the C handler, and the return to the interrupted
  code. The state is that of the kernel with the registers. Compiled C code is a parameter, the
  record \<open>compiled\<close>: what it leaves in the registers that the calling convention lets it change,
  and in the bytes of the stack below the stack pointer that it uses. Here an entry runs to its
  end before the next one; \<open>Nesting\<close> has entries within entries.
\<close>

datatype reg = RAX | RBX | RCX | RDX | RSI | RDI | RBP | RSP | R8 | R9 | R10 | R11 | R12 | R13 | R14 | R15

record 'd processor = "'d kernel_state" +
  gpr :: "reg \<Rightarrow> u64"
  reg_rip :: u64
  reg_cs :: u16
  reg_ss :: u16
  reg_rflags :: u64

datatype callee = Isr_handler | Irq_handler

datatype instr = CLI | STI | PUSH reg | POP reg | MOV reg reg | MOV_IMM reg u64 | CALL callee | IRETQ

record compiled =
  scratch_gpr :: "reg \<Rightarrow> u64"
  scratch_stack :: bytes
  stack_use :: nat

subsection \<open>The stubs\<close>

definition saved :: "reg list" where
  "saved = [RAX, RBX, RCX, RDX, RSI, RDI, RBP, R8, R9, R10, R11, R12, R13, R14, R15]"

definition isr_common_stub :: "instr list" where
  "isr_common_stub =
     [PUSH RAX, PUSH RBX, PUSH RCX, PUSH RDX, PUSH RSI, PUSH RDI, PUSH RBP, PUSH R8, PUSH R9, PUSH R10,
      PUSH R11, PUSH R12, PUSH R13, PUSH R14, PUSH R15, MOV RSI RSP,
      CALL Isr_handler,
      POP R15, POP R14, POP R13, POP R12, POP R11, POP R10, POP R9, POP R8, POP RBP, POP RDI,
      POP RSI, POP RDX, POP RCX, POP RBX, POP RAX, STI, IRETQ]"

definition irq_common_stub :: "instr list" where
  "irq_common_stub =
     [PUSH RAX, PUSH RBX, PUSH RCX, PUSH RDX, PUSH RSI, PUSH RDI, PUSH RBP, PUSH R8, PUSH R9, PUSH R10,
      PUSH R11, PUSH R12, PUSH R13, PUSH R14, PUSH R15, MOV RSI RSP,
      CALL Irq_handler,
      POP R15, POP R14, POP R13, POP R12, POP R11, POP R10, POP R9, POP R8, POP RBP, POP RDI,
      POP RSI, POP RDX, POP RCX, POP RBX, POP RAX, STI, IRETQ]"

definition def_isr_handler :: "nat \<Rightarrow> instr list" where
  "def_isr_handler n = [CLI, MOV_IMM RDI (of_nat n)] @ isr_common_stub"

definition def_irq_handler :: "nat \<Rightarrow> instr list" where
  "def_irq_handler n = [CLI, MOV_IMM RDI (of_nat (32 + n))] @ irq_common_stub"

subsection \<open>The processor\<close>

text \<open>The flags register with the interrupt flag, bit 9, which the kernel state keeps apart.\<close>

definition rflags_word :: "('d, 'z) processor_scheme \<Rightarrow> u64" where
  "rflags_word s = set_field 9 (cpu_if s) (reg_rflags s)"

definition push_word :: "u64 \<Rightarrow> ('d, 'z) processor_scheme \<Rightarrow> ('d, 'z) processor_scheme" where
  "push_word v s =
     (let sp = gpr s RSP - 8 in s\<lparr>mem := store64 (mem s) sp v, gpr := (gpr s)(RSP := sp)\<rparr>)"

definition pop_word :: "('d, 'z) processor_scheme \<Rightarrow> u64 \<times> ('d, 'z) processor_scheme" where
  "pop_word s = (load64 (mem s) (gpr s RSP), s\<lparr>gpr := (gpr s)(RSP := gpr s RSP + 8)\<rparr>)"

definition callee_saved :: "reg list" where
  "callee_saved = [RBX, RBP, RSP, R12, R13, R14, R15]"

definition c_return :: "compiled \<Rightarrow> ('d, 'z) processor_scheme \<Rightarrow> ('d, 'z) processor_scheme" where
  "c_return c s = s\<lparr>
     mem := (\<lambda>x. if within x (gpr s RSP - of_nat (stack_use c)) (stack_use c) then scratch_stack c x else mem s x),
     gpr := (\<lambda>r. if r \<in> set callee_saved then gpr s r else scratch_gpr c r)\<rparr>"

text \<open>
  The segments that \<^verbatim>\<open>iretq\<close> returns to: the processor looks the selectors up in the segment table
  that the start-up code has loaded. A selector names one of its descriptors if it is not null, asks
  for this table and privilege level 0, and lies within the limit. The code segment must be a present
  64-bit code segment, the stack segment null or a present writable data segment. Otherwise the
  processor raises a general protection exception.
\<close>

definition names :: "u16 \<Rightarrow> (u64 \<Rightarrow> bool) \<Rightarrow> bool" where
  "names sel P \<longleftrightarrow> sel \<noteq> 0 \<and> sel AND 7 = 0 \<and> unat sel + 7 \<le> unat gdt64_limit \<and> P (gdt64 ! (unat sel div 8))"

definition code_selector_ok :: "u16 \<Rightarrow> bool" where
  "code_selector_ok sel \<longleftrightarrow> names sel (\<lambda>d. bit d 47 \<and> bit d 44 \<and> bit d 43 \<and> bit d 53)"

definition stack_selector_ok :: "u16 \<Rightarrow> bool" where
  "stack_selector_ok sel \<longleftrightarrow> sel = 0 \<or> names sel (\<lambda>d. bit d 47 \<and> bit d 44 \<and> \<not> bit d 43 \<and> bit d 41)"

fun step :: "'d port_hw \<Rightarrow> build \<Rightarrow> compiled \<Rightarrow> instr \<Rightarrow> ('d, 'z) processor_scheme \<Rightarrow>
    ('d, 'z) processor_scheme stop + ('d, 'z) processor_scheme" where
  "step hw bld c CLI s = Inr (s\<lparr>cpu_if := False\<rparr>)"
| "step hw bld c STI s = Inr (s\<lparr>cpu_if := True\<rparr>)"
| "step hw bld c (PUSH r) s = Inr (push_word (gpr s r) s)"
| "step hw bld c (POP r) s = (let (v, s) = pop_word s in Inr (s\<lparr>gpr := (gpr s)(r := v)\<rparr>))"
| "step hw bld c (MOV r r') s = Inr (s\<lparr>gpr := (gpr s)(r := gpr s r')\<rparr>)"
| "step hw bld c (MOV_IMM r v) s = Inr (s\<lparr>gpr := (gpr s)(r := v)\<rparr>)"
| "step hw bld c (CALL Isr_handler) s =
     res_bind (isr_handler hw bld (gpr s RDI) (gpr s RSI) s) (\<lambda>s. Inr (c_return c s))"
| "step hw bld c (CALL Irq_handler) s =
     res_bind (irq_handler hw (gpr s RDI) (gpr s RSI) s) (\<lambda>s. Inr (c_return c s))"
| "step hw bld c IRETQ s =
     (let (rip, s) = pop_word s; (code_seg, s) = pop_word s; (flags, s) = pop_word s;
          (sp, s) = pop_word s; (stack_seg, s) = pop_word s
      in if code_selector_ok (ucast code_seg) \<and> stack_selector_ok (ucast stack_seg)
         then Inr (s\<lparr>reg_rip := rip, reg_cs := ucast code_seg, reg_rflags := flags, cpu_if := bit flags 9,
                gpr := (gpr s)(RSP := sp), reg_ss := ucast stack_seg\<rparr>)
         else Inl (Fault General_protection))"

text \<open>
  Entering a gate: the stack pointer is aligned to 16 bytes, the context is pushed, and for some
  exceptions an error code. Bit 8 of the options of the gate tells whether it is a trap gate, which
  leaves the interrupt flag alone. Then the code at the address of the gate runs.
\<close>

definition enter_gate :: "nat \<Rightarrow> u64 option \<Rightarrow> ('d, 'z) processor_scheme \<Rightarrow> ('d, 'z) processor_scheme" where
  "enter_gate n err s =
     (let g = idt s ! n;
          t = s\<lparr>gpr := (gpr s)(RSP := gpr s RSP AND NOT 15)\<rparr>;
          t = push_word (ucast (reg_ss s)) t;
          t = push_word (gpr s RSP) t;
          t = push_word (rflags_word s) t;
          t = push_word (ucast (reg_cs s)) t;
          t = push_word (reg_rip s) t;
          t = (case err of None \<Rightarrow> t | Some e \<Rightarrow> push_word e t)
      in t\<lparr>reg_rip := gate_offset g, reg_cs := selector g,
           cpu_if := cpu_if s \<and> bit (opts_bits (opts g)) 8\<rparr>)"

definition interrupt :: "'d port_hw \<Rightarrow> build \<Rightarrow> compiled \<Rightarrow> (u64 \<Rightarrow> instr list) \<Rightarrow> nat \<Rightarrow> u64 option \<Rightarrow>
    ('d, 'z) processor_scheme \<Rightarrow> ('d, 'z) processor_scheme stop + ('d, 'z) processor_scheme" where
  "interrupt hw bld c code n err s =
     (let s = enter_gate n err s in fold_res (step hw bld c) (code (reg_rip s)) s)"

text \<open>The linker has put the stubs where the build says.\<close>

definition linked :: "build \<Rightarrow> (u64 \<Rightarrow> instr list) \<Rightarrow> bool" where
  "linked bld code \<longleftrightarrow> (\<forall>n < 32. code (addr_isr bld n) = def_isr_handler n)
     \<and> (\<forall>n < 5. code (addr_irq bld n) = def_irq_handler n)"

subsection \<open>Words on the stack\<close>

text \<open>\<open>stacked m sp vs\<close>: the words \<open>vs\<close> lie in memory from \<open>sp\<close> up, the first one on top of the stack.\<close>

definition stacked :: "bytes \<Rightarrow> u64 \<Rightarrow> u64 list \<Rightarrow> bool" where
  "stacked m sp vs \<longleftrightarrow> (\<forall>i < length vs. load64 m (sp + of_nat (8 * i)) = vs ! i)"

lemma stacked_Nil [simp]: "stacked m sp []"
  by (simp add: stacked_def)

lemma stacked_Cons: "stacked m sp (v # vs) \<longleftrightarrow> load64 m sp = v \<and> stacked m (sp + 8) vs"
  by (auto simp: stacked_def less_Suc_eq_0_disj add.assoc)

lemma stacked_append:
  "stacked m sp (vs @ ws) \<longleftrightarrow> stacked m sp vs \<and> stacked m (sp + of_nat (8 * length vs)) ws"
  by (induction vs arbitrary: sp) (auto simp: stacked_Cons add.assoc)

lemma stacked_cong:
  assumes "stacked m sp vs" and "8 * length vs \<le> 2 ^ 64" and "\<And>x. within x sp (8 * length vs) \<Longrightarrow> m' x = m x"
  shows "stacked m' sp vs"
  unfolding stacked_def
proof clarify
  fix i assume i: "i < length vs"
  have "load64 m' (sp + of_nat (8 * i)) = load64 m (sp + of_nat (8 * i))"
  proof (rule load64_cong, rule assms(3))
    fix x assume "within x (sp + of_nat (8 * i)) 8"
    then show "within x sp (8 * length vs)"
      by (subst (asm) within_add) (use i assms(2) in \<open>auto simp: within_def\<close>)
  qed
  then show "load64 m' (sp + of_nat (8 * i)) = vs ! i" using assms(1) i by (simp add: stacked_def)
qed

lemma stacked_push:
  assumes "stacked m sp vs" and "8 * Suc (length vs) \<le> 2 ^ 64"
  shows "stacked (store64 m (sp - 8) v) (sp - 8) (v # vs)"
proof -
  have "stacked (store64 m (sp - 8) v) sp vs"
  proof (rule stacked_cong [OF assms(1)])
    fix x assume "within x sp (8 * length vs)"
    then have "within x (sp - 8 + of_nat 8) (8 * length vs)" by simp
    then show "store64 m (sp - 8) v x = m x"
      by (subst (asm) within_add) (use assms(2) in \<open>auto simp: within_def intro: store64_frame\<close>)
  qed (use assms(2) in simp)
  then show ?thesis by (simp add: stacked_Cons)
qed

lemma push_word_fields [simp]:
  "gpr (push_word v s) = (gpr s)(RSP := gpr s RSP - 8)" "mem (push_word v s) = store64 (mem s) (gpr s RSP - 8) v"
  "(push_word v s)\<lparr>mem := m, gpr := g\<rparr> = s\<lparr>mem := m, gpr := g\<rparr>"
  by (simp_all add: push_word_def Let_def)

text \<open>Pushing a list of words, the last one on top.\<close>

lemma push_words:
  assumes "stacked (mem s) (gpr s RSP) ws" and "8 * (length vs + length ws) \<le> 2 ^ 64"
  shows "\<exists>m. fold push_word vs s = s\<lparr>mem := m, gpr := (gpr s)(RSP := gpr s RSP - of_nat (8 * length vs))\<rparr>
    \<and> stacked m (gpr s RSP - of_nat (8 * length vs)) (rev vs @ ws)
    \<and> (\<forall>x. \<not> within x (gpr s RSP - of_nat (8 * length vs)) (8 * length vs) \<longrightarrow> m x = mem s x)"
  using assms
proof (induction vs arbitrary: s ws)
  case (Cons v vs)
  let ?s = "push_word v s"
  have "stacked (mem ?s) (gpr ?s RSP) (v # ws)" "8 * (length vs + length (v # ws)) \<le> 2 ^ 64"
    using stacked_push [OF Cons.prems(1)] Cons.prems(2) by simp_all
  from Cons.IH [OF this] obtain m where m: "fold push_word vs ?s = ?s\<lparr>mem := m, gpr := (gpr ?s)(RSP := gpr ?s RSP - of_nat (8 * length vs))\<rparr>"
    "stacked m (gpr ?s RSP - of_nat (8 * length vs)) (rev vs @ v # ws)"
    and frame: "\<And>x. \<not> within x (gpr ?s RSP - of_nat (8 * length vs)) (8 * length vs) \<Longrightarrow> m x = mem ?s x" by blast
  let ?b = "gpr s RSP - of_nat (8 * Suc (length vs))"
  have b: "gpr ?s RSP - of_nat (8 * length vs) = ?b" by (simp add: algebra_simps)
  have "m x = mem s x" if "\<not> within x ?b (8 * Suc (length vs))" for x
  proof -
    have "\<not> within x ?b (8 * length vs)" using that by (simp add: within_def)
    then have "m x = store64 (mem s) (gpr s RSP - 8) v x" using frame [of x] unfolding b by simp
    moreover have "\<not> within x (?b + of_nat (8 * length vs)) 8"
      by (subst within_add) (use that Cons.prems(2) in \<open>auto simp: within_def\<close>)
    then have "\<not> within x (gpr s RSP - 8) 8" by (simp add: algebra_simps)
    ultimately show ?thesis by (simp add: store64_frame)
  qed
  moreover have "fold push_word (v # vs) s = s\<lparr>mem := m, gpr := (gpr s)(RSP := ?b)\<rparr>"
    using m(1) unfolding b by (simp only: fold_simps push_word_fields fun_upd_upd)
  moreover have "stacked m ?b (rev (v # vs) @ ws)" using m(2) unfolding b by simp
  ultimately show ?case unfolding length_Cons by blast
next
  case Nil
  then show ?case by (intro exI [of _ "mem s"]) simp
qed

lemma save_registers:
  "RSP \<notin> set rs \<Longrightarrow> fold_res (step hw bld c) (map PUSH rs) s = Inr (fold push_word (map (gpr s) rs) s)"
proof (induction rs arbitrary: s)
  case (Cons r rs)
  then have "map (gpr (push_word (gpr s r) s)) rs = map (gpr s) rs" by auto
  with Cons show ?case by simp
qed simp

lemma restore_registers:
  assumes "RSP \<notin> set rs" and "stacked (mem s) (gpr s RSP) (map g rs @ ws)"
  shows "fold_res (step hw bld c) (map POP rs) s = Inr (s\<lparr>gpr := (\<lambda>r. if r \<in> set rs then g r
    else if r = RSP then gpr s RSP + of_nat (8 * length rs) else gpr s r)\<rparr>)"
  using assms
proof (induction rs arbitrary: s)
  case (Cons r rs)
  let ?s = "s\<lparr>gpr := (gpr s)(RSP := gpr s RSP + 8, r := g r)\<rparr>"
  have "step hw bld c (POP r) s = Inr ?s" using Cons.prems by (simp add: pop_word_def stacked_Cons)
  moreover have "stacked (mem ?s) (gpr ?s RSP) (map g rs @ ws)"
    using Cons.prems by (simp add: stacked_Cons)
  ultimately show ?case
    using Cons.IH [of ?s] Cons.prems(1) by (auto simp: fun_eq_iff intro!: arg_cong [where f = "\<lambda>h. s\<lparr>gpr := h\<rparr>"])
qed (simp add: fun_upd_idem fun_upd_triv flip: fun_upd_def)

subsection \<open>A stub around its call\<close>

lemma stub_shape:
  "isr_common_stub = map PUSH saved @ [MOV RSI RSP, CALL Isr_handler] @ map POP (rev saved) @ [STI, IRETQ]"
  "irq_common_stub = map PUSH saved @ [MOV RSI RSP, CALL Irq_handler] @ map POP (rev saved) @ [STI, IRETQ]"
  by (simp_all add: isr_common_stub_def irq_common_stub_def saved_def)

lemma saved_all [simp]: "r \<in> set saved \<longleftrightarrow> r \<noteq> RSP"
  by (cases r) (simp_all add: saved_def)

lemma length_saved [simp]: "length saved = 15"
  by (simp add: saved_def)

lemma stub_saves:
  assumes "stacked (mem s) (gpr s RSP) ws" and "8 * (15 + length ws) \<le> 2 ^ 64"
  shows "\<exists>m. fold_res (step hw bld c) (map PUSH saved @ [MOV RSI RSP]) s =
      Inr (s\<lparr>mem := m, gpr := (gpr s)(RSP := gpr s RSP - 120, RSI := gpr s RSP - 120)\<rparr>)
    \<and> stacked m (gpr s RSP - 120) (map (gpr s) (rev saved) @ ws)
    \<and> (\<forall>x. \<not> within x (gpr s RSP - 120) 120 \<longrightarrow> m x = mem s x)"
proof -
  have "8 * (length (map (gpr s) saved) + length ws) \<le> 2 ^ 64" using assms(2) by simp
  from push_words [OF assms(1) this] obtain m
    where m: "fold push_word (map (gpr s) saved) s = s\<lparr>mem := m, gpr := (gpr s)(RSP := gpr s RSP - 120)\<rparr>"
      "stacked m (gpr s RSP - 120) (map (gpr s) (rev saved) @ ws)"
      "\<forall>x. \<not> within x (gpr s RSP - 120) 120 \<longrightarrow> m x = mem s x"
    by (auto simp: rev_map)
  then show ?thesis
    by (intro exI [of _ m]) (simp add: fold_res_append save_registers m(1))
qed

lemma c_return_stacked:
  assumes "stacked (mem t) (gpr t RSP) vs" and "stack_use c + 8 * length vs \<le> 2 ^ 64"
  shows "stacked (mem (c_return c t)) (gpr t RSP) vs"
proof (rule stacked_cong [OF assms(1)])
  fix x assume "within x (gpr t RSP) (8 * length vs)"
  then have "within x (gpr t RSP - of_nat (stack_use c) + of_nat (stack_use c)) (8 * length vs)" by simp
  then have "stack_use c \<le> unat (x - (gpr t RSP - of_nat (stack_use c)))"
    by (subst (asm) within_add) (use assms(2) in auto)
  then show "mem (c_return c t) x = mem t x" by (simp add: c_return_def within_def)
qed (use assms(2) in simp)

lemma stub_returns:
  assumes "stacked (mem t) (gpr t RSP) (map g (rev saved) @ [ip, seg, flags, sp, sseg])"
    and "stack_use c + 160 \<le> 2 ^ 64"
  shows "fold_res (step hw bld c) (map POP (rev saved) @ [STI, IRETQ]) (c_return c t) =
    (if code_selector_ok (ucast seg) \<and> stack_selector_ok (ucast sseg)
     then Inr (t\<lparr>mem := mem (c_return c t), gpr := g(RSP := sp), reg_rip := ip, reg_cs := ucast seg, reg_rflags := flags,
       cpu_if := bit flags 9, reg_ss := ucast sseg\<rparr>)
     else Inl (Fault General_protection))"
proof -
  let ?t = "c_return c t"
  have sp: "gpr ?t RSP = gpr t RSP" by (simp add: c_return_def callee_saved_def)
  have st: "stacked (mem ?t) (gpr ?t RSP) (map g (rev saved) @ [ip, seg, flags, sp, sseg])"
    unfolding sp by (rule c_return_stacked [OF assms(1)]) (use assms(2) in simp)
  have pops: "fold_res (step hw bld c) (map POP (rev saved)) ?t = Inr (?t\<lparr>gpr := g(RSP := gpr t RSP + 120)\<rparr>)"
  proof -
    have "(\<lambda>r. if r \<in> set (rev saved) then g r
        else if r = RSP then gpr ?t RSP + of_nat (8 * length (rev saved)) else gpr ?t r) = g(RSP := gpr t RSP + 120)"
      by (auto simp: fun_eq_iff sp)
    with restore_registers [OF _ st, of hw bld c] show ?thesis by (metis saved_all set_rev)
  qed
  have "stacked (mem ?t) (gpr t RSP + 120) [ip, seg, flags, sp, sseg]"
    using st by (simp add: stacked_append sp)
  then show ?thesis
    by (simp add: fold_res_append pops stacked_Cons pop_word_def add.assoc) (simp add: c_return_def)
qed

subsection \<open>From the gate to the handler\<close>

text \<open>The context of the interrupted code, and the words on the stack when the stub begins.\<close>

definition context_of :: "('d, 'z) processor_scheme \<Rightarrow> stack_t" where
  "context_of s = \<lparr>instruction_pointer = reg_rip s, code_segment = ucast (reg_cs s), cpu_flags = rflags_word s,
     stack_pointer = gpr s RSP, stack_segment = ucast (reg_ss s)\<rparr>"

definition context_words :: "('d, 'z) processor_scheme \<Rightarrow> u64 list" where
  "context_words s = [reg_rip s, ucast (reg_cs s), rflags_word s, gpr s RSP, ucast (reg_ss s)]"

definition error_words :: "u64 option \<Rightarrow> u64 list" where
  "error_words err = (case err of None \<Rightarrow> [] | Some e \<Rightarrow> [e])"

lemma length_words [simp]: "length (context_words s) = 5" "length (error_words err) \<le> 1"
  by (simp_all add: context_words_def error_words_def split: option.split)

text \<open>The stack pointer of the stub when it calls the handler.\<close>

definition stub_sp :: "u64 option \<Rightarrow> ('d, 'z) processor_scheme \<Rightarrow> u64" where
  "stub_sp err s = (gpr s RSP AND NOT 15) - of_nat (8 * (20 + length (error_words err)))"

definition stub_bytes :: "u64 option \<Rightarrow> nat" where
  "stub_bytes err = 8 * (20 + length (error_words err))"

lemma enter_gate_eq:
  "\<exists>m. enter_gate n err s = s\<lparr>mem := m, gpr := (gpr s)(RSP := stub_sp err s + 120),
      reg_rip := gate_offset (idt s ! n), reg_cs := (selector (idt s ! n)),
      cpu_if := cpu_if s \<and> bit (opts_bits (opts (idt s ! n))) 8\<rparr>
    \<and> stacked m (stub_sp err s + 120) (error_words err @ context_words s)
    \<and> (\<forall>x. \<not> within x (stub_sp err s + 120) (stub_bytes err - 120) \<longrightarrow> m x = mem s x)"
proof -
  let ?s = "s\<lparr>gpr := (gpr s)(RSP := gpr s RSP AND NOT 15)\<rparr>"
  let ?vs = "rev (error_words err @ context_words s)"
  have push: "(case err of None \<Rightarrow> t | Some e \<Rightarrow> push_word e t) = fold push_word (error_words err) t" for t :: "('a, 'b) processor_scheme"
    by (simp add: error_words_def split: option.split)
  have rev1: "rev (error_words err) = error_words err" by (simp add: error_words_def split: option.split)
  have eq: "enter_gate n err s = (fold push_word ?vs ?s)\<lparr>reg_rip := gate_offset (idt s ! n),
      reg_cs := (selector (idt s ! n)), cpu_if := cpu_if s \<and> bit (opts_bits (opts (idt s ! n))) 8\<rparr>"
    by (simp only: enter_gate_def Let_def push rev_append rev1 fold_append o_apply) (simp add: context_words_def)
  have len: "8 * (length ?vs + length []) \<le> 2 ^ 64" using length_words(2) [of err] by simp
  have sp: "gpr ?s RSP - of_nat (stub_bytes err - 120) = stub_sp err s + 120"
    by (simp add: stub_sp_def stub_bytes_def algebra_simps)
  have bytes: "8 * length ?vs = stub_bytes err - 120" by (simp add: stub_bytes_def)
  from push_words [OF stacked_Nil len, of ?s, unfolded sp bytes append_Nil2 rev_rev_ident] obtain m where
    "fold push_word ?vs ?s = ?s\<lparr>mem := m, gpr := (gpr ?s)(RSP := stub_sp err s + 120)\<rparr>"
    "stacked m (stub_sp err s + 120) (error_words err @ context_words s)"
    "\<forall>x. \<not> within x (stub_sp err s + 120) (stub_bytes err - 120) \<longrightarrow> m x = mem ?s x"
    by blast
  then show ?thesis unfolding eq by (intro exI [of _ m]) simp
qed

text \<open>Everything up to the call: the state the C handler sees.\<close>

definition at_call :: "nat \<Rightarrow> u64 \<Rightarrow> u64 option \<Rightarrow> bytes \<Rightarrow> ('d, 'z) processor_scheme \<Rightarrow> ('d, 'z) processor_scheme" where
  "at_call n v err m s = s\<lparr>mem := m, gpr := (gpr s)(RDI := v, RSP := stub_sp err s, RSI := stub_sp err s),
     reg_rip := gate_offset (idt s ! n), reg_cs := (selector (idt s ! n)), cpu_if := False\<rparr>"

lemma up_to_call:
  "\<exists>m. fold_res (step hw bld c) ([CLI, MOV_IMM RDI v] @ map PUSH saved @ [MOV RSI RSP]) (enter_gate n err s)
      = Inr (at_call n v err m s)
    \<and> stacked m (stub_sp err s) (map ((gpr s)(RDI := v)) (rev saved) @ error_words err @ context_words s)
    \<and> (\<forall>x. \<not> within x (stub_sp err s) (stub_bytes err) \<longrightarrow> m x = mem s x)"
proof -
  from enter_gate_eq [of n err s] obtain m where
    m: "enter_gate n err s = s\<lparr>mem := m, gpr := (gpr s)(RSP := stub_sp err s + 120),
      reg_rip := gate_offset (idt s ! n), reg_cs := (selector (idt s ! n)),
      cpu_if := cpu_if s \<and> bit (opts_bits (opts (idt s ! n))) 8\<rparr>"
    "stacked m (stub_sp err s + 120) (error_words err @ context_words s)"
    "\<forall>x. \<not> within x (stub_sp err s + 120) (stub_bytes err - 120) \<longrightarrow> m x = mem s x" by blast
  let ?t = "(enter_gate n err s)\<lparr>cpu_if := False, gpr := (gpr (enter_gate n err s))(RDI := v)\<rparr>"
  have t: "gpr ?t RSP = stub_sp err s + 120" "mem ?t = m" by (simp_all add: m(1))
  have "8 * (15 + length (error_words err @ context_words s)) \<le> 2 ^ 64" using length_words(2) [of err] by simp
  from stub_saves [of ?t, OF m(2) [folded t], unfolded t, OF this, of hw bld c] obtain m' where
    m': "fold_res (step hw bld c) (map PUSH saved @ [MOV RSI RSP]) ?t =
      Inr (?t\<lparr>mem := m', gpr := (gpr ?t)(RSP := stub_sp err s, RSI := stub_sp err s)\<rparr>)"
    "stacked m' (stub_sp err s) (map (gpr ?t) (rev saved) @ error_words err @ context_words s)"
    "\<forall>x. \<not> within x (stub_sp err s) 120 \<longrightarrow> m' x = m x" by auto
  have "map (gpr ?t) (rev saved) = map ((gpr s)(RDI := v)) (rev saved)" by (auto simp: m(1))
  with m'(2) have "stacked m' (stub_sp err s) (map ((gpr s)(RDI := v)) (rev saved) @ error_words err @ context_words s)"
    by (simp only:)
  moreover have "m' x = mem s x" if "\<not> within x (stub_sp err s) (stub_bytes err)" for x
  proof -
    have "\<not> within x (stub_sp err s + of_nat 120) (stub_bytes err - 120)"
      by (subst within_add) (use that length_words(2) [of err] in \<open>auto simp: within_def stub_bytes_def\<close>)
    moreover have "\<not> within x (stub_sp err s) 120" using that by (auto simp: within_def stub_bytes_def)
    ultimately show ?thesis using m(3) m'(3) by simp
  qed
  moreover have "?t\<lparr>mem := m', gpr := (gpr ?t)(RSP := stub_sp err s, RSI := stub_sp err s)\<rparr> = at_call n v err m' s"
    by (simp add: m(1) at_call_def fun_upd_def) (auto simp: fun_eq_iff intro!: arg_cong [where f = "\<lambda>h. _\<lparr>gpr := h\<rparr>"])
  with m'(1) have "fold_res (step hw bld c) ([CLI, MOV_IMM RDI v] @ map PUSH saved @ [MOV RSI RSP]) (enter_gate n err s)
      = Inr (at_call n v err m' s)" by simp
  ultimately show ?thesis by blast
qed

subsection \<open>From the call to the interrupted code\<close>

definition run_stub :: "'d port_hw \<Rightarrow> build \<Rightarrow> compiled \<Rightarrow> u64 \<Rightarrow> callee \<Rightarrow> ('d, 'z) processor_scheme \<Rightarrow>
    ('d, 'z) processor_scheme stop + ('d, 'z) processor_scheme" where
  "run_stub hw bld c v h = fold_res (step hw bld c)
     ([CLI, MOV_IMM RDI v] @ map PUSH saved @ [MOV RSI RSP, CALL h] @ map POP (rev saved) @ [STI, IRETQ])"

lemma interrupt_isr:
  assumes "tables_ok bld s" and "linked bld code" and "n < 32"
  shows "interrupt hw bld c code n err s = run_stub hw bld c (of_nat n) Isr_handler (enter_gate n err s)"
proof -
  have "reg_rip (enter_gate n err s) = addr_isr bld n"
    using enter_gate_eq [of n err s] assms(1,3) by (auto simp: tables_ok_def)
  with assms(2,3) show ?thesis
    by (simp add: interrupt_def linked_def def_isr_handler_def stub_shape run_stub_def Let_def)
qed

lemma interrupt_irq:
  assumes "tables_ok bld s" and "linked bld code" and "n < 5"
  shows "interrupt hw bld c code (32 + n) err s = run_stub hw bld c (32 + of_nat n) Irq_handler (enter_gate (32 + n) err s)"
proof -
  have "reg_rip (enter_gate (32 + n) err s) = addr_irq bld n"
    using enter_gate_eq [of "32 + n" err s] assms(1,3) by (auto simp: tables_ok_def)
  with assms(2,3) show ?thesis
    by (simp add: interrupt_def linked_def def_irq_handler_def stub_shape run_stub_def Let_def)
qed

text \<open>The stub up to its call, and what is left to run.\<close>

lemma run_stub_call:
  "\<exists>m. run_stub hw bld c v h (enter_gate n err s) = res_bind (step hw bld c (CALL h) (at_call n v err m s))
      (fold_res (step hw bld c) (map POP (rev saved) @ [STI, IRETQ]))
    \<and> stacked m (stub_sp err s) (map ((gpr s)(RDI := v)) (rev saved) @ error_words err @ context_words s)
    \<and> (\<forall>x. \<not> within x (stub_sp err s) (stub_bytes err) \<longrightarrow> m x = mem s x)"
proof -
  from up_to_call [of hw bld c v n err s] obtain m where
    m: "fold_res (step hw bld c) ([CLI, MOV_IMM RDI v] @ map PUSH saved @ [MOV RSI RSP]) (enter_gate n err s)
      = Inr (at_call n v err m s)"
    and rest: "stacked m (stub_sp err s) (map ((gpr s)(RDI := v)) (rev saved) @ error_words err @ context_words s)"
      "\<forall>x. \<not> within x (stub_sp err s) (stub_bytes err) \<longrightarrow> m x = mem s x" by blast
  have "run_stub hw bld c v h (enter_gate n err s) =
      fold_res (step hw bld c) (([CLI, MOV_IMM RDI v] @ map PUSH saved @ [MOV RSI RSP]) @
        [CALL h] @ map POP (rev saved) @ [STI, IRETQ]) (enter_gate n err s)"
    by (simp add: run_stub_def)
  also have "\<dots> = res_bind (step hw bld c (CALL h) (at_call n v err m s))
      (fold_res (step hw bld c) (map POP (rev saved) @ [STI, IRETQ]))"
    by (subst fold_res_append, subst m) simp
  finally show ?thesis using rest by blast
qed

text \<open>
  \<open>resumed\<close>: the machine after the stub, when the handler has left \<open>t\<close>: \<^verbatim>\<open>iretq\<close> takes the five words on top.
\<close>

definition resumed :: "compiled \<Rightarrow> u64 \<Rightarrow> u64 list \<Rightarrow> ('d, 'z) processor_scheme \<Rightarrow> ('d, 'z) processor_scheme \<Rightarrow>
    ('d, 'z) processor_scheme" where
  "resumed c v ws s t = t\<lparr>mem := mem (c_return c t), gpr := (gpr s)(RDI := v, RSP := ws ! 3), reg_rip := ws ! 0,
     reg_cs := ucast (ws ! 1), reg_rflags := ws ! 2, cpu_if := bit (ws ! 2) 9, reg_ss := ucast (ws ! 4)\<rparr>"

definition returnable :: "u64 list \<Rightarrow> bool" where
  "returnable ws \<longleftrightarrow> code_selector_ok (ucast (ws ! 1)) \<and> stack_selector_ok (ucast (ws ! 4))"

definition segments_ok :: "('d, 'z) processor_scheme \<Rightarrow> bool" where
  "segments_ok s \<longleftrightarrow> code_selector_ok (reg_cs s) \<and> stack_selector_ok (reg_ss s)"

lemma ucast_selector [simp]: "(ucast (ucast (sel :: u16) :: u64) :: u16) = sel"
  by (rule bit_eqI) (auto simp: bit_simps dest: bit_imp_le_length)

lemma ucast_selector_eq [simp]: "(ucast (a :: u16) :: u64) = ucast b \<longleftrightarrow> a = b"
  by (metis ucast_selector)

lemma returnable_context: "returnable (context_words s) = segments_ok s"
  by (simp add: returnable_def segments_ok_def context_words_def)

text \<open>The only code segment is the one of the kernel, the stack segment is null or the data segment.\<close>

lemma selectors:
  "code_selector_ok sel \<longleftrightarrow> sel = 8" "stack_selector_ok sel \<longleftrightarrow> sel = 0 \<or> sel = 16"
proof -
  have lim: "unat gdt64_limit = 23" by (simp add: gdt64_limit_def gdt64_def)
  have low: "sel \<in> {0, 8, 16}" if "unat sel + 7 \<le> 23" "sel AND 7 = 0"
  proof -
    have "sel = of_nat (unat sel)" by simp
    moreover have "unat sel \<in> set [0..<17]" using that(1) by simp
    ultimately have "sel \<in> set (map of_nat [0..<17])" by (metis image_eqI list.set_map)
    moreover have "map of_nat [0..<17] = [0, 1, 2, 3, 4, 5, 6, 7, 8, 9, 10, 11, 12, 13, 14, 15, 16 :: u16]" by code_simp
    ultimately show ?thesis using that(2) by auto
  qed
  show "code_selector_ok sel \<longleftrightarrow> sel = 8" "stack_selector_ok sel \<longleftrightarrow> sel = 0 \<or> sel = 16"
    using low by (auto simp: code_selector_ok_def stack_selector_ok_def names_def lim gdt64_def bit_simps)
qed

lemma stub_resumes:
  assumes "stacked m (stub_sp err s) (map ((gpr s)(RDI := v)) (rev saved) @ ws)"
    and "ws = error_words err @ context_words s"
    and "gpr t RSP = stub_sp err s" and "\<forall>x. within x (stub_sp err s) (stub_bytes err) \<longrightarrow> mem t x = m x"
    and "stack_use c + 160 \<le> 2 ^ 64"
  shows "fold_res (step hw bld c) (map POP (rev saved) @ [STI, IRETQ]) (c_return c t) =
    (if returnable ws then Inr (resumed c v ws s t) else Inl (Fault General_protection))"
proof -
  obtain rest where ws: "ws = [ws ! 0, ws ! 1, ws ! 2, ws ! 3, ws ! 4] @ rest"
    by (cases err) (auto simp: assms(2) error_words_def context_words_def)
  let ?vs = "map ((gpr s)(RDI := v)) (rev saved)"
  have "stacked (mem t) (stub_sp err s) (?vs @ ws)"
    by (rule stacked_cong [OF assms(1)])
      (use assms(2,4) length_words(2) [of err] in \<open>auto simp: stub_bytes_def\<close>)
  then have "stacked (mem t) (gpr t RSP) (?vs @ [ws ! 0, ws ! 1, ws ! 2, ws ! 3, ws ! 4])"
    unfolding assms(3) by (subst (asm) ws) (simp only: append_assoc [symmetric] stacked_append)
  from stub_returns [OF this assms(5)] show ?thesis by (simp add: resumed_def returnable_def)
qed

subsection \<open>What the handlers see and leave\<close>

definition error_code_vectors :: "nat list" where
  "error_code_vectors = [8, 10, 11, 12, 13, 14, 17]"

text \<open>The processor pushes an error code for these exceptions and no other entry.\<close>

definition pushes_error :: "nat \<Rightarrow> u64 option \<Rightarrow> bool" where
  "pushes_error n err \<longleftrightarrow> (err \<noteq> None \<longleftrightarrow> n \<in> set error_code_vectors)"

lemma handler_frame:
  assumes "stacked m (stub_sp err s) (vs @ error_words err @ context_words s)" and "length vs = 15"
    and "pushes_error n err" and "n < 256"
  shows "load_stack m (get_stack (of_nat n) (stub_sp err s)) = context_of s"
proof -
  have inj: "of_nat n = (of_nat k :: u64) \<longleftrightarrow> n = k" if "k < 256" for k
    using that assms(4) by (simp add: word_unat_eq_iff unat_of_nat)
  then have "(of_nat n :: u64) \<in> {8, 10, 11, 12, 13, 14, 17} \<longleftrightarrow> err \<noteq> None"
    using assms(3) inj [of 8] inj [of 10] inj [of 11] inj [of 12] inj [of 13] inj [of 14] inj [of 17]
    by (simp add: pushes_error_def error_code_vectors_def)
  then have "get_stack (of_nat n) (stub_sp err s) = stub_sp err s + 120 + of_nat (8 * length (error_words err))"
    by (cases err) (simp_all add: get_stack_def NB_REGISTERS_PUSHED_BEFORE_CALL_def error_words_def)
  moreover have "stacked m (stub_sp err s + 120 + of_nat (8 * length (error_words err))) (context_words s)"
    using assms(1,2) by (simp add: stacked_append)
  ultimately show ?thesis
    by (simp add: load_stack_def context_words_def stacked_Cons context_of_def add.assoc)
qed

lemma isr_effect_machine [simp]:
  "gpr (isr_effect hw h a s) = gpr s" "gpr (irq_effect hw n rsp s) = gpr s"
proof -
  have w: "gpr (fold (screen_write hw) cs s) = gpr s" for cs and s :: "('a, 'b) processor_scheme"
    by (subst fold_screen_write_update) simp
  show eff: "gpr (isr_effect hw h a s) = gpr s" for s :: "('a, 'b) processor_scheme" and h a
    by (cases h) (simp_all add: isr_effect_def w case_prod_beta Let_def)
  show "gpr (irq_effect hw n rsp s) = gpr s" by (simp add: irq_effect_def eff Let_def split: option.split)
qed

lemma breakpoint_rows: "newlines (breakpoint_text st) = 6" "CHR 0x09 \<notin> set (breakpoint_text st)"
proof -
  have "newlines (numeral_of 16 n) = 0 \<and> CHR 0x09 \<notin> set (numeral_of 16 n)" for n
    using plain_text [of "numeral_of 16 n"] by simp
  then show "newlines (breakpoint_text st) = 6" "CHR 0x09 \<notin> set (breakpoint_text st)"
    by (simp_all add: breakpoint_text_def frame_text_def)
qed

lemma isr_effect_outside:
  fixes s :: "('d, 'z) kernel_state_scheme"
  assumes "rows_ok k s" and "1 \<le> k" and "k \<le> 19"
  shows "outside (mem (isr_effect hw h a s)) = outside (mem s)"
proof (cases "h = Breakpoint_handler")
  case True
  with fold_screen_write_rows [OF assms(1), of "breakpoint_text (load_stack (mem s) a)" hw] assms(3) show ?thesis
    by (simp add: isr_effect_def breakpoint_rows)
next
  case False
  then show ?thesis by (rule isr_effect_steady(2) [OF _ assms])
qed

text \<open>The stack of the stub lies outside the video memory.\<close>

definition stack_apart :: "u64 option \<Rightarrow> ('d, 'z) processor_scheme \<Rightarrow> bool" where
  "stack_apart err s \<longleftrightarrow> (\<forall>x. within x (stub_sp err s) (stub_bytes err) \<longrightarrow> \<not> within x VIDEO_ADDRESS 8000)"

lemma at_call_fields [simp]:
  "mem (at_call n v err m s) = m" "gpr (at_call n v err m s) RDI = v" "gpr (at_call n v err m s) RSI = stub_sp err s"
  "gpr (at_call n v err m s) RSP = stub_sp err s" "interrupt_handlers (at_call n v err m s) = interrupt_handlers s"
  "rows_ok k (at_call n v err m s) = rows_ok k s" "(at_call n v err m s)\<lparr>cpu_if := False\<rparr> = at_call n v err m s"
  "tick (at_call n v err m s) = tick s" "\<not> cpu_if (at_call n v err m s)"
  by (simp_all add: at_call_def rows_ok_def cursor_ok_def)

lemma context_resumed:
  "context_of (resumed c v (context_words s) s t) = context_of s"
  "gpr (resumed c v (context_words s) s t) = (gpr s)(RDI := v)"
proof -
  have b: "bit (push_bit 9 1 :: u64) n \<longleftrightarrow> n = 9" for n by (auto simp add: bit_simps simp del: push_bit_of_1)
  have 9: "set_field 9 (bit w 9) w = w" for w :: u64
    unfolding set_field_def
    by (rule bit_eqI) (auto simp: bit_and_iff bit_or_iff bit_not_iff b simp del: push_bit_of_1)
  have "rflags_word (resumed c v (context_words s) s t) = rflags_word s"
    by (subst rflags_word_def) (simp add: resumed_def context_words_def 9)
  then show "context_of (resumed c v (context_words s) s t) = context_of s"
    by (simp add: context_of_def) (simp add: resumed_def context_words_def)
  show "gpr (resumed c v (context_words s) s t) = (gpr s)(RDI := v)"
    by (auto simp: resumed_def context_words_def fun_eq_iff)
qed

lemma bit_rflags_word [simp]: "bit (rflags_word s) 9 = cpu_if s"
  by (simp add: rflags_word_def set_field_def bit_simps)

lemma resumed_fields [simp]:
  "tick (resumed c v ws s t) = tick t" "cpu_if (resumed c v ws s t) = bit (ws ! 2) 9"
  "mem (resumed c v ws s t) = mem (c_return c t)"
  by (simp_all add: resumed_def)

text \<open>Memory outside the stack of the stub and of the C code it calls.\<close>

lemma c_return_frame:
  assumes "gpr t RSP = stub_sp err s" and "\<not> within x (stub_sp err s - of_nat (stack_use c)) (stack_use c + stub_bytes err)"
    and "stack_use c + 168 \<le> 2 ^ 64"
  shows "mem (c_return c t) x = mem t x" and "\<not> within x (stub_sp err s) (stub_bytes err)"
proof -
  let ?b = "stub_sp err s - of_nat (stack_use c)"
  have bytes: "stub_bytes err \<le> 168" using length_words(2) [of err] by (simp add: stub_bytes_def)
  show "mem (c_return c t) x = mem t x" using assms(1,2) by (simp add: c_return_def within_def)
  have "\<not> within x (?b + of_nat (stack_use c)) (stub_bytes err)"
    by (subst within_add) (use assms(2,3) bytes in \<open>auto simp: within_def\<close>)
  then show "\<not> within x (stub_sp err s) (stub_bytes err)" by simp
qed

subsection \<open>Interrupt requests\<close>

lemma steady_at_call:
  assumes "steady bld hs k m0 g s"
  shows "steady bld hs k m g ((at_call n v err m s)\<lparr>cpu_if := True\<rparr>)"
  using assms by (auto simp: steady_def running_def tables_ok_def) (simp_all add: at_call_def)

lemma irq_call:
  fixes s :: "('d, 'z) processor_scheme" and m :: bytes
  assumes "steady bld hs k m0 g s" and "n < 5"
  defines "a \<equiv> at_call (32 + n) (32 + of_nat n) None m s"
  shows "\<exists>t. step hw bld c (CALL Irq_handler) a = Inr (c_return c t) \<and> gpr t RSP = stub_sp None s
    \<and> outside (mem t) = outside m \<and> steady bld hs k m g (t\<lparr>cpu_if := True\<rparr>)
    \<and> tick t = tick s + (if hs ! (32 + n) = Some Timer_callback then 1 else 0)
    \<and> t\<lparr>cpu_if := True\<rparr> = irq_effect hw (of_nat n) (stub_sp None s) (a\<lparr>cpu_if := True\<rparr>)"
proof -
  let ?n = "of_nat n :: u64" and ?sp = "stub_sp None s"
  let ?e = "irq_effect hw ?n ?sp (a\<lparr>cpu_if := True\<rparr>)"
  have a: "a\<lparr>cpu_if := True, cpu_if := False\<rparr> = a" by (simp add: a_def)
  have st: "steady bld hs k m g (a\<lparr>cpu_if := True\<rparr>)" unfolding a_def by (rule steady_at_call [OF assms(1)])
  have n: "?n < 5" "?n < 224" "unat ?n = n" using assms(2) by (simp_all add: word_less_nat_alt unat_of_nat)
  have e: "steady bld hs k m g ?e" by (rule irq_effect_steady [OF st n(1)])
  have len: "length (interrupt_handlers (a\<lparr>cpu_if := True\<rparr>)) = 256" "interrupt_handlers s = hs"
    using st by (auto simp: steady_def running_def tables_ok_def a_def)
  have "(irq_entry hw ?n ?sp (a\<lparr>cpu_if := True\<rparr>) :: ('d, 'z) processor_scheme stop + _) = Inr ?e"
    by (rule irq_entry_eq [OF len(1) n(2)])
  then obtain t where t: "(irq_handler hw (32 + ?n) ?sp a :: ('d, 'z) processor_scheme stop + _) = Inr t" "?e = t\<lparr>cpu_if := True\<rparr>"
    unfolding irq_entry_def a by (auto simp: res_bind_Inr_iff)
  have "gpr t = gpr ?e" "tick t = tick ?e" "mem t = mem ?e" unfolding t(2) by simp_all
  moreover have "gpr ?e RSP = stub_sp None s" "tick ?e = tick s + (if hs ! (32 + n) = Some Timer_callback then 1 else 0)"
    by (simp_all only: isr_effect_machine irq_effect_fields n(3)) (simp_all add: a_def len(2))
  moreover have "outside (mem ?e) = outside m" using e by (simp add: steady_def running_def)
  moreover have "step hw bld c (CALL Irq_handler) a = Inr (c_return c t)"
    using t(1) by (simp add: a_def)
  ultimately show ?thesis using e unfolding t(2) by (intro exI [of _ t]) simp
qed

text \<open>The outcome of a request: \<open>m\<close> is memory at the call, \<open>t\<close> what the handler leaves.\<close>

lemma irq_outcome:
  fixes s :: "('d, 'z) processor_scheme"
  assumes "steady bld hs k m0 g s" and "n < 5" and "linked bld code" and "stack_apart None s"
    and "stack_use c + 168 \<le> 2 ^ 64" and "segments_ok s"
  defines "v \<equiv> 32 + of_nat n"
  shows "\<exists>m t. interrupt hw bld c code (32 + n) None s = Inr (resumed c v (context_words s) s t)
    \<and> (\<forall>x. \<not> within x (stub_sp None s) (stub_bytes None) \<longrightarrow> m x = mem s x)
    \<and> gpr t RSP = stub_sp None s \<and> outside (mem t) = outside m \<and> steady bld hs k m g (t\<lparr>cpu_if := True\<rparr>)
    \<and> tick t = tick s + (if hs ! (32 + n) = Some Timer_callback then 1 else 0)
    \<and> t\<lparr>cpu_if := True\<rparr> = irq_effect hw (of_nat n) (stub_sp None s) ((at_call (32 + n) v None m s)\<lparr>cpu_if := True\<rparr>)"
proof -
  let ?v = "32 + of_nat n :: u64" and ?ws = "context_words s"
  have tab: "tables_ok bld s" "cpu_if s" using assms(1) by (simp_all add: steady_def running_def)
  have none: "error_words None @ ?ws = ?ws" by (simp add: error_words_def)
  from run_stub_call [of hw bld c ?v Irq_handler "32 + n" None s, unfolded none] obtain m where
    run: "interrupt hw bld c code (32 + n) None s =
      res_bind (step hw bld c (CALL Irq_handler) (at_call (32 + n) ?v None m s))
        (fold_res (step hw bld c) (map POP (rev saved) @ [STI, IRETQ]))"
    and m: "stacked m (stub_sp None s) (map ((gpr s)(RDI := ?v)) (rev saved) @ ?ws)"
      "\<forall>x. \<not> within x (stub_sp None s) (stub_bytes None) \<longrightarrow> m x = mem s x"
    unfolding interrupt_irq [OF tab(1) assms(3,2)] by blast
  from irq_call [OF assms(1,2), of hw c m] obtain t where
    t: "step hw bld c (CALL Irq_handler) (at_call (32 + n) ?v None m s) = Inr (c_return c t)" "gpr t RSP = stub_sp None s"
      "outside (mem t) = outside m" "steady bld hs k m g (t\<lparr>cpu_if := True\<rparr>)"
      "tick t = tick s + (if hs ! (32 + n) = Some Timer_callback then 1 else 0)"
      "t\<lparr>cpu_if := True\<rparr> = irq_effect hw (of_nat n) (stub_sp None s) ((at_call (32 + n) ?v None m s)\<lparr>cpu_if := True\<rparr>)" by blast
  have keep: "\<forall>x. within x (stub_sp None s) (stub_bytes None) \<longrightarrow> mem t x = m x"
    using assms(4) outsideD [OF t(3)] by (simp add: stack_apart_def)
  have res: "interrupt hw bld c code (32 + n) None s = Inr (resumed c ?v ?ws s t)"
    unfolding run t(1) res_bind_simps
    by (subst stub_resumes [OF m(1) none [symmetric] t(2) keep]) (use assms(5,6) in \<open>simp_all add: returnable_context\<close>)
  show ?thesis unfolding v_def using res m(2) t(2-6) by blast
qed

lemma irq_resumes:
  fixes s :: "('d, 'z) processor_scheme"
  assumes "steady bld hs k m0 g s" and "n < 5" and "linked bld code" and "stack_apart None s"
    and "stack_use c + 168 \<le> 2 ^ 64" and "segments_ok s"
  shows "\<exists>s'. interrupt hw bld c code (32 + n) None s = Inr s' \<and> context_of s' = context_of s
    \<and> gpr s' = (gpr s)(RDI := 32 + of_nat n) \<and> steady bld hs k (mem s') g s'
    \<and> tick s' = tick s + (if hs ! (32 + n) = Some Timer_callback then 1 else 0)
    \<and> (\<forall>x. \<not> within x (stub_sp None s - of_nat (stack_use c)) (stack_use c + stub_bytes None)
         \<and> \<not> within x VIDEO_ADDRESS 8000 \<longrightarrow> mem s' x = mem s x)"
proof -
  let ?v = "32 + of_nat n :: u64" and ?ws = "context_words s"
  have on: "cpu_if s" using assms(1) by (simp add: steady_def running_def)
  from irq_outcome [OF assms, of hw] obtain m and t :: "('d, 'z) processor_scheme" where
    res: "interrupt hw bld c code (32 + n) None s = Inr (resumed c ?v ?ws s t)"
    and m: "\<forall>x. \<not> within x (stub_sp None s) (stub_bytes None) \<longrightarrow> m x = mem s x"
    and t: "gpr t RSP = stub_sp None s" "outside (mem t) = outside m" "steady bld hs k m g (t\<lparr>cpu_if := True\<rparr>)"
      "tick t = tick s + (if hs ! (32 + n) = Some Timer_callback then 1 else 0)" by blast
  have "mem (resumed c ?v ?ws s t) x = mem s x"
    if "\<not> within x (stub_sp None s - of_nat (stack_use c)) (stack_use c + stub_bytes None)" "\<not> within x VIDEO_ADDRESS 8000" for x
    using c_return_frame [OF t(1) that(1) assms(5)] outsideD [OF t(2) that(2)] m by simp
  moreover have "steady bld hs k (mem (resumed c ?v ?ws s t)) g (resumed c ?v ?ws s t)"
    using t(3) on
    by (auto simp: steady_def running_def tables_ok_def rows_ok_def cursor_ok_def resumed_def context_words_def)
  ultimately show ?thesis
    using res t(4) context_resumed [of c ?v s t] by (intro exI [of _ "resumed c ?v ?ws s t"]) simp
qed

text \<open>
  C9. An interrupt request resumes the code it interrupted: from any state of the running kernel,
  the gate, the stub, the handler and the return leave instruction pointer, code segment, flags,
  stack pointer and stack segment as they were, interrupts enabled and the kernel in order; memory
  has changed in the stack below the interrupted stack pointer and in the video memory only, and a
  request on a line with the timer's handler has counted one tick. All registers are as they were
  but one: \<^verbatim>\<open>rdi\<close> holds the number of the interrupt, because the stub loads it before it saves the
  registers. Hypotheses: the stubs are linked where the gates point, the stack lies outside
  the video memory, and the interrupted code runs in segments that \<^verbatim>\<open>iretq\<close> returns to, those of the
  kernel.
\<close>

theorem irq_resumes_interrupted_code:
  assumes "steady bld hs k m0 g s" and "n < 5" and "linked bld code" and "stack_apart None s"
    and "stack_use c + 168 \<le> 2 ^ 64" and "segments_ok s"
  shows "\<exists>s'. interrupt hw bld c code (32 + n) None s = Inr s' \<and> context_of s' = context_of s
    \<and> gpr s' = (gpr s)(RDI := 32 + of_nat n) \<and> steady bld hs k (mem s') g s'
    \<and> tick s' = tick s + (if hs ! (32 + n) = Some Timer_callback then 1 else 0)
    \<and> (\<forall>x. \<not> within x (stub_sp None s - of_nat (stack_use c)) (stack_use c + stub_bytes None)
         \<and> \<not> within x VIDEO_ADDRESS 8000 \<longrightarrow> mem s' x = mem s x)"
  by (rule irq_resumes [OF assms])

subsection \<open>A machine for the witnesses\<close>

definition sample_link :: build where
  "sample_link = \<lparr>addr_idt = 0x1000, addr_isr = of_nat, addr_irq = (\<lambda>n. 32 + of_nat n), isr_panic_line = 141,
     build_date = [], build_time = []\<rparr>"

definition sample_code :: "u64 \<Rightarrow> instr list" where
  "sample_code a = (if a < 32 then def_isr_handler (unat a) else def_irq_handler (unat a - 32))"

definition sample_compiled :: compiled where
  "sample_compiled = \<lparr>scratch_gpr = (\<lambda>_. 77), scratch_stack = (\<lambda>_. 78), stack_use = 4096\<rparr>"

definition sample_machine :: "(u16 \<times> u8) list processor" where
  "sample_machine = \<lparr>dev = [], mem = (\<lambda>_. 0), screen_scheme = 7, framebuffer = VIDEO_ADDRESS, screen_col = 0, screen_row = 0,
     idt = map (\<lambda>k. gate_for (of_nat k)) [0..<256], idt_reg = \<lparr>length_field = 4095, base_field = 0x1000\<rparr>,
     cpu_idtr = Some \<lparr>length_field = 4095, base_field = 0x1000\<rparr>, cpu_if = True,
     interrupt_handlers = handlers_keyboard, tick = 41,
     mmap_state = \<lparr>memory_area = 0, g_kernel_start = 0, g_kernel_end = 0, g_multiboot_start = 0, g_multiboot_end = 0,
       next_free_frame = 1\<rparr>,
     gpr = (\<lambda>r. if r = RSP then 0x204FF8 else 5), reg_rip = 0x101234, reg_cs = 8, reg_ss = 0, reg_rflags = 0x246\<rparr>"

lemma sample_linked: "linked sample_link sample_code"
  unfolding linked_def
proof (intro conjI allI impI)
  fix n :: nat assume "n < 32"
  then have "(of_nat n :: u64) < 32" "unat (of_nat n :: u64) = n" by (simp_all add: word_less_nat_alt unat_of_nat)
  then show "sample_code (addr_isr sample_link n) = def_isr_handler n" by (simp add: sample_link_def sample_code_def)
next
  fix n :: nat assume "n < 5"
  then have "unat (32 + of_nat n :: u64) = 32 + n" by (simp add: unat_word_ariths unat_of_nat)
  moreover from this have "\<not> (32 + of_nat n :: u64) < 32" by (simp add: word_less_nat_alt)
  ultimately show "sample_code (addr_irq sample_link n) = def_irq_handler n" by (simp add: sample_link_def sample_code_def)
qed

lemma sample_steady: "steady sample_link handlers_keyboard 1 (\<lambda>_. 0) (mmap_state sample_machine) sample_machine"
  by (simp add: steady_def running_def tables_ok_def sample_machine_def sample_link_def rows_ok_def cursor_ok_def)
    (simp add: handlers_defs)

lemma sample_stack_apart: "stack_apart err sample_machine"
proof -
  have sp: "stub_sp err sample_machine = 0x204FF0 - of_nat (stub_bytes err)"
    by (simp add: stub_sp_def stub_bytes_def sample_machine_def)
  have bytes: "stub_bytes err \<le> 168" using length_words(2) [of err] by (simp add: stub_bytes_def)
  have "\<not> within x VIDEO_ADDRESS 8000" if x: "within x (stub_sp err sample_machine) (stub_bytes err)" for x
  proof -
    have "unat (stub_sp err sample_machine) = 0x204FF0 - stub_bytes err"
      using bytes by (simp add: sp unat_sub_if_size unat_of_nat word_size word_le_nat_alt)
    then have "0x204000 \<le> unat x" "unat x < 0x205000"
      using x bytes by (auto simp: within_def unat_sub_if_size word_size split: if_splits)
    then show ?thesis by (auto simp: within_def unat_sub_if_size word_size VIDEO_ADDRESS_def split: if_splits)
  qed
  then show ?thesis by (simp add: stack_apart_def)
qed

lemma sample_segments: "segments_ok sample_machine"
  by (simp add: segments_ok_def selectors sample_machine_def)

theorem irq_resumes_interrupted_code_witness:
  "\<exists>s'. interrupt (log_hw (\<lambda>_. 0)) sample_link sample_compiled sample_code 32 None sample_machine = Inr s'
    \<and> reg_rip s' = 0x101234 \<and> gpr s' RAX = 5 \<and> gpr s' RSP = 0x204FF8 \<and> gpr s' RDI = 32 \<and> tick s' = 42"
proof -
  from irq_resumes_interrupted_code [OF sample_steady _ sample_linked sample_stack_apart _ sample_segments, of 0 sample_compiled "log_hw (\<lambda>_. 0)"]
  obtain s' where s': "interrupt (log_hw (\<lambda>_. 0)) sample_link sample_compiled sample_code 32 None sample_machine = Inr s'"
    "context_of s' = context_of sample_machine" "gpr s' = (gpr sample_machine)(RDI := 32)"
    "tick s' = tick sample_machine + (if handlers_keyboard ! 32 = Some Timer_callback then 1 else 0)"
    by (auto simp: sample_compiled_def)
  then show ?thesis
    by (intro exI [of _ s']) (simp add: context_of_def sample_machine_def handlers_defs)
qed

subsection \<open>Exceptions\<close>

text \<open>Every gate of the kernel leads to the code segment that the start-up code sets up.\<close>

lemma gate_code_segment: "ucast (selector (gate_for a)) = gdt64_code" "code_selector_ok (selector (gate_for a))"
  by (simp_all add: gate_for_def gdt64_code_def selectors)

lemma at_call_gate:
  assumes "tables_ok bld s" and "n < 32"
  shows "at_call n v err m s = s\<lparr>mem := m, gpr := gpr (at_call n v err m s), reg_rip := addr_isr bld n, reg_cs := 8,
    cpu_if := False\<rparr>"
proof -
  have "idt s ! n = gate_for (addr_isr bld n)" using assms by (simp add: tables_ok_def)
  moreover have "selector (gate_for a) = 8" for a by (simp add: gate_for_def)
  ultimately show ?thesis by (simp add: at_call_def)
qed

text \<open>
  C10. An exception that no handler takes shows where it happened: whether or not the processor has
  pushed an error code, the five values of the panic message are the instruction pointer, code
  segment, flags, stack pointer and stack segment of the interrupted code, below the number and
  the name of the exception; then the machine halts with interrupts disabled. Only the stack of the
  stub has changed before the message is written. Hypotheses: the tables are in place, and the
  processor pushes an error code for the seven documented exceptions.
\<close>

theorem exception_shows_context:
  assumes "tables_ok bld s" and "linked bld code" and "n < 32" and "pushes_error n err"
    and "interrupt_handlers s ! n = None" and "unat (isr_panic_line bld) < 2 ^ 31"
  shows "\<exists>m gs. interrupt hw bld c code n err s = Inl (Halted (irq_disable
        (fold (screen_write hw) (exception_text bld n (context_of s) @ halt_text)
          (s\<lparr>mem := m, gpr := gs, reg_rip := addr_isr bld n, reg_cs := 8, cpu_if := False\<rparr>))))
    \<and> (\<forall>x. \<not> within x (stub_sp err s) (stub_bytes err) \<longrightarrow> m x = mem s x)"
proof -
  let ?v = "of_nat n :: u64"
  from run_stub_call [of hw bld c ?v Isr_handler n err s] obtain m where
    run: "interrupt hw bld c code n err s = res_bind (step hw bld c (CALL Isr_handler) (at_call n ?v err m s))
        (fold_res (step hw bld c) (map POP (rev saved) @ [STI, IRETQ]))"
    and m: "stacked m (stub_sp err s) (map ((gpr s)(RDI := ?v)) (rev saved) @ error_words err @ context_words s)"
      "\<forall>x. \<not> within x (stub_sp err s) (stub_bytes err) \<longrightarrow> m x = mem s x"
    unfolding interrupt_isr [OF assms(1-3)] by blast
  have n: "unat ?v = n" "unat ?v < 32" using assms(3) by (simp_all add: unat_of_nat)
  have frame: "load_stack m (get_stack ?v (stub_sp err s)) = context_of s"
    by (rule handler_frame [OF m(1) _ assms(4)]) (use assms(3) in simp_all)
  let ?a = "at_call n ?v err m s"
  have gate: "?a = s\<lparr>mem := m, gpr := gpr ?a, reg_rip := addr_isr bld n, reg_cs := 8, cpu_if := False\<rparr>"
    by (rule at_call_gate [OF assms(1,3)])
  have "isr_handler hw bld ?v (stub_sp err s) ?a = Inl (Halted (irq_disable
      (fold (screen_write hw) (exception_text bld n (context_of s) @ halt_text) ?a)))"
    by (subst isr_handler_unhandled) (use assms n frame in \<open>simp_all add: tables_ok_def\<close>)
  then have "interrupt hw bld c code n err s = Inl (Halted (irq_disable
      (fold (screen_write hw) (exception_text bld n (context_of s) @ halt_text) ?a)))"
    unfolding run by simp
  with gate m(2) show ?thesis by metis
qed

theorem exception_shows_context_witness:
  "\<exists>m gs. interrupt (log_hw (\<lambda>_. 0)) sample_link sample_compiled sample_code 14 (Some 2) sample_machine = Inl (Halted (irq_disable
        (fold (screen_write (log_hw (\<lambda>_. 0))) (exception_text sample_link 14
           \<lparr>instruction_pointer = 0x101234, code_segment = 8, cpu_flags = 0x246, stack_pointer = 0x204FF8,
             stack_segment = 0\<rparr> @ halt_text)
          (sample_machine\<lparr>mem := m, gpr := gs, reg_rip := 14, reg_cs := 8, cpu_if := False\<rparr>))))"
proof -
  have tab: "tables_ok sample_link sample_machine" "interrupt_handlers sample_machine = handlers_keyboard"
    using sample_steady by (simp_all add: steady_def running_def)
  have "interrupt_handlers sample_machine ! 14 = None" unfolding tab(2) by (simp add: handlers_defs)
  moreover have "pushes_error 14 (Some 2)" by (simp add: pushes_error_def error_code_vectors_def)
  moreover have "context_of sample_machine = \<lparr>instruction_pointer = 0x101234, code_segment = 8, cpu_flags = 0x246,
      stack_pointer = 0x204FF8, stack_segment = 0\<rparr>"
    by (simp add: context_of_def rflags_word_def set_field_def sample_machine_def)
  ultimately show ?thesis
    using exception_shows_context [OF tab(1) sample_linked, of 14 "Some 2" "log_hw (\<lambda>_. 0)" sample_compiled]
    by (simp add: sample_link_def) blast
qed

text \<open>An exception with a handler: what is left to resume.\<close>

lemma exception_handled:
  assumes "tables_ok bld s" and "linked bld code" and "n < 32" and "interrupt_handlers s ! n = Some h"
    and "rows_ok k s" and "1 \<le> k" and "k \<le> 19" and "stack_apart err s" and "stack_use c + 168 \<le> 2 ^ 64"
    and "ws = error_words err @ context_words s"
  shows "\<exists>m. interrupt hw bld c code n err s = (if returnable ws
        then Inr (resumed c (of_nat n) ws s
          (isr_effect hw h (get_stack (of_nat n) (stub_sp err s)) (at_call n (of_nat n) err m s)))
        else Inl (Fault General_protection))
    \<and> stacked m (stub_sp err s) (map ((gpr s)(RDI := of_nat n)) (rev saved) @ ws)
    \<and> (\<forall>x. \<not> within x (stub_sp err s) (stub_bytes err) \<longrightarrow> m x = mem s x)"
proof -
  let ?v = "of_nat n :: u64"
  from run_stub_call [of hw bld c ?v Isr_handler n err s, folded assms(10)] obtain m where
    run: "interrupt hw bld c code n err s = res_bind (step hw bld c (CALL Isr_handler) (at_call n ?v err m s))
        (fold_res (step hw bld c) (map POP (rev saved) @ [STI, IRETQ]))"
    and m: "stacked m (stub_sp err s) (map ((gpr s)(RDI := ?v)) (rev saved) @ ws)"
      "\<forall>x. \<not> within x (stub_sp err s) (stub_bytes err) \<longrightarrow> m x = mem s x"
    unfolding interrupt_isr [OF assms(1-3)] by blast
  let ?a = "at_call n ?v err m s"
  let ?t = "isr_effect hw h (get_stack ?v (stub_sp err s)) ?a"
  have "unat ?v = n" using assms(3) by (simp add: unat_of_nat)
  then have call: "step hw bld c (CALL Isr_handler) ?a = Inr (c_return c ?t)"
    using assms(1,3,4) by (simp add: isr_handler_def tables_ok_def call_isr_eq Let_def)
  have "rows_ok k ?a" using assms(5) by simp
  from isr_effect_outside [OF this assms(6,7)] have out: "outside (mem ?t) = outside m" by simp
  have "\<forall>x. within x (stub_sp err s) (stub_bytes err) \<longrightarrow> mem ?t x = m x"
    using assms(8) outsideD [OF out] by (simp add: stack_apart_def)
  from stub_resumes [OF m(1) assms(10) _ this, of c hw bld] have "interrupt hw bld c code n err s =
      (if returnable ws then Inr (resumed c ?v ws s ?t) else Inl (Fault General_protection))"
    unfolding run call res_bind_simps using assms(9) by simp
  with m show ?thesis by blast
qed

text \<open>
  C37. A breakpoint shows the context of the interrupted code and resumes it: the text with its
  five values is written to the screen, and the context and all registers are as they were, but
  \<^verbatim>\<open>rdi\<close>, which holds 3. Apart from the stack below the interrupted stack pointer, memory is what writing the text
  leaves. Hypotheses: the tables are in place, the cursor is not too far below the screen,
  the stack lies outside the video memory, and the interrupted code runs in the segments of the kernel.
\<close>

theorem breakpoint_shows_context_and_resumes:
  assumes "tables_ok bld s" and "linked bld code" and "rows_ok k s" and "1 \<le> k" and "k \<le> 19"
    and "stack_apart None s" and "stack_use c + 168 \<le> 2 ^ 64" and "segments_ok s"
  shows "\<exists>s' m gs. interrupt hw bld c code 3 None s = Inr s' \<and> context_of s' = context_of s
    \<and> gpr s' = (gpr s)(RDI := 3)
    \<and> (\<forall>x. \<not> within x (stub_sp None s) (stub_bytes None) \<longrightarrow> m x = mem s x)
    \<and> (\<forall>x. \<not> within x (stub_sp None s - of_nat (stack_use c)) (stack_use c + stub_bytes None) \<longrightarrow>
        mem s' x = mem (fold (screen_write hw) (breakpoint_text (context_of s))
          (s\<lparr>mem := m, gpr := gs, reg_rip := addr_isr bld 3, reg_cs := 8, cpu_if := False\<rparr>)) x)"
proof -
  let ?ws = "context_words s" and ?h = Breakpoint_handler
  have ws: "?ws = error_words None @ context_words s" by (simp add: error_words_def)
  have h: "interrupt_handlers s ! 3 = Some ?h" using assms(1) by (simp add: tables_ok_def)
  from exception_handled [OF assms(1,2) _ h assms(3-7) ws, of hw] obtain m where
    res: "interrupt hw bld c code 3 None s =
        Inr (resumed c 3 ?ws s (isr_effect hw ?h (get_stack 3 (stub_sp None s)) (at_call 3 3 None m s)))"
    and m: "stacked m (stub_sp None s) (map ((gpr s)(RDI := 3)) (rev saved) @ error_words None @ ?ws)"
      "\<forall>x. \<not> within x (stub_sp None s) (stub_bytes None) \<longrightarrow> m x = mem s x"
    using assms(8) by (auto simp: error_words_def returnable_context)
  let ?a = "at_call 3 3 None m s"
  have frame: "load_stack m (get_stack 3 (stub_sp None s)) = context_of s"
    using handler_frame [OF m(1), of 3] by (simp add: pushes_error_def error_code_vectors_def)
  have gate: "?a = s\<lparr>mem := m, gpr := gpr ?a, reg_rip := addr_isr bld 3, reg_cs := 8, cpu_if := False\<rparr>"
    by (rule at_call_gate [OF assms(1)]) simp
  let ?t = "isr_effect hw ?h (get_stack 3 (stub_sp None s)) ?a"
  have t: "?t = fold (screen_write hw) (breakpoint_text (context_of s)) ?a" "gpr ?t RSP = stub_sp None s"
    by (simp add: isr_effect_def frame) simp
  have "mem (resumed c 3 ?ws s ?t) x = mem ?t x"
    if "\<not> within x (stub_sp None s - of_nat (stack_use c)) (stack_use c + stub_bytes None)" for x
    using c_return_frame(1) [OF t(2) that assms(7)] by simp
  with res context_resumed [of c 3 s ?t] m(2) t(1) gate show ?thesis by metis
qed

theorem breakpoint_shows_context_and_resumes_witness:
  "\<exists>s'. interrupt (log_hw (\<lambda>_. 0)) sample_link sample_compiled sample_code 3 None sample_machine = Inr s'
    \<and> reg_rip s' = 0x101234 \<and> gpr s' RSP = 0x204FF8 \<and> gpr s' RAX = 5 \<and> gpr s' RDI = 3"
proof -
  have tab: "tables_ok sample_link sample_machine" "rows_ok 1 sample_machine"
    using sample_steady by (simp_all add: steady_def running_def)
  from breakpoint_shows_context_and_resumes [OF tab(1) sample_linked tab(2) _ _ sample_stack_apart _ sample_segments, of sample_compiled "log_hw (\<lambda>_. 0)"]
  obtain s' where s': "interrupt (log_hw (\<lambda>_. 0)) sample_link sample_compiled sample_code 3 None sample_machine = Inr s'"
    "context_of s' = context_of sample_machine" "gpr s' = (gpr sample_machine)(RDI := 3)"
    by (auto simp: sample_compiled_def)
  then show ?thesis by (intro exI [of _ s']) (simp add: context_of_def sample_machine_def)
qed

text \<open>
  C40. An exception with an error code cannot be resumed: if a handler is registered for one of
  them and returns, the stub leaves the error code on the stack, and \<^verbatim>\<open>iretq\<close> takes it for the
  instruction pointer, the instruction pointer for the code segment and the stack pointer for the
  stack segment. The processor raises a general protection exception instead of returning, unless
  the low 16 bits of the two happen to be selectors that it accepts, 8 for the code and 0 or 16 for
  the stack; then it goes on at the error code, with the flags as the stack pointer. (That the
  instruction pointer has to be canonical is not checked by the model.)
\<close>

theorem error_code_prevents_return:
  assumes "tables_ok bld s" and "linked bld code" and "n < 32" and "interrupt_handlers s ! n = Some h"
    and "rows_ok k s" and "1 \<le> k" and "k \<le> 19" and "stack_apart (Some e) s" and "stack_use c + 168 \<le> 2 ^ 64"
  shows "if ucast (reg_rip s) = (8 :: u16) \<and> ucast (gpr s RSP) \<in> {0, 16 :: u16}
    then \<exists>s'. interrupt hw bld c code n (Some e) s = Inr s' \<and> reg_rip s' = e \<and> gpr s' RSP = rflags_word s
    else interrupt hw bld c code n (Some e) s = Inl (Fault General_protection)"
  using exception_handled [OF assms refl, of hw]
  by (auto simp: resumed_def returnable_def selectors error_words_def context_words_def)

theorem error_code_prevents_return_witness:
  "interrupt (log_hw (\<lambda>_. 0)) sample_link sample_compiled sample_code 14 (Some 2)
      (sample_machine\<lparr>interrupt_handlers := handlers_keyboard[14 := Some Timer_callback]\<rparr>) = Inl (Fault General_protection)
    \<and> (\<exists>s'. interrupt (log_hw (\<lambda>_. 0)) sample_link sample_compiled sample_code 14 (Some 2)
      (sample_machine\<lparr>interrupt_handlers := handlers_keyboard[14 := Some Timer_callback], reg_rip := 0x110008,
         gpr := (gpr sample_machine)(RSP := 0x210000)\<rparr>) = Inr s' \<and> reg_rip s' = 2)"
proof -
  let ?s = "sample_machine\<lparr>interrupt_handlers := handlers_keyboard[14 := Some Timer_callback]\<rparr>"
  let ?u = "?s\<lparr>reg_rip := 0x110008, gpr := (gpr sample_machine)(RSP := 0x210000)\<rparr>"
  have tab: "tables_ok sample_link t" "rows_ok 1 t" "interrupt_handlers t ! 14 = Some Timer_callback" if "t = ?s \<or> t = ?u" for t
    using sample_steady that by (auto simp: steady_def running_def tables_ok_def rows_ok_def cursor_ok_def handlers_defs)
  have apart: "stack_apart (Some 2) ?s"
    using sample_stack_apart [of "Some 2"] by (simp add: stack_apart_def stub_sp_def)
  have apart': "stack_apart (Some 2) ?u"
    unfolding stack_apart_def
  proof (intro allI impI)
    fix x assume "within x (stub_sp (Some 2) ?u) (stub_bytes (Some 2))"
    then have "0x20ff00 \<le> unat x" "unat x < 0x210000"
      by (auto simp: stub_sp_def stub_bytes_def error_words_def within_def unat_sub_if_size word_size split: if_splits)
    then show "\<not> within x VIDEO_ADDRESS 8000"
      by (auto simp: within_def unat_sub_if_size word_size VIDEO_ADDRESS_def split: if_splits)
  qed
  have room: "stack_use sample_compiled + 168 \<le> 2 ^ 64" by (simp add: sample_compiled_def)
  have result: "if ucast (reg_rip t) = (8 :: u16) \<and> ucast (gpr t RSP) \<in> {0, 16 :: u16}
      then \<exists>s'. interrupt (log_hw (\<lambda>_. 0)) sample_link sample_compiled sample_code 14 (Some 2) t = Inr s'
        \<and> reg_rip s' = 2 \<and> gpr s' RSP = rflags_word t
      else interrupt (log_hw (\<lambda>_. 0)) sample_link sample_compiled sample_code 14 (Some 2) t = Inl (Fault General_protection)"
    if "t = ?s \<or> t = ?u" "stack_apart (Some 2) t" for t
    by (rule error_code_prevents_return [OF tab(1) [OF that(1)] sample_linked _ tab(3,2) [OF that(1)] _ _ that(2) room]) simp_all
  have "\<not> (ucast (reg_rip ?s) = (8 :: u16))" by (simp add: sample_machine_def)
  with result [OF disjI1 [OF refl] apart]
  have "interrupt (log_hw (\<lambda>_. 0)) sample_link sample_compiled sample_code 14 (Some 2) ?s = Inl (Fault General_protection)"
    by (simp only: simp_thms if_False)
  moreover have "ucast (reg_rip ?u) = (8 :: u16)" "ucast (gpr ?u RSP) \<in> {0, 16 :: u16}" by simp_all
  with result [OF disjI2 [OF refl] apart']
  have "\<exists>s'. interrupt (log_hw (\<lambda>_. 0)) sample_link sample_compiled sample_code 14 (Some 2) ?u = Inr s' \<and> reg_rip s' = 2"
    by (simp only: simp_thms if_True) blast
  ultimately show ?thesis by simp
qed

subsection \<open>Sequences of requests\<close>

text \<open>
  \<open>undisturbed\<close>: what an interrupt request leaves alone of the interrupted code.
\<close>

definition undisturbed :: "('d, 'z) processor_scheme \<Rightarrow> ('d, 'z) processor_scheme \<Rightarrow> bool" where
  "undisturbed s s' \<longleftrightarrow> context_of s' = context_of s \<and> (\<forall>r. r \<noteq> RDI \<longrightarrow> gpr s' r = gpr s r)"

lemma undisturbed_trans: "undisturbed s s' \<Longrightarrow> undisturbed s' s'' \<Longrightarrow> undisturbed s s''"
  by (simp add: undisturbed_def)

lemma undisturbed_stack: "undisturbed s s' \<Longrightarrow> stack_apart err s' = stack_apart err s"
  by (simp add: undisturbed_def stack_apart_def stub_sp_def)

lemma undisturbed_fields:
  assumes "undisturbed s s'"
  shows "reg_rip s' = reg_rip s" and "reg_cs s' = reg_cs s" and "rflags_word s' = rflags_word s" and "reg_ss s' = reg_ss s"
    and "gpr s' RSP = gpr s RSP" and "\<And>r. r \<noteq> RDI \<Longrightarrow> gpr s' r = gpr s r"
  using assms by (simp_all add: undisturbed_def context_of_def)

lemma undisturbed_segments: "undisturbed s s' \<Longrightarrow> segments_ok s' = segments_ok s"
  by (simp add: undisturbed_def context_of_def segments_ok_def)

definition timer_lines :: "isr_t option list \<Rightarrow> nat list \<Rightarrow> nat" where
  "timer_lines hs ns = length (filter (\<lambda>n. hs ! (32 + n) = Some Timer_callback) ns)"

text \<open>
  Any number of interrupt requests, on any lines, resume the interrupted code: it finds its
  context and all registers but \<^verbatim>\<open>rdi\<close> as they were, the kernel stays in order, and the timer has
  counted the requests on its lines, modulo \<open>2 ^ 32\<close>. Hypotheses as for one request.
\<close>

theorem irq_sequence_resumes:
  fixes s :: "('d, 'z) processor_scheme"
  assumes "steady bld hs k m0 g s" and "list_all (\<lambda>n. n < 5) ns" and "linked bld code" and "stack_apart None s"
    and "stack_use c + 168 \<le> 2 ^ 64" and "segments_ok s"
  shows "\<exists>s'. fold_res (\<lambda>n. interrupt hw bld c code (32 + n) None) ns s = Inr s' \<and> undisturbed s s'
    \<and> steady bld hs k (mem s') g s' \<and> tick s' = tick s + of_nat (timer_lines hs ns)"
  using assms(1,2,4,6)
proof (induction ns arbitrary: s m0)
  case Nil
  then have "steady bld hs k (mem s) g s" by (simp add: steady_def running_def)
  then show ?case by (simp add: undisturbed_def timer_lines_def)
next
  case (Cons n ns)
  then have n: "n < 5" and rest: "list_all (\<lambda>n. n < 5) ns" by simp_all
  from irq_resumes [OF Cons.prems(1) n assms(3) Cons.prems(3) assms(5) Cons.prems(4), of hw] obtain s' where
    s': "interrupt hw bld c code (32 + n) None s = Inr s'" "undisturbed s s'" "steady bld hs k (mem s') g s'"
      "tick s' = tick s + (if hs ! (32 + n) = Some Timer_callback then 1 else 0)"
    by (auto simp: undisturbed_def)
  from Cons.IH [OF s'(3) rest] Cons.prems(3,4) undisturbed_stack [OF s'(2)] undisturbed_segments [OF s'(2)] obtain s'' where
    s'': "fold_res (\<lambda>n. interrupt hw bld c code (32 + n) None) ns s' = Inr s''" "undisturbed s' s''"
      "steady bld hs k (mem s'') g s''" "tick s'' = tick s' + of_nat (timer_lines hs ns)" by blast
  have "tick s'' = tick s + of_nat (timer_lines hs (n # ns))" using s'(4) s''(4) by (simp add: timer_lines_def)
  moreover have "fold_res (\<lambda>n. interrupt hw bld c code (32 + n) None) (n # ns) s = Inr s''"
    using s'(1) s''(1) by simp
  ultimately show ?case using undisturbed_trans [OF s'(2) s''(2)] s''(3) by blast
qed

theorem irq_sequence_resumes_witness:
  "\<exists>s'. fold_res (\<lambda>n. interrupt (log_hw (\<lambda>_. 0)) sample_link sample_compiled sample_code (32 + n) None) [0, 1, 0] sample_machine
      = Inr s' \<and> reg_rip s' = 0x101234 \<and> gpr s' RAX = 5 \<and> tick s' = 43"
proof -
  from irq_sequence_resumes [OF sample_steady _ sample_linked sample_stack_apart _ sample_segments, of "[0, 1, 0]" sample_compiled "log_hw (\<lambda>_. 0)"]
  obtain s' where s': "fold_res (\<lambda>n. interrupt (log_hw (\<lambda>_. 0)) sample_link sample_compiled sample_code (32 + n) None) [0, 1, 0]
      sample_machine = Inr s'" "undisturbed sample_machine s'"
    "tick s' = tick sample_machine + of_nat (timer_lines handlers_keyboard [0, 1, 0])"
    by (auto simp: sample_compiled_def)
  moreover have "timer_lines handlers_keyboard [0, 1, 0] = 2" by (simp add: timer_lines_def handlers_defs)
  ultimately show ?thesis
    by (intro exI [of _ s']) (simp add: undisturbed_def context_of_def sample_machine_def)
qed

end
