(* ===== verification/Nesting.thy ===== *)
theory Nesting
  imports Stubs
begin

text \<open>
  Interrupt requests inside one another. The gates of the kernel are trap gates, which leave the
  interrupt flag set, so until the first instruction of a stub (\<^verbatim>\<open>cli\<close>) has run the processor
  may take another request: it finds the stub of the first one as the interrupted code. From
  then on interrupts are disabled until \<^verbatim>\<open>iretq\<close>, since the processor takes no request between
  \<^verbatim>\<open>sti\<close> and the instruction after it.
\<close>

text \<open>A request on a line, with the requests taken between its gate and its stub.\<close>

datatype request = Request nat "request list"

text \<open>
  \<open>take_requests\<close>: each request enters its gate, the requests of its gap are taken, then the code
  that the gate leads to runs. A request is taken only while interrupts are enabled.
\<close>

fun take_requests :: "'d port_hw \<Rightarrow> build \<Rightarrow> compiled \<Rightarrow> (u64 \<Rightarrow> instr list) \<Rightarrow> request list \<Rightarrow>
    ('d, 'z) processor_scheme \<Rightarrow> ('d, 'z) processor_scheme stop + ('d, 'z) processor_scheme" where
  "take_requests hw bld c code [] s = Inr s"
| "take_requests hw bld c code (Request n gap # qs) s =
     (if cpu_if s
      then res_bind (take_requests hw bld c code gap (enter_gate (32 + n) None s)) (\<lambda>t.
           res_bind (fold_res (step hw bld c) (code (reg_rip t)) t) (take_requests hw bld c code qs))
      else take_requests hw bld c code qs s)"

text \<open>The lines of the requests in the order in which their handlers run, and how deep they nest.\<close>

fun served :: "request list \<Rightarrow> nat list" where
  "served [] = []"
| "served (Request n gap # qs) = served gap @ n # served qs"

fun nesting :: "request list \<Rightarrow> nat" where
  "nesting [] = 0"
| "nesting (Request n gap # qs) = max (Suc (nesting gap)) (nesting qs)"

text \<open>
  The bytes of stack that the entries, the saved registers and the alignment take, below the
  aligned stack pointer of the interrupted code.
\<close>

definition nest_bytes :: "nat \<Rightarrow> nat" where
  "nest_bytes d = 112 + 48 * d"

definition stack_base :: "('d, 'z) processor_scheme \<Rightarrow> u64" where
  "stack_base s = gpr s RSP AND NOT 15"

definition stack_room :: "nat \<Rightarrow> ('d, 'z) processor_scheme \<Rightarrow> bool" where
  "stack_room n s \<longleftrightarrow> (\<forall>x. below x (stack_base s) n \<longrightarrow> \<not> within x VIDEO_ADDRESS 8000)"

lemma stacked_bytes:
  assumes "stacked m sp vs" and "stacked m' sp vs" and "within x sp (8 * length vs)" and "8 * length vs \<le> 2 ^ 64"
  shows "m x = m' x"
proof -
  let ?i = "unat (x - sp) div 8"
  have i: "?i < length vs" using assms(3) by (simp add: within_def less_mult_imp_div_less mult.commute)
  have "within x (sp + of_nat (8 * ?i)) 8 \<longleftrightarrow> 8 * ?i \<le> unat (x - sp) \<and> unat (x - sp) < 8 * ?i + 8"
    by (rule within_add) (use i assms(4) in linarith)
  then have w: "within x (sp + of_nat (8 * ?i)) 8" by linarith
  have "load64 m (sp + of_nat (8 * ?i)) = load64 m' (sp + of_nat (8 * ?i))"
    using assms(1,2) i unfolding stacked_def by metis
  from load64_bytes [OF this w] show ?thesis .
qed

subsection \<open>The kernel without the processor\<close>

text \<open>Memory restricted to the first 50 rows of the video memory.\<close>

definition shown :: "bytes \<Rightarrow> bytes" where
  "shown m = (\<lambda>a. if within a VIDEO_ADDRESS 8000 then m a else 0)"

lemma shown_cong: "(\<And>a. within a VIDEO_ADDRESS 8000 \<Longrightarrow> m a = m' a) \<Longrightarrow> shown m = shown m'"
  by (rule ext) (simp add: shown_def)

lemma shown_upd: "within a VIDEO_ADDRESS 8000 \<Longrightarrow> shown (m(a := v)) = (shown m)(a := v)"
  by (auto simp: shown_def)

lemma shown_scroll: "shown (scroll_lines m) = scroll_lines (shown m)"
proof
  fix a
  have "within (a + 160) VIDEO_ADDRESS 8000" if "unat (a - VIDEO_ADDRESS) < 3680"
  proof -
    have "a + 160 - VIDEO_ADDRESS = (a - VIDEO_ADDRESS) + 160" by simp
    then show ?thesis using that unat_word_ariths(1) [of "a - VIDEO_ADDRESS" 160] by (simp add: within_def diff_add_eq)
  qed
  then show "shown (scroll_lines m) a = scroll_lines (shown m) a"
    by (auto simp: shown_def scroll_lines_apply Let_def within_def)
qed

text \<open>
  \<open>kernel_of\<close> forgets the registers and all memory but that of the screen: what is left is the
  data on which \<open>take_irqs\<close> works.
\<close>

definition kernel_of :: "('d, 'z) processor_scheme \<Rightarrow> ('d, 'z) processor_scheme" where
  "kernel_of s = s\<lparr>mem := shown (mem s), gpr := (\<lambda>_. 0), reg_rip := 0, reg_cs := 0, reg_ss := 0, reg_rflags := 0\<rparr>"

lemma kernel_of_fields [simp]:
  "screen_col (kernel_of s) = screen_col s" "screen_row (kernel_of s) = screen_row s"
  "screen_scheme (kernel_of s) = screen_scheme s" "framebuffer (kernel_of s) = framebuffer s"
  "dev (kernel_of s) = dev s" "interrupt_handlers (kernel_of s) = interrupt_handlers s" "cpu_if (kernel_of s) = cpu_if s"
  "tick (kernel_of s) = tick s"
  by (simp_all add: kernel_of_def)

lemma kernel_of_update [simp]:
  "(kernel_of s)\<lparr>screen_col := i\<rparr> = kernel_of (s\<lparr>screen_col := i\<rparr>)"
  "(kernel_of s)\<lparr>screen_row := i\<rparr> = kernel_of (s\<lparr>screen_row := i\<rparr>)"
  "(kernel_of s)\<lparr>dev := d\<rparr> = kernel_of (s\<lparr>dev := d\<rparr>)"
  "(kernel_of s)\<lparr>tick := k\<rparr> = kernel_of (s\<lparr>tick := k\<rparr>)"
  "(kernel_of s)\<lparr>cpu_if := b\<rparr> = kernel_of (s\<lparr>cpu_if := b\<rparr>)"
  by (simp_all add: kernel_of_def)

lemma move_cursor_kernel: "move_cursor hw pos (kernel_of s) = kernel_of (move_cursor hw pos s)"
  by (simp add: move_cursor_def port_byte_out_def Let_def)

lemma screen_write_at_kernel:
  assumes "framebuffer s = VIDEO_ADDRESS" and "0 \<le> y * 80 + x" and "y * 80 + x < 4000"
  shows "screen_write_at c sch x y (kernel_of s) = kernel_of (screen_write_at c sch x y s)"
proof -
  let ?p = "y * 80 + x"
  have "within (VIDEO_ADDRESS + word_of_int (2 * ?p)) VIDEO_ADDRESS 8000"
    "within (VIDEO_ADDRESS + word_of_int (2 * ?p + 1)) VIDEO_ADDRESS 8000"
    using assms(2,3) by (subst within_word_of_int; simp)+
  then have "shown ((mem s)(VIDEO_ADDRESS + word_of_int (2 * ?p) := c, VIDEO_ADDRESS + word_of_int (2 * ?p + 1) := sch))
      = (shown (mem s))(VIDEO_ADDRESS + word_of_int (2 * ?p) := c, VIDEO_ADDRESS + word_of_int (2 * ?p + 1) := sch)"
    by (simp only: shown_upd)
  then show ?thesis
    by (simp add: screen_write_at_def Let_def SCREEN_WIDTH_def SCREEN_HEIGHT_def assms(1) kernel_of_def shown_scroll)
qed

lemma screen_write_kernel:
  assumes "rows_ok k s" and "k \<le> 25"
  shows "screen_write hw c (kernel_of s) = kernel_of (screen_write hw c s)"
proof -
  have s: "framebuffer s = VIDEO_ADDRESS" "0 \<le> screen_col s" "screen_col s < 80" "0 \<le> screen_row s"
    "screen_row s \<le> 24 + int k" using assms(1) by (simp_all add: rows_ok_def cursor_ok_def)
  then have at: "screen_write_at b sch x (screen_row s) (kernel_of t) = kernel_of (screen_write_at b sch x (screen_row s) t)"
    if "0 \<le> x" "x < 80" "framebuffer t = VIDEO_ADDRESS" for b sch x and t :: "('a, 'b) processor_scheme"
    using assms(2) that by (intro screen_write_at_kernel) auto
  show ?thesis
    using s by (simp add: screen_write_def Let_def at move_cursor_kernel)
qed

lemma fold_screen_write_kernel:
  "rows_ok k s \<Longrightarrow> k + newlines cs \<le> 25 \<Longrightarrow> CHR 0x09 \<notin> set cs \<Longrightarrow>
    fold (screen_write hw) cs (kernel_of s) = kernel_of (fold (screen_write hw) cs s)"
proof (induction cs arbitrary: k s)
  case (Cons c cs)
  have "rows_ok (k + newlines [c]) (screen_write hw c s)" "screen_write hw c (kernel_of s) = kernel_of (screen_write hw c s)"
    using screen_write_rows(1) [OF Cons.prems(1), of c hw] screen_write_kernel [OF Cons.prems(1)] Cons.prems by auto
  with Cons.IH [of "k + newlines [c]" "screen_write hw c s"] Cons.prems show ?case by (auto split: if_splits)
qed simp

lemma isr_effect_kernel:
  assumes "h \<noteq> Breakpoint_handler" and "rows_ok k s" and "k \<le> 19"
  shows "isr_effect hw h a' (kernel_of s) = kernel_of (isr_effect hw h a s)"
proof -
  have "fold (screen_write hw) (scancode_text v) (kernel_of (s\<lparr>dev := d\<rparr>)) =
      kernel_of (fold (screen_write hw) (scancode_text v) (s\<lparr>dev := d\<rparr>))" for v d
    using assms(2,3) scancode_line [of v] plain_text
    by (intro fold_screen_write_kernel [of k]) (auto)
  then show ?thesis
    using assms(1) by (cases h) (simp_all add: isr_effect_def case_prod_beta Let_def)
qed

lemma irq_effect_kernel:
  assumes "steady bld hs k m g s" and "n < 5"
  shows "irq_effect hw n rsp' (kernel_of s) = kernel_of (irq_effect hw n rsp s)"
proof -
  have "unat n < 5" using assms(2) by (simp add: word_less_nat_alt)
  then have "interrupt_handlers s ! (32 + unat n) \<noteq> Some Breakpoint_handler"
    using assms(1) by (auto simp: steady_def running_def irq_handlers_ok_def list_all_iff)
  then have "isr_effect hw h (get_stack (32 + n) rsp') (kernel_of (s\<lparr>cpu_if := False, dev := outs hw (eoi_bytes n) (dev s)\<rparr>))
      = kernel_of (isr_effect hw h (get_stack (32 + n) rsp) (s\<lparr>cpu_if := False, dev := outs hw (eoi_bytes n) (dev s)\<rparr>))"
    if "interrupt_handlers s ! (32 + unat n) = Some h" for h
    using that assms(1) by (intro isr_effect_kernel [of _ k]) (auto simp: steady_def running_def)
  then show ?thesis by (simp add: irq_effect_def Let_def split: option.split)
qed

lemma resumed_kernel:
  assumes "cpu_if s" and "\<And>x. within x (gpr t RSP - of_nat (stack_use c)) (stack_use c) \<Longrightarrow> \<not> within x VIDEO_ADDRESS 8000"
  shows "kernel_of (resumed c v (context_words s) s t) = kernel_of (t\<lparr>cpu_if := True\<rparr>)"
proof -
  have "shown (mem (c_return c t)) = shown (mem t)"
    by (rule shown_cong) (use assms(2) in \<open>auto simp: c_return_def\<close>)
  then show ?thesis by (simp add: kernel_of_def resumed_def context_words_def assms(1))
qed

lemma at_call_kernel:
  assumes "cpu_if s" and "\<forall>x. \<not> within x (stub_sp err s) (stub_bytes err) \<longrightarrow> m x = mem s x" and "stack_apart err s"
  shows "kernel_of ((at_call n v err m s)\<lparr>cpu_if := True\<rparr>) = kernel_of s"
proof -
  have "shown m = shown (mem s)"
    by (rule shown_cong) (use assms(2,3) in \<open>auto simp: stack_apart_def\<close>)
  then show ?thesis using assms(1) by (simp add: kernel_of_def at_call_def)
qed

text \<open>The kernel does not see the stub: a request has the effect of its handler.\<close>

lemma interrupt_kernel:
  fixes s :: "('d, 'z) processor_scheme"
  assumes "steady bld hs k m0 g s" and "n < 5" and "linked bld code" and "stack_apart None s"
    and "stack_use c + 168 \<le> 2 ^ 64" and "segments_ok s" and "interrupt hw bld c code (32 + n) None s = Inr s'"
    and off: "\<And>x. within x (stub_sp None s - of_nat (stack_use c)) (stack_use c) \<Longrightarrow> \<not> within x VIDEO_ADDRESS 8000"
  shows "kernel_of s' = irq_effect hw (of_nat n) rsp (kernel_of s)"
proof -
  let ?v = "32 + of_nat n :: u64" and ?n = "of_nat n :: u64"
  have on: "cpu_if s" using assms(1) by (simp add: steady_def running_def)
  from irq_outcome [OF assms(1-6), of hw] assms(7) obtain m and t :: "('d, 'z) processor_scheme" where
    res: "s' = resumed c ?v (context_words s) s t"
    and m: "\<forall>x. \<not> within x (stub_sp None s) (stub_bytes None) \<longrightarrow> m x = mem s x"
    and t: "gpr t RSP = stub_sp None s"
      "t\<lparr>cpu_if := True\<rparr> = irq_effect hw ?n (stub_sp None s) ((at_call (32 + n) ?v None m s)\<lparr>cpu_if := True\<rparr>)" by auto
  have n: "?n < 5" using assms(2) by (simp add: word_less_nat_alt unat_of_nat)
  have "kernel_of s' = kernel_of (t\<lparr>cpu_if := True\<rparr>)"
    unfolding res by (rule resumed_kernel [OF on]) (use off t(1) in simp)
  also have "\<dots> = irq_effect hw ?n rsp (kernel_of ((at_call (32 + n) ?v None m s)\<lparr>cpu_if := True\<rparr>))"
    unfolding t(2) by (rule irq_effect_kernel [OF steady_at_call [OF assms(1)] n, symmetric])
  also have "\<dots> = irq_effect hw ?n rsp (kernel_of s)"
    by (simp only: at_call_kernel [OF on m assms(4)])
  finally show ?thesis .
qed

subsection \<open>A gap\<close>

lemma stub_sp_base: "stub_sp None s = stack_base s - of_nat 160" "stub_bytes None = 160"
  by (simp_all add: stub_sp_def stub_bytes_def stack_base_def error_words_def)

lemma stack_apart_room: "stack_apart None s \<longleftrightarrow> stack_room 160 s"
  by (simp only: stack_apart_def stack_room_def stub_sp_base below_def)

lemma undisturbed_base: "undisturbed s s' \<Longrightarrow> stack_base s' = stack_base s"
  by (simp add: undisturbed_def stack_base_def)

lemma stack_room_mono: "stack_room n s \<Longrightarrow> k \<le> n \<Longrightarrow> n \<le> 2 ^ 64 \<Longrightarrow> stack_room k s"
  using below_mono by (auto simp: stack_room_def)

text \<open>The gate of a request is a trap gate: in the gap the kernel is in order and interrupts are enabled.\<close>

lemma gap_entered:
  assumes "steady bld hs k m0 g s" and "n < 5"
  defines "t \<equiv> enter_gate (32 + n) None s"
  shows "steady bld hs k (mem t) g t" and "stacked (mem t) (stack_base s - of_nat 40) (context_words s)"
    and "gpr t = (gpr s)(RSP := stack_base s - 40)" and "tick t = tick s" and "reg_rip t = addr_irq bld n"
    and "rflags_word t = rflags_word s" and "reg_ss t = reg_ss s" and "reg_cs t = 8"
    and "t = s\<lparr>mem := mem t, gpr := gpr t, reg_rip := addr_irq bld n, reg_cs := 8\<rparr>"
    and "\<And>x. \<not> below x (stack_base s) 40 \<Longrightarrow> mem t x = mem s x"
proof -
  have gate: "idt s ! (32 + n) = gate_for (addr_irq bld n)" "cpu_if s"
    using assms(1,2) by (simp_all add: steady_def running_def tables_ok_def)
  have trap: "bit (opts_bits (opts (gate_for a))) 8" "selector (gate_for a) = 8" for a
    by (simp_all add: gate_for_def opts_bits_def)
  have sp: "stub_sp None s + 120 = stack_base s - of_nat 40" by (simp add: stub_sp_base)
  have none: "error_words None @ context_words s = context_words s" "stub_bytes None - 120 = 40"
    by (simp_all add: error_words_def stub_sp_base)
  obtain m where t: "t = s\<lparr>mem := m, gpr := (gpr s)(RSP := stack_base s - of_nat 40), reg_rip := addr_irq bld n, reg_cs := 8, cpu_if := True\<rparr>"
    and m: "stacked m (stack_base s - of_nat 40) (context_words s)"
      "\<forall>x. \<not> within x (stack_base s - of_nat 40) 40 \<longrightarrow> m x = mem s x"
    using enter_gate_eq [of "32 + n" None s] unfolding t_def sp none gate by (auto simp: trap gate)
  show "steady bld hs k (mem t) g t"
    using assms(1) by (auto simp: t steady_def running_def tables_ok_def rows_ok_def cursor_ok_def)
  show "rflags_word t = rflags_word s" by (simp add: t rflags_word_def gate)
  show "stacked (mem t) (stack_base s - of_nat 40) (context_words s)"
    "gpr t = (gpr s)(RSP := stack_base s - 40)" "tick t = tick s" "reg_rip t = addr_irq bld n"
    "reg_ss t = reg_ss s" "reg_cs t = 8" "t = s\<lparr>mem := mem t, gpr := gpr t, reg_rip := addr_irq bld n, reg_cs := 8\<rparr>"
    using m gate(2) by (simp_all add: t)
  show "mem t x = mem s x" if "\<not> below x (stack_base s) 40" for x
    using m(2) that by (simp add: t below_def)
qed

text \<open>
  What has run in the gap might as well have run before the gate was entered: if it has left the
  gap undisturbed, with the words on the stack, then the state is the one on entry to the gate
  from a state that differs from the interrupted one in the kernel's own data only.
\<close>

lemma gap_as_before:
  fixes s t1 :: "('d, 'z) processor_scheme"
  assumes "steady bld hs k m0 g s" and "n < 5" and t: "t = enter_gate (32 + n) None s" and und: "undisturbed t t1"
    and st: "steady bld hs k (mem t1) g t1" and "\<forall>x. below x (stack_base s) 40 \<longrightarrow> mem t1 x = mem t x"
  shows "\<exists>s1. t1 = enter_gate (32 + n) None s1 \<and> undisturbed s s1 \<and> steady bld hs k (mem s1) g s1
    \<and> mem s1 = mem t1 \<and> kernel_of s1 = kernel_of t1"
proof -
  note gap = gap_entered [OF assms(1,2), folded t]
  let ?s = "t1\<lparr>gpr := (gpr t1)(RSP := gpr s RSP), reg_rip := reg_rip s, reg_cs := reg_cs s\<rparr>"
  have t1: "reg_rip t1 = addr_irq bld n" "reg_cs t1 = 8" "rflags_word t1 = rflags_word s" "reg_ss t1 = reg_ss s"
    "gpr t1 RSP = stack_base s - 40" "\<And>r. r \<noteq> RDI \<Longrightarrow> r \<noteq> RSP \<Longrightarrow> gpr t1 r = gpr s r"
    using undisturbed_fields [OF und] by (simp_all add: gap(3,5-8))
  have fl: "rflags_word ?s = rflags_word s" using t1(3) by (simp add: rflags_word_def)
  have s: "stack_base ?s = stack_base s" "context_words ?s = context_words s"
    by (simp_all add: stack_base_def context_words_def fl t1(4))
  have "steady bld hs k (mem ?s) g ?s"
    using st by (auto simp: steady_def running_def tables_ok_def rows_ok_def cursor_ok_def)
  note gap' = gap_entered [OF this assms(2), unfolded s]
  let ?t = "enter_gate (32 + n) None ?s"
  have "mem ?t x = mem t1 x" for x
  proof (cases "below x (stack_base s) 40")
    case True
    with stacked_bytes [OF gap'(2) gap(2), of x] assms(6) show ?thesis by (simp add: below_def)
  qed (simp add: gap'(10))
  then have mem: "mem ?t = mem t1" by (rule ext)
  have gpr: "gpr ?t = gpr t1" unfolding gap'(3) by (simp add: fun_upd_idem t1(5))
  have "?t = ?s\<lparr>mem := mem t1, gpr := gpr t1, reg_rip := addr_irq bld n, reg_cs := 8\<rparr>"
    using gap'(9) unfolding mem gpr .
  also have "\<dots> = t1" unfolding t1(1,2) [symmetric] by simp
  finally have "?t = t1" .
  moreover have "undisturbed s ?s"
    unfolding undisturbed_def context_of_def fl using t1(4,6) by simp
  ultimately show ?thesis using \<open>steady bld hs k (mem ?s) g ?s\<close> by (intro exI [of _ ?s]) (simp add: kernel_of_def)
qed

subsection \<open>Requests inside one another\<close>

lemma undisturbed_refl [simp]: "undisturbed s s"
  by (simp add: undisturbed_def)

text \<open>The stack pointer in the gap is not aligned: a nested entry loses 8 bytes.\<close>

lemma word_15: "(15 :: u64) = mask 4"
  by (simp add: mask_eq_exp_minus_1)

lemma and_NOT_15: "(x :: u64) AND NOT 15 = x - take_bit 4 x"
proof -
  have "x AND NOT (mask 4) = push_bit 4 (drop_bit 4 x)"
    by (rule bit_eqI) (auto simp: bit_and_iff bit_not_iff bit_mask_iff bit_push_bit_iff bit_drop_bit_eq)
  then show ?thesis unfolding word_15 using bits_ident [of 4 x] by (simp add: eq_diff_eq)
qed

lemma aligned_minus_40:
  fixes a :: u64
  assumes "a = x AND NOT 15"
  shows "(a - 40) AND NOT 15 = a - 48"
proof -
  have "take_bit 4 a = 0"
    unfolding assms word_15 by (rule bit_eqI) (auto simp: bit_take_bit_iff bit_and_iff bit_not_iff bit_mask_iff)
  then have "uint (take_bit 4 a) = 0" by (simp only: unsigned_0)
  then have "uint a mod 16 = 0" by (simp only: unsigned_take_bit_eq) (simp add: take_bit_eq_mod)
  then have "(uint a - 40) mod 16 = 8" by presburger
  then have "uint (take_bit 4 (a - 40)) = uint (8 :: u64)"
    by (simp only: unsigned_take_bit_eq) (simp add: uint_word_ariths take_bit_eq_mod mod_mod_cancel)
  then have "take_bit 4 (a - 40) = 8" by (rule word_uint_eqI)
  then show ?thesis by (simp only: and_NOT_15) simp
qed

lemma gap_base: "gpr t RSP = stack_base s - 40 \<Longrightarrow> stack_base t = stack_base s - of_nat 48"
  using aligned_minus_40 [OF refl, of "gpr s RSP"] by (simp add: stack_base_def)

text \<open>
  \<open>returned\<close>: requests on the lines \<open>ns\<close> have been served and the code interrupted in \<open>s\<close> goes on
  in \<open>s'\<close>, with \<open>b\<close> bytes of stack used. The kernel has seen the handlers, in this order.
\<close>

definition returned :: "'d port_hw \<Rightarrow> (('d, 'z) processor_scheme \<Rightarrow> bool) \<Rightarrow> nat \<Rightarrow> nat list \<Rightarrow>
    ('d, 'z) processor_scheme \<Rightarrow> ('d, 'z) processor_scheme \<Rightarrow> bool" where
  "returned hw ok b ns s s' \<longleftrightarrow> undisturbed s s' \<and> ok s'
     \<and> kernel_of s' = fold (\<lambda>n. irq_effect hw (of_nat n) 0) ns (kernel_of s)
     \<and> (\<forall>x. \<not> below x (stack_base s) b \<and> \<not> within x VIDEO_ADDRESS 8000 \<longrightarrow> mem s' x = mem s x)"

lemma returned_refl: "ok s \<Longrightarrow> returned hw ok b [] s s"
  by (simp add: returned_def)

lemma returned_trans:
  "returned hw ok b ns s s' \<Longrightarrow> returned hw ok b ms s' s'' \<Longrightarrow> returned hw ok b (ns @ ms) s s''"
  using undisturbed_trans [of s s' s''] undisturbed_base [of s s'] by (simp add: returned_def)

lemma returned_mono:
  "returned hw ok b ns s s' \<Longrightarrow> b \<le> b' \<Longrightarrow> b' \<le> 2 ^ 64 \<Longrightarrow> returned hw ok b' ns s s'"
  using below_mono unfolding returned_def by blast

lemma returned_room: "returned hw ok b ns s s' \<Longrightarrow> stack_room n s' = stack_room n s"
  using undisturbed_base [of s s'] by (simp add: returned_def stack_room_def)

text \<open>
  The kernel in order, wherever memory stands, and the interrupted code in segments of the kernel.
\<close>

definition in_order :: "build \<Rightarrow> isr_t option list \<Rightarrow> nat \<Rightarrow> mmap_globals \<Rightarrow> ('d, 'z) processor_scheme \<Rightarrow> bool" where
  "in_order bld hs k g s \<longleftrightarrow> steady bld hs k (mem s) g s \<and> segments_ok s"

lemma stub_after_gap:
  fixes s :: "('d, 'z) processor_scheme"
  assumes "in_order bld hs k g s" and "n < 5" and "linked bld code" and "stack_room (160 + stack_use c) s"
    and "stack_use c + 168 \<le> 2 ^ 64" and "t = enter_gate (32 + n) None s"
  shows "\<exists>s'. fold_res (step hw bld c) (code (reg_rip t)) t = Inr s'
    \<and> returned hw (in_order bld hs k g) (160 + stack_use c) [n] s s'"
proof -
  let ?U = "stack_use c"
  have reg: "within x (stub_sp None s - of_nat ?U) (?U + stub_bytes None) \<longleftrightarrow> below x (stack_base s) (160 + ?U)" for x
    by (simp add: stub_sp_base below_def algebra_simps)
  have st: "steady bld hs k (mem s) g s" "segments_ok s" using assms(1) by (simp_all add: in_order_def)
  have apart: "stack_apart None s"
    unfolding stack_apart_room by (rule stack_room_mono [OF assms(4)]) (use assms(5) in simp_all)
  from irq_resumes [OF st(1) assms(2,3) apart assms(5) st(2), of hw] obtain s' where
    s': "interrupt hw bld c code (32 + n) None s = Inr s'" "undisturbed s s'" "steady bld hs k (mem s') g s'"
      "\<forall>x. \<not> below x (stack_base s) (160 + ?U) \<and> \<not> within x VIDEO_ADDRESS 8000 \<longrightarrow> mem s' x = mem s x"
    unfolding reg by (auto simp: undisturbed_def)
  have ord: "in_order bld hs k g s'" using s'(3) st(2) undisturbed_segments [OF s'(2)] by (simp add: in_order_def)
  have "kernel_of s' = irq_effect hw (of_nat n) 0 (kernel_of s)"
  proof (rule interrupt_kernel [OF st(1) assms(2,3) apart assms(5) st(2) s'(1)])
    fix x assume "within x (stub_sp None s - of_nat ?U) ?U"
    then have "below x (stack_base s) (160 + ?U)" unfolding reg [symmetric] by (simp add: within_def)
    then show "\<not> within x VIDEO_ADDRESS 8000" using assms(4) by (simp add: stack_room_def)
  qed
  with s' ord show ?thesis by (simp add: returned_def interrupt_def assms(6) Let_def)
qed

text \<open>One request, when what it has met in its gap has returned.\<close>

lemma request_returned:
  fixes s :: "('d, 'z) processor_scheme"
  assumes "in_order bld hs k g s" and "n < 5" and "linked bld code" and "stack_room (48 + b) s"
    and "112 + stack_use c \<le> b" and "56 + b \<le> 2 ^ 64" and t: "t = enter_gate (32 + n) None s"
    and gap: "returned hw (in_order bld hs k g) b ns t t1"
  shows "\<exists>s'. fold_res (step hw bld c) (code (reg_rip t1)) t1 = Inr s'
    \<and> returned hw (in_order bld hs k g) (48 + b) (ns @ [n]) s s'"
proof -
  have st: "steady bld hs k (mem s) g s" using assms(1) by (simp add: in_order_def)
  note entered = gap_entered [OF st assms(2), folded t]
  have base: "stack_base t = stack_base s - of_nat 48" by (rule gap_base) (simp add: entered(3))
  have t1: "undisturbed t t1" "steady bld hs k (mem t1) g t1"
    "kernel_of t1 = fold (\<lambda>n. irq_effect hw (of_nat n) 0) ns (kernel_of t)"
    "\<And>x. \<not> below x (stack_base s - of_nat 48) b \<Longrightarrow> \<not> within x VIDEO_ADDRESS 8000 \<Longrightarrow> mem t1 x = mem t x"
    using gap unfolding returned_def base in_order_def by auto
  have off: "\<not> within x VIDEO_ADDRESS 8000" if "below x (stack_base s) 40" for x
    using below_mono [OF that, of "48 + b"] assms(4,6) by (auto simp: stack_room_def)
  have "mem t1 x = mem t x" if x: "below x (stack_base s) 40" for x
  proof (rule t1(4) [OF _ off [OF x]])
    have "below x (stack_base s) 48" by (rule below_mono [OF x]) simp_all
    then show "\<not> below x (stack_base s - of_nat 48) b" using below_apart assms(6) by fastforce
  qed
  from gap_as_before [OF st assms(2) t t1(1,2)] this obtain s1 where
    s1: "t1 = enter_gate (32 + n) None s1" "undisturbed s s1" "in_order bld hs k g s1"
      "mem s1 = mem t1" "kernel_of s1 = kernel_of t1"
    using assms(1) undisturbed_segments [of s] unfolding in_order_def by blast
  have "kernel_of t = kernel_of s"
  proof -
    have "shown (mem t) = shown (mem s)" by (rule shown_cong) (use entered(10) off in blast)
    then show ?thesis by (subst entered(9)) (simp add: kernel_of_def)
  qed
  moreover have "mem t1 x = mem s x" if "\<not> below x (stack_base s) (48 + b)" "\<not> within x VIDEO_ADDRESS 8000" for x
  proof -
    have "\<not> below x (stack_base s - of_nat 48) b" using below_minus [of x "stack_base s" 48 b] that(1) assms(6) by linarith
    moreover have "\<not> below x (stack_base s) 40"
      using below_mono [of x "stack_base s" 40 "48 + b"] that(1) assms(6) by linarith
    ultimately show ?thesis using t1(4) entered(10) that(2) by simp
  qed
  ultimately have "returned hw (in_order bld hs k g) (48 + b) ns s s1"
    using s1 t1(3) by (simp add: returned_def)
  moreover have "stack_room (160 + stack_use c) s1"
    using stack_room_mono [OF assms(4), of "160 + stack_use c"] assms(5,6)
    by (simp add: stack_room_def undisturbed_base [OF s1(2)])
  from stub_after_gap [OF s1(3) assms(2,3) this _ s1(1)] obtain s' where
    "fold_res (step hw bld c) (code (reg_rip t1)) t1 = Inr s'"
    "returned hw (in_order bld hs k g) (160 + stack_use c) [n] s1 s'" using assms(5,6) by auto
  ultimately show ?thesis
    using returned_trans returned_mono [of hw _ "160 + stack_use c" "[n]" s1 s' "48 + b"] assms(5,6) by fastforce
qed

lemma take_requests_returned:
  fixes s :: "('d, 'z) processor_scheme"
  assumes "in_order bld hs k g s" and "list_all (\<lambda>n. n < 5) (served qs)" and "linked bld code"
    and "b = nest_bytes (nesting qs) + stack_use c" and "stack_room b s" and "b + 56 \<le> 2 ^ 64"
  shows "\<exists>s'. take_requests hw bld c code qs s = Inr s' \<and> returned hw (in_order bld hs k g) b (served qs) s s'"
  using assms(1,2,4-6)
proof (induction qs arbitrary: s b rule: served.induct)
  case 1
  then show ?case by (simp add: returned_refl)
next
  case (2 n gap qs)
  let ?R = "\<lambda>qs. nest_bytes (nesting qs) + stack_use c" and ?ok = "in_order bld hs k g"
  let ?t = "enter_gate (32 + n) None s"
  have n: "n < 5" and ok: "list_all (\<lambda>n. n < 5) (served gap)" "list_all (\<lambda>n. n < 5) (served qs)"
    using "2.prems"(2) by simp_all
  have b: "48 + ?R gap \<le> b" "?R qs \<le> b" "112 + stack_use c \<le> ?R gap"
    using "2.prems"(3) by (auto simp: nest_bytes_def max_def)
  have st: "steady bld hs k (mem s) g s" using "2.prems"(1) by (simp add: in_order_def)
  note entered = gap_entered [OF st n]
  have room: "stack_room j s" if "j \<le> b" for j
    by (rule stack_room_mono [OF "2.prems"(4) that]) (use "2.prems"(5) in simp)
  have base: "stack_base ?t = stack_base s - of_nat 48" by (rule gap_base) (simp add: entered(3))
  have "stack_room (?R gap) ?t"
    using room [OF b(1)] below_minus [of _ "stack_base s" 48 "?R gap"] b(1) "2.prems"(5)
    by (auto simp: stack_room_def base)
  moreover have "?ok ?t" using entered(1) entered(7,8) "2.prems"(1) by (auto simp: in_order_def segments_ok_def selectors)
  ultimately obtain t1 where
    t1: "take_requests hw bld c code gap ?t = Inr t1" "returned hw ?ok (?R gap) (served gap) ?t t1"
    using "2.IH"(1) [of ?t, OF _ ok(1) refl] b(1) "2.prems"(5) by auto
  from request_returned [OF "2.prems"(1) n assms(3) room [OF b(1)] b(3) _ refl t1(2)] b(1) "2.prems"(5) obtain s2 where
    s2: "fold_res (step hw bld c) (code (reg_rip t1)) t1 = Inr s2" "returned hw ?ok (48 + ?R gap) (served gap @ [n]) s s2"
    by auto
  have s2': "returned hw ?ok b (served gap @ [n]) s s2" by (rule returned_mono [OF s2(2) b(1)]) (use "2.prems"(5) in simp)
  have "?ok s2" "stack_room (?R qs) s2"
    using s2(2) room [OF b(2)] returned_room [OF s2(2)] by (simp_all add: returned_def)
  with "2.IH"(2) [OF _ ok(2) refl] b(2) "2.prems"(5) obtain s3 where
    s3: "take_requests hw bld c code qs s2 = Inr s3" "returned hw ?ok (?R qs) (served qs) s2 s3" by auto
  have "returned hw ?ok b (served qs) s2 s3" by (rule returned_mono [OF s3(2) b(2)]) (use "2.prems"(5) in simp)
  from returned_trans [OF s2' this] show ?case
    using st t1(1) s2(1) s3(1) by (simp add: steady_def running_def)
qed

subsection \<open>The order of the interrupt controller\<close>

text \<open>
  The interrupt controller holds a request back while one of the same or a higher priority is in
  service, and the handlers acknowledge after the gap; line 0 has the highest priority.
\<close>

fun by_priority :: "nat \<Rightarrow> request list \<Rightarrow> bool" where
  "by_priority l [] \<longleftrightarrow> True"
| "by_priority l (Request n gap # qs) \<longleftrightarrow> n < l \<and> by_priority n gap \<and> by_priority l qs"

lemma by_priority_lines: "by_priority l qs \<Longrightarrow> l \<le> j \<Longrightarrow> list_all (\<lambda>n. n < j) (served qs)"
  by (induction l qs rule: by_priority.induct) auto

lemma by_priority_nesting: "by_priority l qs \<Longrightarrow> nesting qs \<le> l"
  by (induction l qs rule: by_priority.induct) auto

lemma take_requests_by_priority:
  fixes s :: "('d, 'z) processor_scheme"
  assumes "in_order bld hs k g s" and "by_priority 5 qs" and "linked bld code"
    and "stack_room (352 + stack_use c) s" and "stack_use c + 408 \<le> 2 ^ 64"
  shows "\<exists>s'. take_requests hw bld c code qs s = Inr s'
    \<and> returned hw (in_order bld hs k g) (352 + stack_use c) (served qs) s s'"
proof -
  let ?b = "nest_bytes (nesting qs) + stack_use c"
  have b: "?b \<le> 352 + stack_use c" using by_priority_nesting [OF assms(2)] by (simp add: nest_bytes_def)
  have "stack_room ?b s" by (rule stack_room_mono [OF assms(4) b]) (use assms(5) in simp)
  from take_requests_returned [OF assms(1) by_priority_lines [OF assms(2)] assms(3) refl this, of hw] obtain s' where
    "take_requests hw bld c code qs s = Inr s'" "returned hw (in_order bld hs k g) ?b (served qs) s s'"
    using b assms(5) by auto
  then show ?thesis using returned_mono [OF _ b] assms(5) by auto
qed

lemma fold_irq_effect_tick:
  assumes "list_all (\<lambda>n. n < 5) ns"
  shows "tick (fold (\<lambda>n. irq_effect hw (of_nat n) 0) ns s) = tick s + of_nat (timer_lines (interrupt_handlers s) ns)"
  using assms
proof (induction ns arbitrary: s)
  case (Cons n ns)
  then have "unat (of_nat n :: u64) = n" by (simp add: unat_of_nat)
  with Cons show ?case by (simp add: timer_lines_def)
qed (simp add: timer_lines_def)

lemma returned_tick:
  assumes "returned hw ok b ns s s'" and "list_all (\<lambda>n. n < 5) ns"
  shows "tick s' = tick s + of_nat (timer_lines (interrupt_handlers s) ns)"
proof -
  have "tick (kernel_of s') = tick s + of_nat (timer_lines (interrupt_handlers s) ns)"
    using assms(1) fold_irq_effect_tick [OF assms(2), of hw "kernel_of s"] by (simp only: returned_def) simp
  then show ?thesis by (simp only: kernel_of_fields)
qed

lemma take_irqs_kernel:
  fixes s :: "('d, 'z) processor_scheme"
  assumes "in_order bld hs k g s" and "list_all (\<lambda>n. n < 5) ns"
  shows "(take_irqs hw (map (\<lambda>n. (of_nat n, 0)) ns) (kernel_of s) :: 's stop + _) =
    Inr (fold (\<lambda>n. irq_effect hw (of_nat n) 0) ns (kernel_of s))"
proof -
  have st: "steady bld hs k (mem (kernel_of s)) g (kernel_of s)"
    using assms(1) by (auto simp: in_order_def steady_def running_def tables_ok_def rows_ok_def cursor_ok_def kernel_of_def)
  have "(take_irqs hw (map (\<lambda>n. (of_nat n, 0)) ns) t :: 's stop + _) = Inr (fold (\<lambda>n. irq_effect hw (of_nat n) 0) ns t)"
    if "steady bld hs k m g t" for m and t :: "('d, 'z) processor_scheme"
    using assms(2) that
  proof (induction ns arbitrary: t)
    case (Cons n ns)
    let ?n = "of_nat n :: u64"
    have n: "?n < 5" "?n < 224" using Cons.prems(1) by (simp_all add: word_less_nat_alt unat_of_nat)
    have "(take_irq hw (?n, 0) t :: 's stop + _) = Inr (irq_effect hw ?n 0 t)"
    proof -
      have on: "cpu_if t" "length (interrupt_handlers t) = 256"
        using Cons.prems(2) by (auto simp: steady_def running_def tables_ok_def)
      show ?thesis using on(1) by (simp add: take_irq_def irq_entry_eq [OF on(2) n(2)])
    qed
    with Cons.IH [OF _ irq_effect_steady [OF Cons.prems(2) n(1)]] Cons.prems(1) show ?case
      by (simp add: take_irqs_def)
  qed (simp add: take_irqs_def)
  from this [OF st] show ?thesis .
qed

subsection \<open>Properties\<close>

text \<open>
  C3. Interrupt requests resume the code they interrupt, also when they interrupt each other: the
  gates leave interrupts enabled until the first instruction of a stub, and whatever requests come
  in there, to any depth, the interrupted code finds its context and all registers but \<^verbatim>\<open>rdi\<close> as they
  were, the kernel stays in order, and the timer has counted every request on its lines, modulo
  \<open>2 ^ 32\<close>. Memory has changed in the stack below the interrupted stack pointer and in the video
  memory only; a level of nesting takes 48 bytes of stack more, not 160, because a stub saves no
  register before the ones that interrupt it are done. Hypotheses: the stubs are linked where the
  gates point, that much stack lies outside the video memory, and (in \<open>in_order\<close>) the interrupted code
  runs in the segments of the kernel.
\<close>

theorem nested_requests_resume:
  fixes s :: "('d, 'z) processor_scheme"
  assumes "in_order bld hs k g s" and "list_all (\<lambda>n. n < 5) (served qs)" and "linked bld code"
    and "b = 112 + 48 * nesting qs + stack_use c" and "stack_room b s" and "b + 56 \<le> 2 ^ 64"
  shows "\<exists>s'. take_requests hw bld c code qs s = Inr s' \<and> undisturbed s s' \<and> in_order bld hs k g s'
    \<and> tick s' = tick s + of_nat (timer_lines hs (served qs))
    \<and> (\<forall>x. \<not> below x (stack_base s) b \<and> \<not> within x VIDEO_ADDRESS 8000 \<longrightarrow> mem s' x = mem s x)"
proof -
  from take_requests_returned [OF assms(1-3) _ assms(5,6), where hw = hw] obtain s' where
    s': "take_requests hw bld c code qs s = Inr s'" "returned hw (in_order bld hs k g) b (served qs) s s'"
    using assms(4) by (auto simp: nest_bytes_def)
  have "interrupt_handlers s = hs" using assms(1) by (simp add: in_order_def steady_def running_def)
  then have "tick s' = tick s + of_nat (timer_lines hs (served qs))" using returned_tick [OF s'(2) assms(2)] by simp
  with s' show ?thesis by (auto simp: returned_def)
qed

lemma sample_room:
  assumes "n \<le> 0x10000"
  shows "stack_room n sample_machine"
proof -
  have base: "stack_base sample_machine = 0x204FF0" by (simp add: stack_base_def sample_machine_def)
  have "\<not> within x VIDEO_ADDRESS 8000" if x: "below x 0x204FF0 n" for x
  proof -
    have "unat (0x204FF0 - of_nat n :: u64) = 0x204FF0 - n"
      using assms by (simp add: unat_sub_if_size unat_of_nat word_size word_le_nat_alt)
    then have "0x1F4FF0 \<le> unat x" "unat x < 0x204FF0"
      using x assms by (auto simp: below_def within_def unat_sub_if_size word_size split: if_splits)
    then show ?thesis by (auto simp: within_def unat_sub_if_size word_size VIDEO_ADDRESS_def split: if_splits)
  qed
  then show ?thesis by (simp add: stack_room_def base)
qed

lemma sample_in_order: "in_order sample_link handlers_keyboard 1 (mmap_state sample_machine) sample_machine"
  using sample_steady sample_segments by (simp add: in_order_def steady_def running_def)

theorem nested_requests_resume_witness:
  "\<exists>s'. take_requests (log_hw (\<lambda>_. 0)) sample_link sample_compiled sample_code
      [Request 4 [Request 1 [Request 0 []], Request 0 []], Request 0 []] sample_machine = Inr s'
    \<and> reg_rip s' = 0x101234 \<and> gpr s' RSP = 0x204FF8 \<and> gpr s' RAX = 5 \<and> tick s' = 44"
proof -
  let ?qs = "[Request 4 [Request 1 [Request 0 []], Request 0 []], Request 0 []]"
  have U: "stack_use sample_compiled = 4096" by (simp add: sample_compiled_def)
  have "timer_lines handlers_keyboard (served ?qs) = 3" by (simp add: timer_lines_def handlers_defs)
  moreover have "nesting ?qs = 3" by simp
  moreover obtain s' where
    "take_requests (log_hw (\<lambda>_. 0)) sample_link sample_compiled sample_code ?qs sample_machine = Inr s'"
    "undisturbed sample_machine s'" "tick s' = tick sample_machine + of_nat (timer_lines handlers_keyboard (served ?qs))"
    using nested_requests_resume [OF sample_in_order _ sample_linked refl sample_room, of ?qs sample_compiled "log_hw (\<lambda>_. 0)"]
    by (auto simp: U)
  ultimately show ?thesis
    by (intro exI [of _ s']) (simp add: undisturbed_def context_of_def sample_machine_def)
qed

text \<open>
  C4. Interrupt requests refine the kernel's view of them: however the requests nest in the order
  that the interrupt controller imposes, the devices, the screen and the kernel's tables and
  counters are left as if the handlers had been called one after the other, each request of a gap
  before the one it interrupted, with no processor and no stack underneath. 352 bytes of stack
  besides those of the C code are enough for all five lines. Hypotheses: the stubs are linked where
  the gates point, the stack lies outside the video memory, and (in \<open>in_order\<close>) the interrupted code
  runs in the segments of the kernel.
\<close>

theorem nested_requests_refine:
  fixes s :: "('d, 'z) processor_scheme"
  assumes "in_order bld hs k g s" and "by_priority 5 qs" and "linked bld code"
    and "stack_room (352 + stack_use c) s" and "stack_use c + 408 \<le> 2 ^ 64"
  shows "\<exists>s'. take_requests hw bld c code qs s = Inr s' \<and> undisturbed s s' \<and> in_order bld hs k g s'
    \<and> (take_irqs hw (map (\<lambda>n. (of_nat n, 0)) (served qs)) (kernel_of s) :: 's stop + _) = Inr (kernel_of s')"
  using take_requests_by_priority [OF assms, of hw] take_irqs_kernel [OF assms(1) by_priority_lines [OF assms(2)], of hw]
  by (auto simp: returned_def)

theorem nested_requests_refine_witness:
  "\<exists>s'. take_requests (log_hw (\<lambda>_. 0)) sample_link sample_compiled sample_code
      [Request 1 [Request 0 []], Request 0 []] sample_machine = Inr s'
    \<and> (take_irqs (log_hw (\<lambda>_. 0)) [(0, 0), (1, 0), (0, 0)] (kernel_of sample_machine) :: unit stop + _) = Inr (kernel_of s')"
proof -
  have U: "stack_use sample_compiled = 4096" by (simp add: sample_compiled_def)
  show ?thesis
    using nested_requests_refine [OF sample_in_order _ sample_linked sample_room, of "[Request 1 [Request 0 []], Request 0 []]"
        sample_compiled "log_hw (\<lambda>_. 0)", where ?'s = unit]
    by (auto simp: U)
qed

end
