(* ===== verification/Power_On.thy ===== *)
theory Power_On
  imports Nesting
begin

text \<open>
  The machine from power-on: the start-up code, the Crystal entry point \<open>main\<close>
  (\<open>src/src/kernel/main.cr\<close>), which calls \<open>kmain\<close>, and the interrupts that the booted kernel
  serves. \<open>main\<close> passes no arguments: \<open>kmain\<close> finds in its argument registers what the code
  around \<open>main\<close> that the Crystal compiler generates leaves there, a parameter here (\<open>runtime\<close>).
\<close>

definition crystal_main :: "(u64 \<times> u64 \<Rightarrow> u64 \<times> u64) \<Rightarrow> 'd port_hw \<Rightarrow> build \<Rightarrow> schedule \<Rightarrow> u64 \<Rightarrow> u64 \<Rightarrow>
    ('d, 'z) kernel_state_scheme \<Rightarrow> ('d, 'z) kernel_state_scheme stop + ('d, 'z) kernel_state_scheme" where
  "crystal_main runtime hw bld sched rdi rsi s =
     (let (magic, addr) = runtime (rdi, rsi) in kmain hw bld sched magic addr s)"

text \<open>
  \<open>power_on\<close>: the start-up code runs on the processor \<open>t\<close>, with the memory that the boot loader
  has filled, and calls \<open>main\<close>, whose return address goes on the stack; the kernel's globals \<open>s\<close>
  have their initial values.
\<close>

definition power_on :: "(u64 \<times> u64 \<Rightarrow> u64 \<times> u64) \<Rightarrow> 'd port_hw \<Rightarrow> build \<Rightarrow> schedule \<Rightarrow> layout \<Rightarrow> cpu \<Rightarrow> u32 \<Rightarrow> u32 \<Rightarrow>
    start_state \<Rightarrow> ('d, 'z) kernel_state_scheme \<Rightarrow> ('d, 'z) kernel_state_scheme stop + ('d, 'z) kernel_state_scheme" where
  "power_on runtime hw bld sched l c eax ebx t s =
     (case start l c eax ebx t of
        Inl e \<Rightarrow> Inl (map_stop (\<lambda>t. s\<lparr>mem := ram t\<rparr>) e)
      | Inr (edi, esi, t) \<Rightarrow> crystal_main runtime hw bld sched (ucast edi) (ucast esi)
          (s\<lparr>mem := store64 (ram t) (ucast (reg_esp t) - 8) (ucast (return_to l 5))\<rparr>))"

subsection \<open>Boot information that nothing overwrites\<close>

text \<open>
  The kernel's image in memory, from its first byte: code, data and the \<^verbatim>\<open>.bss\<close> section with the
  page tables, the stack and the globals of the C files. The model keeps the globals in the records
  of the state, and the stack of the C code is not modelled: what compiled code stores there stays in
  the image as long as it keeps to its 16 kilobytes of stack.
\<close>

type_synonym image = "u64 \<times> nat"

definition in_image :: "image \<Rightarrow> u64 \<Rightarrow> bool" where
  "in_image im x \<longleftrightarrow> within x (fst im) (snd im)"

text \<open>The part of a tag that is read while the tags are walked.\<close>

definition tag_apart :: "image \<Rightarrow> u64 \<Rightarrow> bool" where
  "tag_apart im t \<longleftrightarrow> (\<forall>x. within x t 12 \<longrightarrow> \<not> in_image im x \<and> \<not> within x VIDEO_ADDRESS 8000)"

lemma tag_cong:
  assumes "\<And>x. within x t 12 \<Longrightarrow> m x = m' x"
  shows "tag_type m t = tag_type m' t" and "tag_size m t = tag_size m' t" and "mmap_entry_size m t = mmap_entry_size m' t"
proof -
  have "m (t + of_nat i) = m' (t + of_nat i)" if "i < 12" for i
    by (rule assms) (use that in simp)
  from this [of 0] this [of 1] this [of 2] this [of 3] this [of 4] this [of 5] this [of 6] this [of 7]
    this [of 8] this [of 9] this [of 10] this [of 11]
  show "tag_type m t = tag_type m' t" "tag_size m t = tag_size m' t" "mmap_entry_size m t = mmap_entry_size m' t"
    by (simp_all add: tag_type_def tag_size_def mmap_entry_size_def load32_def add.assoc)
qed

lemma tags_cong:
  assumes "\<And>t. t \<in> set (ts @ [e]) \<Longrightarrow> tag_type m t = tag_type m' t \<and> tag_size m t = tag_size m' t"
  shows "tags_at m a ts e \<Longrightarrow> tags_at m' a ts e"
  using assms by (induction ts arbitrary: a) (auto simp: tag_after_def)

lemma tag_apart_off_screen: "tag_apart im t \<Longrightarrow> off_screen t"
  by (auto simp: tag_apart_def off_screen_def list_all_iff)

lemma boot_info_cong:
  assumes "list_all (tag_apart im) (ts @ [e])" and "tags_at m a ts e" and "list_all (walkable m) ts"
    and eq: "\<And>x. \<not> in_image im x \<Longrightarrow> \<not> within x VIDEO_ADDRESS 8000 \<Longrightarrow> m' x = m x"
  shows "tags_at m' a ts e" and "list_all (walkable m') ts"
proof -
  have same: "tag_type m t = tag_type m' t" "tag_size m t = tag_size m' t" "mmap_entry_size m t = mmap_entry_size m' t"
    if "t \<in> set (ts @ [e])" for t
    using tag_cong [of t m m'] eq assms(1) that by (auto simp: tag_apart_def list_all_iff)
  then show "tags_at m' a ts e" by (intro tags_cong [OF _ assms(2)]) simp
  have "walkable m' t" if "t \<in> set ts" for t
    using that assms(3) same [of t] unfolding walkable_def list_all_iff by (metis UnI1 set_append)
  then show "list_all (walkable m') ts" by (simp add: list_all_iff)
qed

subsection \<open>From power-on to the last loop\<close>

text \<open>
  What the machine, the loader and the compiled code give: a supported processor, the magic
  number, an image off the screen that contains the \<^verbatim>\<open>.bss\<close> section, with the tables, which are zero, at
  its start, registers that
  survive \<open>main\<close>, the kernel's globals in their initial values, and aligned boot information that
  neither the image nor the screen overlap.
\<close>

definition machine_ready :: "u32 \<Rightarrow> cpu \<Rightarrow> (u64 \<times> u64 \<Rightarrow> u64 \<times> u64) \<Rightarrow> image \<Rightarrow> u32 \<Rightarrow> start_state \<Rightarrow>
    ('d, 'z) kernel_state_scheme \<Rightarrow> bool" where
  "machine_ready writable c runtime im b t s \<longleftrightarrow>
     popfd_writes writable c \<and> unsupported writable c 0x36d76289 = None \<and> runtime = id
     \<and> aligned (ucast b) \<and> unat b + 0x7000 < 2 ^ 32 \<and> clear (ram t) (ucast b) 0x3000
     \<and> (\<forall>x. within x (ucast b) 0x7000 \<longrightarrow> in_image im x)
     \<and> (\<forall>x. in_image im x \<longrightarrow> \<not> within x VIDEO_ADDRESS 8000)
     \<and> length (idt s) = 256 \<and> interrupt_handlers s = replicate 256 None"

definition boot_info_ready :: "image \<Rightarrow> bytes \<Rightarrow> u32 \<Rightarrow> u64 list \<Rightarrow> u64 \<Rightarrow> bool" where
  "boot_info_ready im m addr ts e \<longleftrightarrow> 8 dvd unat addr \<and> tags_at m (mbi_tags (ucast addr)) ts e
     \<and> list_all (walkable m) ts \<and> list_all (tag_apart im) (ts @ [e])"

text \<open>The tables of the start-up code, and memory around them and the screen.\<close>

definition identity_mapped :: "u32 \<Rightarrow> bytes \<Rightarrow> bool" where
  "identity_mapped b m \<longleftrightarrow> recursive m (ucast b)
     \<and> (\<forall>v. unat v < 2 ^ 47 \<longrightarrow> hw_translate m (ucast b) v = (if unat v < 2 ^ 30 then Some v else None))"

lemma identity_mapped_tables: "boot_tables (bss b a ret) m \<Longrightarrow> identity_mapped b m"
  using boot_tables_translation [of "bss b a ret" m] by (simp add: identity_mapped_def)

text \<open>The call of \<open>main\<close> uses the top of the stack, which is in the image and off the tables.\<close>

lemma ucast_add_small:
  fixes b :: u32
  assumes "unat b + k < 2 ^ 32"
  shows "(ucast (b + of_nat k) :: u64) = ucast b + of_nat k"
  using assms by (simp add: word_unat_eq_iff unat_word_ariths unat_of_nat)

lemma main_call_frame:
  fixes b :: u32
  assumes "unat b + 0x7000 < 2 ^ 32" and "\<not> within x (ucast b + 0x6ff8) 8"
  shows "store64 m (ucast (b + 0x7000) - 8) v x = m x"
proof -
  have "(ucast (b + 0x7000) :: u64) - 8 = ucast b + 0x6ff8"
    using ucast_add_small [of b "0x7000"] assms(1) by simp
  with assms(2) show ?thesis by (simp only: store64_frame not_False_eq_True)
qed

lemma stack_top_word:
  assumes "within x (ucast (b :: u32) + 0x6ff8) 8"
  shows "within x (ucast b) 0x7000" and "\<not> within x (ucast b) 0x3000"
  using assms within_add [of "0x6ff8" 8 x "ucast b"] by (simp_all add: within_def)

lemma handed_over:
  fixes s :: "('d, 'z) kernel_state_scheme"
  assumes "machine_ready writable c runtime im b t s"
  obtains m where "\<forall>bld sched hw. power_on runtime hw bld sched (bss b a ret) c 0x36d76289 addr t s =
      kmain hw bld sched 0x36d76289 (ucast addr) (s\<lparr>mem := m\<rparr>)"
    and "boot_tables (bss b a ret) m" and "\<forall>x. \<not> in_image im x \<longrightarrow> m x = ram t x"
proof -
  note rdy = assms(1) [unfolded machine_ready_def]
  have al: "aligned (ucast b)" "unat b + 0x7000 \<le> 2 ^ 32" "clear (ram t) (ucast b) 0x3000" and lt: "unat b + 0x7000 < 2 ^ 32"
    and pop: "popfd_writes writable c" using rdy by simp_all
  have sup: "unsupported writable c 0x36d76289 = None" using rdy by simp
  obtain t' where t': "start (bss b a ret) c 0x36d76289 addr t = Inr (0x36d76289, addr, t')"
    by (rule start_eq [OF pop, of "bss b a ret" t "0x36d76289" addr]) (simp add: sup)
  note st = start_boot_tables [OF al t']
  let ?m = "store64 (ram t') (ucast (b + 0x7000) - 8) (ucast (ret 5))"
  show thesis
  proof (rule that [of ?m])
    show "\<forall>bld sched hw. power_on runtime hw bld sched (bss b a ret) c 0x36d76289 addr t s =
        kmain hw bld sched 0x36d76289 (ucast addr) (s\<lparr>mem := ?m\<rparr>)"
      using rdy by (simp add: power_on_def t' crystal_main_def st(4)) (simp add: bss_def)
    show "boot_tables (bss b a ret) ?m"
    proof (rule boot_tables_bss_cong [OF st(1) al(1)])
      show "unat b + 0x3000 \<le> 2 ^ 32" using al(2) by simp
      fix x assume "within x (ucast b) 0x3000"
      then have "\<not> within x (ucast b + 0x6ff8) 8" using stack_top_word(2) by blast
      from main_call_frame [OF lt this] show "ram t' x = ?m x" by simp
    qed
    show "\<forall>x. \<not> in_image im x \<longrightarrow> ?m x = ram t x"
    proof (intro allI impI)
      fix x assume "\<not> in_image im x"
      then have x: "\<not> within x (ucast b) 0x7000" using rdy by blast
      then have "\<not> within x (ucast b + 0x6ff8) 8" "\<not> within x (ucast b) 0x3000" "\<not> stack_word (bss b a ret) x"
        using stack_top_word(1) stack_word_bss(1) [OF al(2)] by (blast, simp add: within_def, blast)
      then show "?m x = ram t x" using main_call_frame [OF lt] st(2) by simp
    qed
  qed
qed

lemma power_on_steady:
  fixes s :: "('d, 'z) kernel_state_scheme"
  assumes "machine_ready writable c runtime im b t s" and "boot_info_ready im (ram t) addr ts e"
    and "booting bld sched" and "keeps_time hw"
  obtains s' m g where "power_on runtime hw bld sched (bss b a ret) c 0x36d76289 addr t s = Inr s'"
    and "steady bld handlers_keyboard 15 m g s'" and "irq_ready bld s'" and "boot_tables (bss b a ret) (mem s')"
    and "\<forall>x. \<not> in_image im x \<and> \<not> within x VIDEO_ADDRESS 8000 \<longrightarrow> mem s' x = ram t x"
proof -
  note rdy = assms(1) [unfolded machine_ready_def] and info = assms(2) [unfolded boot_info_ready_def]
  obtain m0 where on: "\<forall>bld sched hw. power_on runtime hw bld sched (bss b a ret) c 0x36d76289 addr t s =
      kmain hw bld sched 0x36d76289 (ucast addr) (s\<lparr>mem := m0\<rparr>)"
    and tab: "boot_tables (bss b a ret) m0" and ram: "\<forall>x. \<not> in_image im x \<longrightarrow> m0 x = ram t x"
    by (rule handed_over [OF assms(1), where a = a and ret = ret and addr = addr])
  let ?s = "s\<lparr>mem := m0\<rparr>" let ?m = "mem (screen_clear (screen_init ?s))"
  have out: "outside ?m = outside m0" by (simp add: outside_screen_clear)
  have m: "?m x = ram t x" if "\<not> in_image im x" "\<not> within x VIDEO_ADDRESS 8000" for x
    using outsideD [OF out that(2)] ram that(1) by simp
  have tags: "tags_at ?m (mbi_tags (ucast addr)) ts e" "list_all (walkable ?m) ts"
    by (rule boot_info_cong [of im ts e "ram t"]; use info m in blast)+
  have "list_all off_screen (ts @ [e])" using info tag_apart_off_screen [of im] by (auto simp: list_all_iff)
  moreover have "8 dvd unat (ucast addr :: u64)" "length (idt ?s) = 256" "interrupt_handlers ?s = replicate 256 None"
    using info rdy by simp_all
  ultimately obtain s' r mmap where s': "kmain hw bld sched 0x36d76289 (ucast addr) ?s = Inr s'"
    and st: "steady bld handlers_keyboard 15 ?m (mmu_init mmap r (mmap_state ?s)) s'" "irq_ready bld s'"
    using kmain_steady [OF assms(3,4) _ _ _ refl tags] by blast
  have mem: "mem s' x = ?m x" if "\<not> within x VIDEO_ADDRESS 8000" for x
    using st(1) outsideD [OF _ that] by (auto simp: steady_def running_def)
  have "boot_tables (bss b a ret) (mem s')"
  proof (rule boot_tables_bss_cong [OF tab])
    show "aligned (ucast b)" "unat b + 0x3000 \<le> 2 ^ 32" using rdy by simp_all
    fix x assume "within x (ucast b) 0x3000"
    then have "within x (ucast b) 0x7000" by (simp add: within_def)
    then have "\<not> within x VIDEO_ADDRESS 8000" using rdy by blast
    then show "m0 x = mem s' x" using mem outsideD [OF out] by simp
  qed
  moreover have "power_on runtime hw bld sched (bss b a ret) c 0x36d76289 addr t s = Inr s'" using s' on by simp
  ultimately show thesis using that st mem m by simp
qed

subsection \<open>A machine for the witnesses\<close>

definition sample_power :: "(u8 \<times> nat) processor" where
  "sample_power = \<lparr>dev = (0, 62), mem = (\<lambda>_. 0), screen_scheme = 0, framebuffer = 0, screen_col = 0,
     screen_row = 0, idt = replicate 256 (gate_for 0), idt_reg = \<lparr>length_field = 0, base_field = 0\<rparr>,
     cpu_idtr = None, cpu_if = False, interrupt_handlers = replicate 256 None, tick = 0,
     mmap_state = \<lparr>memory_area = 0, g_kernel_start = 0, g_kernel_end = 0, g_multiboot_start = 0,
       g_multiboot_end = 0, next_free_frame = 0\<rparr>,
     gpr = (\<lambda>_. 0), reg_rip = 0, reg_cs = 8, reg_ss = 0, reg_rflags = 2\<rparr>"

definition sample_loaded :: start_state where
  "sample_loaded = sample_start\<lparr>ram := sample_mem\<rparr>"

definition sample_image :: image where "sample_image = (0x100000, 0x10000)"

lemma below_MB:
  assumes "within x 0x100000 0x10000" shows "0x100000 \<le> unat x" and "\<not> within x VIDEO_ADDRESS 8000"
proof -
  have "unat x < 2 ^ 64" using unsigned_less [of x, where ?'a = nat] by simp
  with assms show x: "0x100000 \<le> unat x" by (auto simp: within_def unat_sub_if_size word_size split: if_splits)
  have "unat x < 0x110000" using assms x by (auto simp: within_def unat_sub_if_size word_size split: if_splits)
  with x show "\<not> within x VIDEO_ADDRESS 8000" by (auto simp: within_def unat_sub_if_size word_size VIDEO_ADDRESS_def split: if_splits)
qed

lemma within_sample_section: "within x 0x100000 n \<Longrightarrow> n \<le> 0x10000 \<Longrightarrow> within x 0x100000 0x10000"
  by (simp add: within_def)

lemma sample_machine_ready: "machine_ready 0x240fff sample_cpu id sample_image 0x100000 sample_loaded sample_power"
proof -
  have "clear sample_mem 0x100000 0x3000"
    unfolding clear_def
  proof clarify
    fix x :: u64 assume "within x 0x100000 0x3000"
    from below_MB(1) [OF within_sample_section [OF this]] show "sample_mem x = 0"
      by (simp add: sample_mem_def word_less_nat_alt)
  qed
  then show ?thesis
    using below_MB(2) within_sample_section [of _ "0x7000"] popfd_writes_sample unsupported_sample(1)
    by (simp add: machine_ready_def sample_loaded_def sample_power_def aligned_def in_image_def sample_image_def)
qed

lemma sample_info_ready: "boot_info_ready sample_image (ram sample_loaded) 0 [8] 96"
proof -
  have "tag_apart sample_image t" if "unat t \<le> 96" for t
    unfolding tag_apart_def
  proof (intro allI impI)
    fix x assume x: "within x t 12"
    have "x = t + (x - t)" by simp
    moreover have "unat (t + (x - t)) = unat t + unat (x - t)"
      using x that by (subst unat_add_lem [THEN iffD1]) (simp_all add: within_def)
    ultimately have "unat x < 108" using x that by (simp add: within_def)
    then show "\<not> in_image sample_image x \<and> \<not> within x VIDEO_ADDRESS 8000"
      using below_MB(1) [of x]
      by (auto simp: in_image_def sample_image_def within_def unat_sub_if_size word_size VIDEO_ADDRESS_def)
  qed
  moreover have "tag_type sample_mem 8 = 9" by code_simp
  ultimately show ?thesis
    using sample_tags_at by (simp add: boot_info_ready_def sample_loaded_def walkable_def MULTIBOOT_TAG_TYPE_MMAP_def
        del: tags_at.simps)
qed

lemma sample_link_booting: "booting sample_link sample_schedule"
  using sample_booting by (simp add: booting_def build_ok_def sample_link_def)

end
