(* ===== verification/Debug.thy ===== *)
theory Debug
  imports Panic
begin

text \<open>
  The \<open>DEBUG\<close> macro (\<open>src/src/include/core/debug.h\<close>) and what goes out on the serial line.
  \<open>enabled\<close> tells whether \<^verbatim>\<open>ENABLE_KERNEL_DEBUG\<close> was defined when the kernel was built; otherwise the
  macro expands to nothing. The kernel's own theories model the build without it.
\<close>

definition DEBUG :: "bool \<Rightarrow> 'd port_hw \<Rightarrow> string \<Rightarrow> u64 \<Rightarrow> string \<Rightarrow> string \<Rightarrow> va_slot list \<Rightarrow>
    ('d, 'z) screen_state_scheme \<Rightarrow> 's stop + ('d, 'z) screen_state_scheme" where
  "DEBUG enabled hw src_file line func format arg s =
     (if enabled
      then serial_printf hw SERIAL_COM1 (''DEBUG: %s:%d:%s(): '' @ format @ [NL])
             ([VStr src_file, VInt line, VStr func] @ arg) s
      else Inr s)"

subsection \<open>A transmitter that keeps up\<close>

text \<open>
  What the driver relies on of the device at port \<open>com\<close>, while \<open>ok\<close> holds of its state: it becomes
  ready after finitely many reads of the line status register; such a read sends nothing, and when
  it shows the transmitter empty (bit 5) then the transmitter is \<open>ready\<close>; a byte written to the data
  port in a ready state, and only there, is appended to what has been sent. Nothing is said of a
  byte written in any other state: it may be lost.
\<close>

definition transmits :: "'d port_hw \<Rightarrow> u16 \<Rightarrow> ('d \<Rightarrow> bool) \<Rightarrow> ('d \<Rightarrow> bool) \<Rightarrow> ('d \<Rightarrow> u8 list) \<Rightarrow> bool" where
  "transmits hw com ok ready sent \<longleftrightarrow> (\<forall>d. ok d \<longrightarrow>
     (\<exists>n. line_status hw com (status_reads hw com n d) AND 0x20 \<noteq> 0)
     \<and> (let d' = snd (hw_inb hw d (SERIAL_LINE_STATUS_PORT com))
        in ok d' \<and> sent d' = sent d \<and> (line_status hw com d AND 0x20 \<noteq> 0 \<longrightarrow> ready d'))
     \<and> (ready d \<longrightarrow> (\<forall>v. ok (hw_outb hw d com v) \<and> sent (hw_outb hw d com v) = sent d @ [v])))"

lemma transmits_reads:
  assumes "transmits hw com ok ready sent" and "ok d"
  shows "ok (status_reads hw com n d) \<and> sent (status_reads hw com n d) = sent d"
  using assms by (induction n) (auto simp: status_reads_def transmits_def Let_def)

lemma ready_after_shows:
  "ready_after hw com msk d = Some n \<Longrightarrow> line_status hw com (status_reads hw com n d) AND msk \<noteq> 0"
  unfolding ready_after_def by (metis (mono_tags, lifting) LeastI_ex option.distinct(1) option.inject)

lemma serial_write_transmits:
  fixes s :: "('d, 'z) machine_scheme"
  assumes t: "transmits hw com ok ready sent" and ok: "ok (dev s)"
  shows "\<exists>d. (serial_write hw com c s :: 's stop + _) = Inr (s\<lparr>dev := d\<rparr>) \<and> ok d \<and> sent d = sent (dev s) @ [of_char c]"
proof -
  obtain n where n: "ready_after hw com 0x20 (dev s) = Some n"
    using t ok by (auto simp: transmits_def ready_after_def)
  let ?r = "status_reads hw com n (dev s)" and ?d = "status_reads hw com (Suc n) (dev s)"
  have r: "ok ?r" "line_status hw com ?r AND 0x20 \<noteq> 0" using transmits_reads [OF t ok] ready_after_shows [OF n] by blast+
  have "?d = snd (hw_inb hw ?r (SERIAL_LINE_STATUS_PORT com))" by (simp add: status_reads_def)
  with t r have "ready ?d" by (simp add: transmits_def Let_def)
  moreover have "ok ?d" "sent ?d = sent (dev s)" using transmits_reads [OF t ok] by blast+
  ultimately have "ok (hw_outb hw ?d com (of_char c)) \<and> sent (hw_outb hw ?d com (of_char c)) = sent (dev s) @ [of_char c]"
    using t by (simp add: transmits_def)
  then show ?thesis
    by (intro exI [of _ "hw_outb hw ?d com (of_char c)"]) (simp add: serial_write_def spin_transmit n port_byte_out_def)
qed

lemma serial_writes_transmit:
  fixes s :: "('d, 'z) machine_scheme"
  assumes "transmits hw com ok ready sent" and "ok (dev s)"
  shows "\<exists>d. (fold_res (serial_write hw com) t s :: 's stop + _) = Inr (s\<lparr>dev := d\<rparr>) \<and> ok d
    \<and> sent d = sent (dev s) @ map of_char t"
  using assms(2)
proof (induction t arbitrary: s)
  case Nil
  then show ?case by (intro exI [of _ "dev s"]) simp
next
  case (Cons c t)
  from serial_write_transmits [OF assms(1) Cons.prems, of c, where ?'s = 's] obtain d where
    d: "(serial_write hw com c s :: 's stop + _) = Inr (s\<lparr>dev := d\<rparr>)" "ok d" "sent d = sent (dev s) @ [of_char c]" by blast
  with Cons.IH [of "s\<lparr>dev := d\<rparr>"] show ?case by auto
qed

lemma serial_printf_fold:
  assumes "com \<noteq> 0" and "render format arg = Some t" and "NUL \<notin> set format"
  shows "serial_printf hw com format arg s = fold_res (serial_write hw com) t s"
proof -
  have "uint com \<noteq> 0" using assms(1) by (simp add: uint_0_iff)
  then have "uint com > DEVICE_SCREEN" using uint_ge_0 [of com] unfolding DEVICE_SCREEN_def by linarith
  then show ?thesis
    using vprintfk_loop_render [of 0 format arg t "replicate 20 NUL" hw "uint com" s] assms(2,3)
    by (simp add: serial_printf_def vprintfk_def putchark_serial)
qed

subsection \<open>Properties\<close>

text \<open>
  \<open>serial_printf\<close> returns and puts exactly the bytes of the formatted text on the line, in
  order, and changes nothing but the device. Hypotheses: the port is not 0, which would be the screen,
  its transmitter keeps up, and the format has a text.
\<close>

theorem serial_printf_sends_text:
  assumes "transmits hw com ok ready sent" and "ok (dev s)" and "com \<noteq> 0"
    and "render format arg = Some t" and "NUL \<notin> set format"
  shows "\<exists>d. serial_printf hw com format arg s = Inr (s\<lparr>dev := d\<rparr>) \<and> ok d \<and> sent d = sent (dev s) @ map of_char t"
  using serial_printf_fold [OF assms(3-5)] serial_writes_transmit [OF assms(1,2)] by metis

text \<open>
  A serial port that is busy for three reads of its status after every byte, and loses a byte
  that is written meanwhile.
\<close>

definition slow_uart :: "u16 \<Rightarrow> (nat \<times> u8 list) port_hw" where
  "slow_uart com = \<lparr>
     hw_inb = \<lambda>(n, bs) p. if p = SERIAL_LINE_STATUS_PORT com then (if n = 0 then 0x60 else 0x40, (n - 1, bs)) else (0, (n, bs)),
     hw_outb = \<lambda>(n, bs) p v. if p = com \<and> n = 0 then (3, bs @ [v]) else (n, bs),
     hw_inw = \<lambda>d p. (0, d), hw_outw = \<lambda>d p v. d\<rparr>"

lemma slow_uart_transmits: "transmits (slow_uart com) com (\<lambda>_. True) (\<lambda>d. fst d = 0) snd"
proof -
  have "status_reads (slow_uart com) com k (n, bs) = (n - k, bs)" for k n bs
    by (induction k) (simp_all add: status_reads_def slow_uart_def)
  then have "line_status (slow_uart com) com (status_reads (slow_uart com) com n (n, bs)) AND 0x20 \<noteq> 0" for n bs
    by (simp add: line_status_def slow_uart_def)
  then show ?thesis
    unfolding transmits_def by (auto simp: slow_uart_def line_status_def Let_def split: if_splits)
qed

theorem serial_printf_sends_text_witness:
  "\<exists>d. serial_printf (slow_uart 0x2F8) 0x2F8 ''%2d:%2d %s'' [VInt 7, VInt 31, VStr ''UTC'']
      \<lparr>dev = (5, [1]), mem = (\<lambda>_. 0), screen_scheme = 7, framebuffer = 0xB8000, screen_col = 0, screen_row = 0\<rparr>
    = Inr \<lparr>dev = d, mem = (\<lambda>_. 0), screen_scheme = 7, framebuffer = 0xB8000, screen_col = 0, screen_row = 0\<rparr>
    \<and> snd d = 1 # map of_char ''07:31 UTC''"
proof -
  let ?s = "\<lparr>dev = (5, [1]), mem = (\<lambda>_. 0), screen_scheme = 7, framebuffer = 0xB8000, screen_col = 0, screen_row = 0\<rparr>
    :: (nat \<times> u8 list) screen_state"
  have "render ''%2d:%2d %s'' [VInt 7, VInt 31, VStr ''UTC''] = Some ''07:31 UTC''" by code_simp
  then have "\<exists>d. serial_printf (slow_uart 0x2F8) 0x2F8 ''%2d:%2d %s'' [VInt 7, VInt 31, VStr ''UTC''] ?s = Inr (?s\<lparr>dev := d\<rparr>)
      \<and> True \<and> snd d = snd (dev ?s) @ map of_char ''07:31 UTC''"
    by (intro serial_printf_sends_text [OF slow_uart_transmits]) simp_all
  then show ?thesis by simp
qed

text \<open>
  C38. With debugging enabled, \<open>DEBUG\<close> sends one line to the first serial port, the place of the
  call and the formatted message, and changes nothing but the device; without it, it does nothing.
  Hypotheses: the transmitter becomes ready after finitely many polls and sends the bytes that are written
  while it is ready (\<open>transmits\<close>; those written while it is busy may be lost), the format has a text, and the
  line number fits an \<open>int\<close>.
\<close>

theorem DEBUG_sends_line:
  fixes s :: "('d, 'z) screen_state_scheme"
  assumes "transmits hw SERIAL_COM1 ok ready sent" and "ok (dev s)" and "unat line < 2 ^ 31"
    and "render (format @ [NL]) arg = Some t" and "NUL \<notin> set format"
  shows "(DEBUG False hw src_file line func format arg s :: 's stop + _) = Inr s
    \<and> (\<exists>d. (DEBUG True hw src_file line func format arg s :: 's stop + _) = Inr (s\<lparr>dev := d\<rparr>)
        \<and> sent d = sent (dev s) @ map of_char (''DEBUG: '' @ cstr src_file @ '':'' @ numeral_of 10 (unat line) @ '':'' @
            cstr func @ ''(): '' @ t))"
proof -
  let ?fmt = "''DEBUG: %s:%d:%s(): '' @ format @ [NL]"
  have fmt: "?fmt = ''DEBUG: '' @ CHR ''%'' # CHR ''s'' # ('':'' @ CHR ''%'' # CHR ''d'' # ('':'' @ CHR ''%'' # CHR ''s'' #
      (''(): '' @ (format @ [NL]))))" by simp
  have args: "[VStr src_file, VInt line, VStr func] @ arg = VStr src_file # VInt line # VStr func # arg" by simp
  have r: "render ?fmt ([VStr src_file, VInt line, VStr func] @ arg) =
    Some (''DEBUG: '' @ cstr src_file @ '':'' @ numeral_of 10 (unat line) @ '':'' @ cstr func @ ''(): '' @ t)"
    unfolding fmt args
    by (subst render_str, simp, subst render_dec, simp, rule assms(3), subst render_str, simp, subst render_literal, simp,
        subst assms(4)) simp
  have nz: "SERIAL_COM1 \<noteq> 0" by (simp add: SERIAL_COM1_def)
  have nul: "NUL \<notin> set ?fmt" using assms(5) by simp
  show ?thesis
    unfolding DEBUG_def serial_printf_fold [OF nz r nul] if_True if_False
    using serial_writes_transmit [OF assms(1,2)] by blast
qed

text \<open>The first call of \<open>DEBUG\<close> in \<open>kmain\<close>.\<close>

theorem DEBUG_sends_line_witness:
  "\<exists>d. (DEBUG True (slow_uart SERIAL_COM1) ''src/kernel/kmain.c'' 49 ''kmain'' ''%s has started'' [VStr ''utero-archive'']
      \<lparr>dev = (5, []), mem = (\<lambda>_. 0), screen_scheme = 7, framebuffer = 0xB8000, screen_col = 0, screen_row = 0\<rparr> :: unit stop + _)
    = Inr \<lparr>dev = d, mem = (\<lambda>_. 0), screen_scheme = 7, framebuffer = 0xB8000, screen_col = 0, screen_row = 0\<rparr>
    \<and> snd d = map of_char (''DEBUG: src/kernel/kmain.c:49:kmain(): utero-archive has started'' @ [NL])"
proof -
  let ?s = "\<lparr>dev = (5, []), mem = (\<lambda>_. 0), screen_scheme = 7, framebuffer = 0xB8000, screen_col = 0, screen_row = 0\<rparr>
    :: (nat \<times> u8 list) screen_state"
  have r: "render (''%s has started'' @ [NL]) [VStr ''utero-archive''] = Some (''utero-archive has started'' @ [NL])"
    by code_simp
  have n: "numeral_of 10 49 = ''49''" by code_simp
  from DEBUG_sends_line [OF slow_uart_transmits _ _ r, where s = ?s and line = 49 and src_file = "''src/kernel/kmain.c''" and func = "''kmain''" and ?'s = unit]
  show ?thesis by (auto simp: n)
qed

end
