(* ===== verification/Spec2Isabelle.thy ===== *)
theory Spec2Isabelle
  imports Power_On Debug
begin

text \<open>
  \<^bold>\<open>A model of the UteroOS kernel.\<close>

  The program is a small 64-bit x86 kernel written in C (\<open>src/src\<close>, headers in
  \<open>src/src/include\<close>) with assembly (\<open>src/asm\<close>) and a Crystal entry point. A multiboot2 loader puts it in memory; the
  start-up code checks the machine, builds the first page tables and enters long mode. Then
  \<open>kmain\<close> clears the screen, checks and reads the boot information, sets up the
  interrupt tables, the timer, the keyboard and the serial port, hands the memory map to the
  frame allocator, shows the date and halts, serving interrupts from then on. This development
  translates all of the C code and the assembly and proves what its parts do.

  \<^bold>\<open>How the code is modelled.\<close>

  \<^item> A C function is a HOL function on an explicit state. The globals of each C file extend a
    record: \<open>machine\<close> (devices and memory), \<open>screen_state\<close>, \<open>idt_state\<close>, \<open>isr_state\<close>, \<open>timer_state\<close>,
    \<open>kernel_state\<close>, in the order in which the files build on one another, so that each operation
    runs on every larger state.
  \<^item> Unsigned integers are words of their width, so that their arithmetic wraps. An \<^verbatim>\<open>int\<close> is an
    integer, and where one may overflow the model has the fault \<open>Signed_overflow\<close>. Memory is a
    function from 64-bit addresses to bytes with little-endian loads and stores.
  \<^item> A function that may fail to return gives \<open>'s stop + 'a\<close>: \<open>Inr\<close> is a return, \<open>Hang\<close> a loop that
    never ends, \<open>Fault\<close> something C leaves undefined or an exception of the processor, \<open>Halted s\<close> the end of
    \<open>kernel_panic\<close> in state \<open>s\<close>. No fuel is used anywhere: loops with a bound are folds or
    recursive functions, the others are \<open>while_option\<close> (through \<open>spin\<close>) or
    \<open>partial_function (option)\<close>, and theorems about them say when they end.
  \<^item> What is not code of the repository is a parameter: the hardware behind the ports
    (\<open>port_hw\<close>, four bus operations on a device state of any type), what the compiler and linker
    decide (\<open>build\<close>: addresses of the tables and stubs, a line number, the date; \<open>layout\<close>: the
    sections of the start-up code; \<open>compiled\<close>: what C code leaves in registers and stack), the
    processor where its answers vary (\<open>cpu\<close>), the registers that survive the Crystal entry point
    (\<open>runtime\<close>), and the interrupt requests of the hardware (\<open>schedule\<close>, \<open>request\<close>).

  \<^bold>\<open>The theories\<close>, each with the C file it models.

  \<^item> \<open>Prelude\<close>: words, results, busy-wait loops, C strings, memory; the predicate \<open>returns\<close> and
    the locale \<open>invariant_steps\<close> for steps that keep an invariant.
  \<^item> \<open>Ports\<close> (\<open>core/ports.c\<close>): port input and output; the locale \<open>device_poll\<close> is what the busy-wait
    loops of the drivers share, interpreted for the transmitter and receiver of the serial port
    and for the update flag of the clock.
  \<^item> \<open>Libk\<close> (\<open>libk/mem.c\<close>, \<open>ctype.c\<close>, \<open>strrev.c\<close>, \<open>itoa.c\<close>, \<open>ulltoa.c\<close>): copying and number conversion,
    on buffers whose bounds are checked. The four digit loops share the locale \<open>digit_loop\<close>;
    the theorems relate them to the positional notation \<open>numeral_of\<close> and show where the
    conversions go wrong.
  \<^item> \<open>Screen\<close> (\<open>drivers/screen.c\<close>): text output, scrolling and the cursor on the bytes of the video
    memory. \<open>Screen_Rows\<close> bounds the cursor and the memory touched for text with newlines, which may
    go below the 25 rows of the screen.
  \<^item> \<open>Serial\<close> (\<open>drivers/serial.c\<close>): the polled serial port, with when its loops end.
  \<^item> \<open>Printfk\<close> (\<open>libk/printfk.c\<close>): formatted output. The locale \<open>char_device\<close> is what it relies on of
    its devices, provided by the screen, the serial port and the dispatch over both; \<open>render\<close>
    is the text a format denotes, and the code prints exactly that.
  \<^item> \<open>Idt\<close> (\<open>core/idt.c\<close>), \<open>Isr_Table\<close> and \<open>Isr\<close> (\<open>core/isr.c\<close>): descriptor table, handler table, dispatch of exceptions and requests; sequences of requests
    are the relation \<open>irq_run\<close>.
  \<^item> \<open>Panic\<close> (\<open>kernel/panic.c\<close>), \<open>Timer\<close> (\<open>core/timer.c\<close>), \<open>Keyboard\<close> (\<open>drivers/keyboard.c\<close>).
  \<^item> \<open>Cmos\<close> (\<open>core/cmos.c\<close>): the real-time clock, for all four formats of the chip. What is read from a
    chip at rest (\<open>holds_still\<close>) is the date it shows; on one that ticks (\<open>keeps_time\<close>: every run of
    accesses comes to a stretch of 32 without an update) the reads end.
  \<^item> \<open>Boot\<close> (\<open>core/boot.c\<close>): the tags of the boot information, read from memory; the walk returns
    exactly on well-formed tags, as the specification of the loader lays them out (\<open>tag_after\<close>, \<open>walkable\<close>),
    and encoded tags are found again.
  \<^item> \<open>Mmap\<close> (\<open>mmu/mmap.c\<close>): the frame allocator, against the list of chunks of the memory map.
  \<^item> \<open>Paging\<close> (\<open>mmu/paging.c\<close>): page tables accessed through their own recursive entry; the
    software walk against the walk of the processor, \<open>hw_translate\<close>.
  \<^item> \<open>Mmu\<close> (\<open>mmu/mmu.c\<close>), \<open>Check\<close> (\<open>core/check.c\<close>) and \<open>Kmain\<close> (\<open>kernel/kmain.c\<close>): initialisation, the
    self-check and the boot as a whole, with interrupt requests between the statements of \<open>kmain\<close> and the
    rounds of the self-check.
  \<^item> \<open>Startup\<close> (\<open>asm/boot.asm\<close>, \<open>long_mode_init.asm\<close>, \<open>multiboot_header.asm\<close>): the checks, with the words
    they and the calls push on the stack, and the first page
    tables, written byte by byte; the theorems give the translation they define, which is the identity on
    the first gigabyte, where \<open>kmain\<close> runs, and what \<open>Paging\<close> does on these tables.
  \<^item> \<open>Stubs\<close> (\<open>asm/interrupt.asm\<close>): the interrupt stubs as instructions on registers and stack, from the
    gate to \<^verbatim>\<open>iretq\<close>, which checks the selectors it pops against the segment table of the start-up code; the
    interrupted code is resumed, the handlers see its context, and where this fails.
  \<^item> \<open>Nesting\<close>: interrupt requests that interrupt one another, between a gate and the \<^verbatim>\<open>cli\<close> of its stub, as
    forests of requests; they resume the interrupted code and refine the sequences of handler calls of
    \<open>Check\<close> and \<open>Kmain\<close>, with the stack they need.
  \<^item> \<open>Power_On\<close> (\<open>kernel/main.cr\<close>): the start-up code, the Crystal entry point and \<open>kmain\<close> in sequence, on the
    memory that the boot loader leaves.
  \<^item> \<open>Debug\<close> (\<open>include/core/debug.h\<close>): \<open>DEBUG\<close> and the bytes that go out on the serial line.
  \<^item> This theory: the machine from power-on through the boot to the service of interrupts, and the
    machines on which it does not come up.

  \<^bold>\<open>What is left out.\<close> In the theories of the kernel \<^verbatim>\<open>DEBUG\<close> expands to nothing, as in the default
  build. In the start-up code a \<^verbatim>\<open>ret\<close> is taken to return to its call and the arithmetic flags
  are not modelled; of the translation
  lookaside buffer only the entry that \<open>unmap\<close> drops is modelled, and caches are not. While \<open>kmain\<close> boots, an interrupt is taken between two of its
  statements or between two rounds of its wait loop, where no argument register is live. A request within a
  called C function is not covered by the theorems about the boot: its stub returns with \<^verbatim>\<open>rdi\<close> overwritten, as \<open>Stubs\<close>
  shows, and may so break the function. Once \<open>kmain\<close> halts, requests come at any time and nest (\<open>Nesting\<close>). The C globals are
  fields of the state and not bytes of memory, so no stray store of the model can reach them; theorems that speak of
  unchanged memory leave out the image of the kernel, where they lie. The frame allocator and \<open>kmain\<close> see one flat memory; \<open>Paging\<close> has
  the physical memory and the translation, and \<open>Startup\<close> shows that below one gigabyte they are the same. The
  stack that compiled C code uses is modelled under the interrupt stubs only; that it stays within its 16 kilobytes is assumed. What the Crystal compiler puts around
  the one call of \<open>kernel/main.cr\<close> is a parameter. Left out for good are the prototypes, the constants that no
  code uses (the other tag types, exception numbers and colors of the headers) and the macro \<open>UNUSED\<close>, which
  have no behaviour. The musl library (a submodule)
  and the Crystal tool chain are third-party code.
\<close>

subsection \<open>From power-on\<close>

text \<open>
  C1. From power-on to the last loop: on a supported machine, with the kernel loaded by a
  multiboot2 loader, the start-up code, \<open>main\<close> and \<open>kmain\<close> run through. In the loop the interrupt tables are
  in place with the timer and keyboard handlers and
  interrupts enabled, the page tables of the start-up code still map the first gigabyte to itself,
  and outside the image of the kernel and the video memory no byte has changed since power-on; inside
  the image lie tables, stack and globals. Interrupt requests are taken, any number of them on lines
  0 to 4, between two statements of \<open>kmain\<close> and between two rounds of its wait loop; requests inside
  a C function that \<open>kmain\<close> calls are not covered. Hypotheses:
  the two registers set by the start-up code survive \<open>main\<close>, the image contains the \<^verbatim>\<open>.bss\<close> section, whose tables
  are zero, and lies off the video memory, the boot information is well formed and
  overlaps neither, the clock keeps time (it may tick at any moment, but comes to rest for 32
  accesses, \<open>keeps_time\<close>), the timer ticks during
  the self-check, and compiled code keeps to its stack.
\<close>

theorem power_on_boots:
  fixes s :: "('d, 'z) kernel_state_scheme"
  assumes "machine_ready writable c runtime im b t s" and "boot_info_ready im (ram t) addr ts e"
    and "booting bld sched" and "keeps_time hw"
  shows "\<exists>s'. power_on runtime hw bld sched (bss b a ret) c 0x36d76289 addr t s = Inr s'
    \<and> irq_ready bld s' \<and> interrupt_handlers s' ! 33 = Some Keyboard_callback \<and> identity_mapped b (mem s')
    \<and> (\<forall>x. \<not> in_image im x \<and> \<not> within x VIDEO_ADDRESS 8000 \<longrightarrow> mem s' x = ram t x)"
proof -
  obtain s' m g where s': "power_on runtime hw bld sched (bss b a ret) c 0x36d76289 addr t s = Inr s'"
    "steady bld handlers_keyboard 15 m g s'" "irq_ready bld s'" "boot_tables (bss b a ret) (mem s')"
    "\<forall>x. \<not> in_image im x \<and> \<not> within x VIDEO_ADDRESS 8000 \<longrightarrow> mem s' x = ram t x"
    by (rule power_on_steady [OF assms, where a = a and ret = ret])
  moreover have "interrupt_handlers s' ! 33 = Some Keyboard_callback"
    using s'(2) by (simp add: steady_def running_def handlers_defs)
  ultimately show ?thesis using identity_mapped_tables by blast
qed

theorem power_on_boots_witness:
  "\<exists>s'. power_on id ticking_chip sample_link sample_schedule (bss 0x100000 0x108000 sample_returns) sample_cpu 0x36d76289 0
      sample_loaded sample_power = Inr s' \<and> irq_ready sample_link s' \<and> identity_mapped 0x100000 (mem s')"
  using power_on_boots [OF sample_machine_ready sample_info_ready sample_link_booting ticking_keeps_time, of "0x108000" sample_returns]
  by blast

text \<open>
  C2. The booted machine serves interrupts: from the last loop of \<open>kmain\<close>, with any contents of
  the general registers and in the segments that the start-up code has set, every nest of interrupt requests in the
  order of the interrupt controller returns to the interrupted instruction with
  all registers but \<^verbatim>\<open>rdi\<close> as they were, the timer has counted its requests, the interrupt tables
  are in place, the page tables still map the first gigabyte to itself, and memory outside the
  image, the video memory and the stack is as it was at power-on. Hypotheses: those of
  the boot, with its limits on when requests come during it, the stubs linked where the gates
  point, and a stack that overlaps neither the tables nor the video memory.
\<close>

theorem power_on_serves_requests:
  fixes s :: "('d, 'z) processor_scheme"
  assumes "machine_ready writable c runtime im b t s" and "boot_info_ready im (ram t) addr ts e"
    and "booting bld sched" and "keeps_time hw"
    and "linked bld code" and "by_priority 5 qs" and "stack_use cc + 408 \<le> 2 ^ 64"
    and "\<forall>x. below x (gs RSP AND NOT 15) (352 + stack_use cc) \<longrightarrow> \<not> within x VIDEO_ADDRESS 8000 \<and> \<not> within x (ucast b) 0x3000"
  shows "\<exists>s' s''. power_on runtime hw bld sched (bss b a ret) c 0x36d76289 addr t s = Inr s'
    \<and> take_requests hw bld cc code qs (s'\<lparr>gpr := gs, reg_rip := ip, reg_cs := 8, reg_ss := 0, reg_rflags := flags\<rparr>) = Inr s''
    \<and> reg_rip s'' = ip \<and> reg_cs s'' = 8 \<and> reg_ss s'' = 0 \<and> (\<forall>r. r \<noteq> RDI \<longrightarrow> gpr s'' r = gs r)
    \<and> tick s'' = tick s' + of_nat (timer_lines handlers_keyboard (served qs)) \<and> irq_ready bld s''
    \<and> identity_mapped b (mem s'')
    \<and> (\<forall>x. \<not> below x (gs RSP AND NOT 15) (352 + stack_use cc) \<and> \<not> in_image im x \<and> \<not> within x VIDEO_ADDRESS 8000
         \<longrightarrow> mem s'' x = ram t x)"
proof -
  obtain s' m g where s': "power_on runtime hw bld sched (bss b a ret) c 0x36d76289 addr t s = Inr s'"
    and st: "steady bld handlers_keyboard 15 m g s'" and tab: "boot_tables (bss b a ret) (mem s')"
    and frame: "\<forall>x. \<not> in_image im x \<and> \<not> within x VIDEO_ADDRESS 8000 \<longrightarrow> mem s' x = ram t x"
    by (rule power_on_steady [OF assms(1-4), where a = a and ret = ret])
  let ?h = "s'\<lparr>gpr := gs, reg_rip := ip, reg_cs := 8, reg_ss := 0, reg_rflags := flags\<rparr>"
  have base: "stack_base ?h = gs RSP AND NOT 15" by (simp add: stack_base_def)
  have ord: "in_order bld handlers_keyboard 15 g ?h"
    using st by (auto simp: in_order_def steady_def running_def tables_ok_def rows_ok_def cursor_ok_def segments_ok_def selectors)
  have "stack_room (352 + stack_use cc) ?h" using assms(8) by (simp add: stack_room_def base)
  from take_requests_by_priority [OF ord assms(6,5) this assms(7), of hw] obtain s'' where
    run: "take_requests hw bld cc code qs ?h = Inr s''"
    and served: "returned hw (in_order bld handlers_keyboard 15 g) (352 + stack_use cc) (served qs) ?h s''" by blast
  have hs: "interrupt_handlers ?h = handlers_keyboard" using ord by (simp add: in_order_def steady_def running_def)
  have und: "undisturbed ?h s''" using served by (simp add: returned_def)
  have regs: "reg_rip s'' = ip" "reg_cs s'' = 8" "reg_ss s'' = 0" "\<forall>r. r \<noteq> RDI \<longrightarrow> gpr s'' r = gs r"
    using undisturbed_fields [OF und] by auto
  have "tick s'' = tick s' + of_nat (timer_lines handlers_keyboard (served qs))"
    using returned_tick [OF served by_priority_lines [OF assms(6) order_refl]] hs by simp
  moreover have "steady bld handlers_keyboard 15 (mem s'') g s''"
    using served by (simp add: returned_def in_order_def)
  then have "irq_ready bld s''" using timer_handlers_ready by blast
  moreover have "boot_tables (bss b a ret) (mem s'')"
  proof (rule boot_tables_bss_cong [OF tab])
    show "aligned (ucast b)" "unat b + 0x3000 \<le> 2 ^ 32" using assms(1) by (simp_all add: machine_ready_def)
    fix x assume x: "within x (ucast b) 0x3000"
    then have "within x (ucast b) 0x7000" by (simp add: within_def)
    then have "\<not> within x VIDEO_ADDRESS 8000" using assms(1) unfolding machine_ready_def by blast
    moreover have "\<not> below x (stack_base ?h) (352 + stack_use cc)" using x assms(8) unfolding base by blast
    ultimately show "mem s' x = mem s'' x" using served by (simp add: returned_def)
  qed
  moreover have "mem s'' x = mem s' x" if "\<not> below x (gs RSP AND NOT 15) (352 + stack_use cc)" "\<not> within x VIDEO_ADDRESS 8000" for x
    using served that unfolding returned_def base by simp
  ultimately show ?thesis using s' run regs identity_mapped_tables frame by metis
qed

theorem power_on_serves_requests_witness:
  "\<exists>s' s''. power_on id ticking_chip sample_link sample_schedule (bss 0x100000 0x108000 sample_returns) sample_cpu 0x36d76289 0
      sample_loaded sample_power = Inr s'
    \<and> take_requests ticking_chip sample_link sample_compiled sample_code [Request 1 [Request 0 []], Request 0 []]
      (s'\<lparr>gpr := gpr sample_machine, reg_rip := 0x101234, reg_cs := 8, reg_ss := 0, reg_rflags := 0x246\<rparr>) = Inr s''
    \<and> reg_rip s'' = 0x101234 \<and> gpr s'' RSP = 0x204FF8 \<and> tick s'' = tick s' + 2 \<and> identity_mapped 0x100000 (mem s'')"
proof -
  let ?qs = "[Request 1 [Request 0 []], Request 0 []]"
  have U: "stack_use sample_compiled = 4096" by (simp add: sample_compiled_def)
  have room: "stack_use sample_compiled + 408 \<le> 2 ^ 64" and prio: "by_priority 5 ?qs" by (simp_all add: U)
  have sp: "gpr sample_machine RSP = 0x204FF8" by (simp add: sample_machine_def)
  have ticks: "timer_lines handlers_keyboard (served ?qs) = 2"
    by (simp add: timer_lines_def handlers_defs)
  have "\<forall>x. below x (gpr sample_machine RSP AND NOT 15) (352 + stack_use sample_compiled) \<longrightarrow>
      \<not> within x VIDEO_ADDRESS 8000 \<and> \<not> within x (ucast (0x100000 :: u32)) 0x3000"
  proof (intro allI impI)
    fix x assume x: "below x (gpr sample_machine RSP AND NOT 15) (352 + stack_use sample_compiled)"
    then have "0x200000 \<le> unat x" "unat x < 0x204FF0"
      by (auto simp: sp U below_def within_def unat_sub_if_size word_size split: if_splits)
    then show "\<not> within x VIDEO_ADDRESS 8000 \<and> \<not> within x (ucast (0x100000 :: u32)) 0x3000"
      by (auto simp: within_def unat_sub_if_size word_size VIDEO_ADDRESS_def split: if_splits)
  qed
  from power_on_serves_requests [where gs = "gpr sample_machine" and cc = sample_compiled and a = "0x108000" and ret = sample_returns
      and ip = "0x101234" and flags = "0x246",
      OF sample_machine_ready sample_info_ready sample_link_booting ticking_keeps_time sample_linked prio room this]
  show ?thesis unfolding ticks by (auto simp: sp simp del: take_requests.simps)
qed

text \<open>
  C6. Machines on which the kernel does not come up: where the first unmet condition is the loader's
  magic number, \<^verbatim>\<open>cpuid\<close> or long mode, the machine halts with \<open>ERR: \<close> and its code in the first six
  cells of the screen, no kernel code having run and no other byte changed but the two words at the top
  of the stack; and where the code around
  \<open>main\<close> does not happen to leave the magic number and an aligned address in the two registers that \<open>main\<close>
  does not pass on, the last loop of \<open>kmain\<close> is never reached. Hypothesis: \<^verbatim>\<open>popfd\<close> changes exactly
  the writable flags.
\<close>

theorem power_on_fails:
  fixes s :: "('d, 'z) kernel_state_scheme"
  assumes "popfd_writes writable c"
  shows "case unsupported writable c eax of
      Some al \<Rightarrow> \<exists>m. power_on runtime hw bld sched l c eax ebx t s = Inl (Halted (s\<lparr>mem := m\<rparr>))
        \<and> map (\<lambda>i. m (0xb8000 + 2 * of_nat i)) [0..<6] = map of_char (''ERR: '' @ [al])
        \<and> (\<forall>x. \<not> within x 0xb8000 12 \<and> \<not> stack_word l x \<longrightarrow> m x = ram t x)
    | None \<Rightarrow> (case runtime (ucast eax, ucast ebx) of (magic, addr) \<Rightarrow>
        magic \<noteq> 0x36d76289 \<or> \<not> 8 dvd unat addr \<longrightarrow>
        (\<forall>s'. power_on runtime hw bld sched l c eax ebx t s \<noteq> Inr s'))"
proof (rule start_eq [OF assms, of l t eax ebx])
  fix m0 assume m0: "\<forall>x. \<not> stack_word l x \<longrightarrow> m0 x = ram t x"
    and eq: "start l c eax ebx t = (case unsupported writable c eax of
      Some al \<Rightarrow> start_error al (t\<lparr>reg_esp := stack_top l - 4, ram := m0\<rparr>)
    | None \<Rightarrow> Inr (eax, ebx, long_mode_start (enter_long_mode l (enable_paging l (t\<lparr>reg_esp := stack_top l,
        ram := store32 (set_up_page_tables l m0) (ucast (stack_top l - 4)) (return_to l 4)\<rparr>)))))"
  show ?thesis
  proof (cases "unsupported writable c eax")
    case None
    then show ?thesis
      by (simp add: power_on_def eq crystal_main_def Let_def kmain_needs_valid_boot split: prod.split)
  next
    case (Some al)
    then show ?thesis using m0
      by (simp add: power_on_def eq start_error_def)
        (intro exI [of _ "error_screen al m0"], simp add: error_screen_text error_screen_frame)
  qed
qed

theorem power_on_fails_witness:
  "(\<exists>m. power_on id ticking_chip sample_link sample_schedule (bss 0x100000 0x108000 sample_returns) sample_cpu 0 0
      sample_loaded sample_power = Inl (Halted (sample_power\<lparr>mem := m\<rparr>)) \<and> m 0xb800a = of_char (CHR ''0''))
    \<and> (\<forall>s'. power_on (\<lambda>_. (1, 0)) ticking_chip sample_link sample_schedule (bss 0x100000 0x108000 sample_returns) sample_cpu 0x36d76289 0
      sample_loaded sample_power \<noteq> Inr s')"
proof -
  have six: "[0..<6] = [0, 1, 2, 3, 4, 5]" by code_simp
  show ?thesis
    using power_on_fails [OF popfd_writes_sample, where eax = 0 and runtime = id and hw = ticking_chip and bld = sample_link
        and sched = sample_schedule and l = "bss 0x100000 0x108000 sample_returns" and ebx = 0 and t = sample_loaded and s = sample_power]
      power_on_fails [OF popfd_writes_sample, where eax = "0x36d76289" and runtime = "\<lambda>_. (1, 0)" and hw = ticking_chip and bld = sample_link
        and sched = sample_schedule and l = "bss 0x100000 0x108000 sample_returns" and ebx = 0 and t = sample_loaded and s = sample_power]
    unfolding unsupported_sample option.case six by auto
qed

subsection \<open>The booted kernel\<close>

lemma irq_effects_steady:
  "steady bld hs k m g s \<Longrightarrow> lines_ok irqs \<Longrightarrow>
    steady bld hs k m g (fold (\<lambda>(n, rsp). irq_effect hw n rsp) irqs s)"
  by (induction irqs arbitrary: s) (auto simp: lines_ok_def irq_effect_steady)

text \<open>
  A booted kernel serves interrupts: after a boot under the conditions of \<open>booting\<close>, every
  further sequence of requests on lines 0 to 4 completes, the tables stay in place with
  interrupts enabled, the tick counter advances by the number of timer requests, and the
  memory outside the video memory is still that before the boot, however many keys are
  pressed.
\<close>

theorem booted_kernel_serves_interrupts:
  fixes s :: "('d, 'z) kernel_state_scheme"
  assumes "booting bld sched" and "keeps_time hw"
    and "length (idt s) = 256" and "interrupt_handlers s = replicate 256 None"
    and "8 dvd unat addr" and "m = mem (screen_clear (screen_init s))"
    and "tags_at m (mbi_tags addr) ts e" and "list_all (walkable m) ts" and "list_all off_screen (ts @ [e])"
    and "lines_ok irqs"
  shows "\<exists>s' s''. kmain hw bld sched 0x36d76289 addr s = Inr s' \<and> irq_run hw irqs s' s'' \<and> irq_ready bld s''
    \<and> tick s'' = tick s' + of_nat (timer_requests irqs) \<and> outside (mem s'') = outside (mem s)"
proof -
  obtain s' r mmap where s': "kmain hw bld sched 0x36d76289 addr s = Inr s'" and ready: "irq_ready bld s'"
    and st: "steady bld handlers_keyboard 15 m (mmu_init mmap r (mmap_state s)) s'"
    by (rule kmain_steady [OF assms(1-9)])
  let ?s = "fold (\<lambda>(n, rsp). irq_effect hw n rsp) irqs s'"
  note lines = assms(10) [unfolded lines_ok_iff]
  have "irq_run hw irqs s' ?s" using irq_run_eq [OF ready lines] by blast
  moreover have "irq_ready bld ?s" "tick ?s = tick s' + of_nat (timer_requests irqs)"
    using fold_irq_effect [OF ready lines, of hw] by (simp_all add: timer_requests_def)
  moreover have "outside (mem ?s) = outside (mem s)"
    using irq_effects_steady [OF st assms(10), of hw] outside_screen_clear [of s] assms(6)
    by (simp add: steady_def running_def)
  ultimately show ?thesis using s' by blast
qed

theorem booted_kernel_serves_interrupts_witness:
  "\<exists>s' s''. kmain ticking_chip sample_build sample_schedule 0x36d76289 0 sample_kernel = Inr s'
    \<and> irq_run ticking_chip [(0, 0), (1, 0), (0, 0)] s' s'' \<and> tick s'' = tick s' + 2"
proof -
  have "lines_ok [(0, 0), (1, 0), (0, 0)]" by (simp add: lines_ok_def)
  from booted_kernel_serves_interrupts [OF sample_booting sample_boot_info(1-4) refl sample_boot_info(5,6)
      sample_off_screen this]
  show ?thesis by (auto simp: timer_requests_def)
qed

end
